(* ===== verification/Prelude.thy ===== *)
theory Prelude
  imports Main "HOL-Library.Word" "HOL-Library.Monad_Syntax"
begin

text \<open>
  Shared vocabulary of the development: the fragments of Rust's standard library the
  sources use (32-bit identifiers, loops over vectors, slots of a \<open>Vec<Option<T>>\<close>,
  checked arithmetic on \<open>usize\<close>), and the lemmas about lists, relations and reachability
  that the component theories rest on.

  A computation that may panic or never return has type \<open>'a option\<close>: \<open>None\<close> is the
  fault. An \<open>Option\<close> that the source itself returns is a second \<open>option\<close> inside it.
\<close>

named_theorems etas_simps \<open>unfolding rules of small accessors\<close>

section \<open>Machine integers\<close>

type_synonym u32 = "32 word"

text \<open>The largest \<open>usize\<close> of the 64-bit targets the crates are built for.\<close>

definition usize_max :: nat where
  "usize_max = 2 ^ 64 - 1"

definition checked_add :: "nat \<Rightarrow> nat \<Rightarrow> nat option" where
  "checked_add a b = (if a + b \<le> usize_max then Some (a + b) else None)"

definition checked_mul :: "nat \<Rightarrow> nat \<Rightarrow> nat option" where
  "checked_mul a b = (if a * b \<le> usize_max then Some (a * b) else None)"

definition saturating_add :: "nat \<Rightarrow> nat \<Rightarrow> nat" where
  "saturating_add a b = min (a + b) usize_max"

lemma checked_add_Some_iff: "checked_add a b = Some c \<longleftrightarrow> c = a + b \<and> a + b \<le> usize_max"
  by (auto simp: checked_add_def)

lemma checked_mul_Some_iff: "checked_mul a b = Some c \<longleftrightarrow> c = a * b \<and> a * b \<le> usize_max"
  by (auto simp: checked_mul_def)

section \<open>Loops over a vector\<close>

text \<open>\<open>for x in xs { s = f(x, s)? }\<close>, where a fault of the body is a fault of the loop.\<close>

fun for_each :: "('a \<Rightarrow> 's \<Rightarrow> 's option) \<Rightarrow> 'a list \<Rightarrow> 's \<Rightarrow> 's option" where
  "for_each f [] s = Some s"
| "for_each f (x # xs) s = (case f x s of None \<Rightarrow> None | Some s' \<Rightarrow> for_each f xs s')"

lemma for_each_append:
  "for_each f (xs @ ys) s = (case for_each f xs s of None \<Rightarrow> None | Some s' \<Rightarrow> for_each f ys s')"
  by (induction xs arbitrary: s) (auto split: option.splits)

text \<open>
  The rule of such a loop: an invariant over the elements already handled, kept by the
  body for the next element, holds at the end, and the loop returns.
\<close>

lemma for_each_rule:
  assumes "I [] s"
    and "\<And>ys x zs s. xs = ys @ x # zs \<Longrightarrow> I ys s \<Longrightarrow> \<exists>s'. f x s = Some s' \<and> I (ys @ [x]) s'"
  shows "\<exists>s'. for_each f xs s = Some s' \<and> I xs s'"
proof -
  have "\<exists>s'. for_each f zs s = Some s' \<and> I (ys @ zs) s'"
    if "xs = ys @ zs" "I ys s" for ys zs s
    using that
  proof (induction zs arbitrary: ys s)
    case Nil
    then show ?case by simp
  next
    case (Cons x zs)
    from assms(2) [OF Cons.prems] obtain s' where "f x s = Some s'" "I (ys @ [x]) s'"
      by blast
    moreover from Cons.IH [of "ys @ [x]" s'] Cons.prems(1) calculation(2)
    obtain s'' where "for_each f zs s' = Some s''" "I (ys @ x # zs) s''"
      by auto
    ultimately show ?case by simp
  qed
  from this [of "[]" xs s] assms(1) show ?thesis by simp
qed

lemma for_each_invariant:
  assumes "for_each f xs s = Some s'" "I s"
    and "\<And>x s s'. x \<in> set xs \<Longrightarrow> I s \<Longrightarrow> f x s = Some s' \<Longrightarrow> I s'"
  shows "I s'"
  using assms
proof (induction xs arbitrary: s)
  case Nil
  then show ?case by simp
next
  case (Cons x xs)
  then obtain t where "f x s = Some t" "for_each f xs t = Some s'"
    by (auto split: option.splits)
  with Cons.IH [of t] Cons.prems(2,3) show ?case by (meson list.set_intros)
qed

text \<open>The same loop where the body may also leave the enclosing function with an error.\<close>

fun try_each :: "('a \<Rightarrow> 's \<Rightarrow> ('e + 's) option) \<Rightarrow> 'a list \<Rightarrow> 's \<Rightarrow> ('e + 's) option" where
  "try_each f [] s = Some (Inr s)"
| "try_each f (x # xs) s =
     (case f x s of
        None \<Rightarrow> None
      | Some (Inl e) \<Rightarrow> Some (Inl e)
      | Some (Inr s') \<Rightarrow> try_each f xs s')"

definition ends_in :: "('e + 's) option \<Rightarrow> ('e \<Rightarrow> bool) \<Rightarrow> ('s \<Rightarrow> bool) \<Rightarrow> bool" where
  "ends_in r Q P \<longleftrightarrow> (case r of None \<Rightarrow> False | Some (Inl e) \<Rightarrow> Q e | Some (Inr s) \<Rightarrow> P s)"

lemma ends_in_simps [simp]:
  "\<not> ends_in None Q P" "ends_in (Some (Inl e)) Q P = Q e" "ends_in (Some (Inr s)) Q P = P s"
  by (simp_all add: ends_in_def)

lemma ends_inE:
  assumes "ends_in r Q P"
  obtains (err) e where "r = Some (Inl e)" "Q e" | (ok) s where "r = Some (Inr s)" "P s"
  using assms by (auto simp: ends_in_def split: option.splits sum.splits)

lemma ends_in_mono:
  assumes "ends_in r Q P" "\<And>e. Q e \<Longrightarrow> Q' e" "\<And>s. P s \<Longrightarrow> P' s"
  shows "ends_in r Q' P'"
  using assms by (auto simp: ends_in_def split: option.splits sum.splits)

lemma try_each_rule:
  assumes "I [] s"
    and "\<And>ys x zs s. xs = ys @ x # zs \<Longrightarrow> I ys s \<Longrightarrow> ends_in (f x s) Q (I (ys @ [x]))"
  shows "ends_in (try_each f xs s) Q (I xs)"
proof -
  have "ends_in (try_each f zs s) Q (I (ys @ zs))" if "xs = ys @ zs" "I ys s" for ys zs s
    using that
  proof (induction zs arbitrary: ys s)
    case Nil
    then show ?case by simp
  next
    case (Cons x zs)
    from assms(2) [OF Cons.prems] show ?case
    proof (cases rule: ends_inE)
      case (err e)
      then show ?thesis by simp
    next
      case (ok s')
      with Cons.IH [of "ys @ [x]" s'] Cons.prems(1) show ?thesis by simp
    qed
  qed
  from this [of "[]" xs s] assms(1) show ?thesis by simp
qed

section \<open>Reachability\<close>

lemma rtrancl_Image_closed:
  assumes "E `` X \<subseteq> X" and "Y \<subseteq> X"
  shows "E\<^sup>* `` Y \<subseteq> X"
proof -
  have "(y, z) \<in> E\<^sup>* \<Longrightarrow> y \<in> X \<Longrightarrow> z \<in> X" for y z
    by (induction rule: rtrancl_induct) (use assms in blast)+
  with assms(2) show ?thesis by blast
qed

lemma rtrancl_Image_step: "x \<in> E\<^sup>* `` Y \<Longrightarrow> (x, y) \<in> E \<Longrightarrow> y \<in> E\<^sup>* `` Y"
  by (auto intro: rtrancl_into_rtrancl)

section \<open>Lists\<close>

lemma filter_neq_id: "e \<notin> set xs \<Longrightarrow> filter (\<lambda>x. x \<noteq> e) xs = xs"
  by (auto simp: filter_id_conv)

lemma filter_neq_split: "distinct (p @ e # l) \<Longrightarrow> filter (\<lambda>x. x \<noteq> e) (p @ e # l) = p @ l"
  by (simp add: filter_neq_id)

lemma length_filter_neq: "distinct xs \<Longrightarrow> e \<in> set xs \<Longrightarrow> length xs = Suc (length (filter (\<lambda>x. x \<noteq> e) xs))"
  using filter_neq_split by (metis add_Suc_right length_Cons length_append split_list)

section \<open>Positions in a list\<close>

text \<open>\<open>before x y xs\<close>: some occurrence of \<open>x\<close> in \<open>xs\<close> comes before an occurrence of \<open>y\<close>.\<close>

fun before :: "'a \<Rightarrow> 'a \<Rightarrow> 'a list \<Rightarrow> bool" where
  "before x y [] = False"
| "before x y (z # zs) = (z = x \<and> y \<in> set zs \<or> before x y zs)"

lemma before_append:
  "before x y (xs @ ys) \<longleftrightarrow> before x y xs \<or> before x y ys \<or> x \<in> set xs \<and> y \<in> set ys"
  by (induction xs) auto

lemma before_rev: "before x y (rev xs) \<longleftrightarrow> before y x xs"
  by (induction xs) (auto simp: before_append)

lemma before_set: "before x y xs \<Longrightarrow> x \<in> set xs \<and> y \<in> set xs"
  by (induction xs) auto

lemma before_trans: "distinct xs \<Longrightarrow> before x y xs \<Longrightarrow> before y z xs \<Longrightarrow> before x z xs"
  by (induction xs) (auto dest: before_set)

lemma before_irrefl: "distinct xs \<Longrightarrow> \<not> before x x xs"
  by (induction xs) auto

section \<open>Results\<close>

text \<open>\<open>Result<A, E>\<close> is \<open>'e + 'a\<close>; these are the combinators that \<open>?\<close>, \<open>ok_or\<close> and early returns need.\<close>

definition bind_r :: "'e + 'a \<Rightarrow> ('a \<Rightarrow> 'e + 'b) \<Rightarrow> 'e + 'b" where
  "bind_r r f = (case r of Inl e \<Rightarrow> Inl e | Inr a \<Rightarrow> f a)"

definition ok_or :: "'a option \<Rightarrow> 'e \<Rightarrow> 'e + 'a" where
  "ok_or x e = (case x of None \<Rightarrow> Inl e | Some a \<Rightarrow> Inr a)"

definition ensure :: "bool \<Rightarrow> 'e \<Rightarrow> 'e + unit" where
  "ensure c e = (if c then Inr () else Inl e)"

lemma bind_r_simps [simp]: "bind_r (Inl e) f = Inl e" "bind_r (Inr a) f = f a"
  by (simp_all add: bind_r_def)

lemma bind_r_Inr_iff: "bind_r r f = Inr b \<longleftrightarrow> (\<exists>a. r = Inr a \<and> f a = Inr b)"
  by (cases r) auto

lemma bind_r_Inl_iff: "bind_r r f = Inl e \<longleftrightarrow> r = Inl e \<or> (\<exists>a. r = Inr a \<and> f a = Inl e)"
  by (cases r) auto

lemma ok_or_simps [simp]: "ok_or None e = Inl e" "ok_or (Some a) e = Inr a"
  by (simp_all add: ok_or_def)

lemma ok_or_Inr_iff: "ok_or x e = Inr a \<longleftrightarrow> x = Some a"
  by (cases x) auto

lemma ok_or_Inl_iff: "ok_or x e = Inl d \<longleftrightarrow> x = None \<and> d = e"
  by (cases x) auto

lemma ensure_simps [simp]: "ensure True e = Inr ()" "ensure False e = Inl e"
  by (simp_all add: ensure_def)

lemma ensure_Inr_iff: "ensure c e = Inr u \<longleftrightarrow> c"
  by (simp add: ensure_def)

lemma ensure_Inl_iff: "ensure c e = Inl d \<longleftrightarrow> \<not> c \<and> d = e"
  by (auto simp: ensure_def)

lemmas result_iffs = bind_r_Inr_iff bind_r_Inl_iff ok_or_Inr_iff ok_or_Inl_iff ensure_Inr_iff ensure_Inl_iff

section \<open>Results of code that may also panic\<close>

definition bind_o :: "('e + 'a) option \<Rightarrow> ('a \<Rightarrow> ('e + 'b) option) \<Rightarrow> ('e + 'b) option" where
  "bind_o r f = (case r of None \<Rightarrow> None | Some (Inl e) \<Rightarrow> Some (Inl e) | Some (Inr a) \<Rightarrow> f a)"

text \<open>\<open>iter().map(f).collect::<Result<Vec<_>, _>>()\<close>.\<close>

fun collect_o :: "('a \<Rightarrow> ('e + 'b) option) \<Rightarrow> 'a list \<Rightarrow> ('e + 'b list) option" where
  "collect_o f [] = Some (Inr [])"
| "collect_o f (x # xs) = bind_o (f x) (\<lambda>y. bind_o (collect_o f xs) (\<lambda>ys. Some (Inr (y # ys))))"

lemma bind_o_simps [simp]:
  "bind_o None f = None" "bind_o (Some (Inl e)) f = Some (Inl e)" "bind_o (Some (Inr a)) f = f a"
  by (simp_all add: bind_o_def)

lemma bind_o_cong [fundef_cong]:
  "r = r' \<Longrightarrow> (\<And>a. r' = Some (Inr a) \<Longrightarrow> f a = f' a) \<Longrightarrow> bind_o r f = bind_o r' f'"
  by (auto simp: bind_o_def split: option.splits sum.splits)

lemma bind_o_Inr_iff: "bind_o r f = Some (Inr b) \<longleftrightarrow> (\<exists>a. r = Some (Inr a) \<and> f a = Some (Inr b))"
  by (auto simp: bind_o_def split: option.splits sum.splits)

lemma bind_o_not_None: "bind_o r f \<noteq> None \<longleftrightarrow> r \<noteq> None \<and> (\<forall>a. r = Some (Inr a) \<longrightarrow> f a \<noteq> None)"
  by (auto simp: bind_o_def split: option.splits sum.splits)

lemma collect_o_not_None: "\<forall>x\<in>set xs. f x \<noteq> None \<Longrightarrow> collect_o f xs \<noteq> None"
  by (induction xs) (auto simp: bind_o_def split: option.splits sum.splits)

end
