(* ===== verification/GraphView.thy ===== *)
theory GraphView
  imports Prelude
begin

text \<open>
  The interface \<open>GraphView\<close> of \<open>etas_utils/src/graph/traversal.rs\<close>: what the generic
  algorithms (traversals, topological sort, strongly connected components) see of a graph.
  \<open>graph_view\<close> is the pair of methods of one view. The locale \<open>view_provider\<close> is the
  contract a graph type offers the algorithms: it lists its nodes once each and the
  successors of a listed node are listed.
\<close>

section \<open>Views\<close>

record 'n graph_view =
  gv_nodes :: "'n list"
  gv_successors :: "'n \<Rightarrow> 'n list"

text \<open>The edge relation of a view and the nodes it reaches from a list of roots.\<close>

definition gv_edges :: "'n graph_view \<Rightarrow> ('n \<times> 'n) set" where
  "gv_edges g = {(x, y). y \<in> set (gv_successors g x)}"

definition gv_reach :: "'n graph_view \<Rightarrow> 'n set \<Rightarrow> 'n set" where
  "gv_reach g X = (gv_edges g)\<^sup>* `` X"

definition gv_closed :: "'n graph_view \<Rightarrow> 'n set \<Rightarrow> bool" where
  "gv_closed g X \<longleftrightarrow> (\<forall>x\<in>X. set (gv_successors g x) \<subseteq> X)"

lemma gv_edges_iff [simp]: "(x, y) \<in> gv_edges g \<longleftrightarrow> y \<in> set (gv_successors g x)"
  by (simp add: gv_edges_def)

lemma gv_closed_Image: "gv_closed g X \<longleftrightarrow> gv_edges g `` X \<subseteq> X"
  by (auto simp: gv_closed_def gv_edges_def)

lemma gv_reach_mono: "X \<subseteq> Y \<Longrightarrow> gv_reach g X \<subseteq> gv_reach g Y"
  by (auto simp: gv_reach_def)

lemma gv_reach_Un: "gv_reach g (X \<union> Y) = gv_reach g X \<union> gv_reach g Y"
  by (auto simp: gv_reach_def)

lemma gv_reach_self: "x \<in> X \<Longrightarrow> x \<in> gv_reach g X"
  by (auto simp: gv_reach_def)

lemma gv_reach_step: "x \<in> gv_reach g X \<Longrightarrow> y \<in> set (gv_successors g x) \<Longrightarrow> y \<in> gv_reach g X"
  unfolding gv_reach_def by (rule rtrancl_Image_step) simp_all

lemma gv_reach_succ: "gv_reach g (set (gv_successors g x)) \<subseteq> gv_reach g {x}"
  by (auto simp: gv_reach_def intro: converse_rtrancl_into_rtrancl)

lemma gv_closed_reach: "gv_closed g (gv_reach g X)"
  by (auto simp: gv_closed_def intro: gv_reach_step)

lemma gv_reach_least: "gv_closed g Y \<Longrightarrow> X \<subseteq> Y \<Longrightarrow> gv_reach g X \<subseteq> Y"
  unfolding gv_reach_def gv_closed_Image by (rule rtrancl_Image_closed)

lemma gv_reach_closed_eq: "gv_closed g X \<Longrightarrow> gv_reach g X = X"
  using gv_reach_least [of g X X] gv_reach_self [of _ X g] by blast

text \<open>A bound \<open>R\<close> on what can be reached: a finite closed set of nodes that holds the roots.\<close>

definition gv_bounded :: "'n graph_view \<Rightarrow> 'n set \<Rightarrow> 'n list \<Rightarrow> bool" where
  "gv_bounded g R roots \<longleftrightarrow> finite R \<and> gv_closed g R \<and> set roots \<subseteq> R"

lemma gv_bounded_reach: "gv_bounded g R roots \<Longrightarrow> gv_reach g (set roots) \<subseteq> R"
  by (simp add: gv_bounded_def gv_reach_least)

lemma gv_bounded_card: "gv_bounded g R roots \<Longrightarrow> card (gv_reach g (set roots)) \<le> card R"
  using gv_bounded_reach by (metis card_mono gv_bounded_def)

text \<open>A view used as a concrete input: a diamond 0, 1, 2, 3 with an edge back from 3 to 1.\<close>

definition sample_view :: "nat graph_view" where
  "sample_view = \<lparr>gv_nodes = [0, 1, 2, 3],
     gv_successors = (\<lambda>n. if n = 0 then [1, 2] else if n = 1 then [3]
                          else if n = 2 then [3] else if n = 3 then [1] else [])\<rparr>"

lemma sample_view_bounded: "gv_bounded sample_view {0, 1, 2, 3} [0]"
  by (auto simp: gv_bounded_def gv_closed_def sample_view_def)

lemma sample_view_nodes_bounded: "gv_bounded sample_view {0, 1, 2, 3} (gv_nodes sample_view)"
  by (auto simp: gv_bounded_def gv_closed_def sample_view_def)

section \<open>The contract of a graph type\<close>

locale view_provider =
  fixes wf :: "'g \<Rightarrow> bool"
    and nodes :: "'g \<Rightarrow> 'n list"
    and successors :: "'g \<Rightarrow> 'n \<Rightarrow> 'n list"
  assumes distinct_nodes: "wf g \<Longrightarrow> distinct (nodes g)"
    and successors_listed: "wf g \<Longrightarrow> x \<in> set (nodes g) \<Longrightarrow> set (successors g x) \<subseteq> set (nodes g)"
begin

definition view :: "'g \<Rightarrow> 'n graph_view" where
  "view g = \<lparr>gv_nodes = nodes g, gv_successors = successors g\<rparr>"

lemma view_sel [simp]: "gv_nodes (view g) = nodes g" "gv_successors (view g) = successors g"
  by (simp_all add: view_def)

lemma view_closed: "wf g \<Longrightarrow> gv_closed (view g) (set (nodes g))"
  using successors_listed by (auto simp: gv_closed_def)

lemma view_reach: "wf g \<Longrightarrow> gv_reach (view g) (set (nodes g)) = set (nodes g)"
  by (rule gv_reach_closed_eq [OF view_closed])

lemma view_reach_finite: "wf g \<Longrightarrow> X \<subseteq> set (nodes g) \<Longrightarrow> finite (gv_reach (view g) X)"
  by (rule finite_subset [OF gv_reach_least [OF view_closed]]) simp_all

end

end
