(* ===== verification/Traversal.thy ===== *)
theory Traversal
  imports GraphView
begin

text \<open>
  \<open>etas_utils/src/graph/traversal.rs\<close>: depth-first order, breadth-first order and reverse
  postorder over a graph view. \<open>visited\<close> is the hash set, \<open>order\<close> the vector that grows
  at its end. The recursive visits carry a bound on the depth of the call stack and the
  breadth-first loop one on its iterations; \<open>None\<close> is reached only when the bound is too
  small, which the theorems exclude for every bound above the number of reachable nodes.
\<close>

section \<open>The algorithms\<close>

fun dfs_visit :: "nat \<Rightarrow> 'n graph_view \<Rightarrow> 'n \<Rightarrow> 'n set \<times> 'n list \<Rightarrow> ('n set \<times> 'n list) option" where
  "dfs_visit 0 g node st = None"
| "dfs_visit (Suc depth) g node (visited, order) =
     (if node \<in> visited then Some (visited, order)
      else for_each (dfs_visit depth g) (gv_successors g node)
             (insert node visited, order @ [node]))"

definition dfs :: "nat \<Rightarrow> 'n graph_view \<Rightarrow> 'n list \<Rightarrow> 'n list option" where
  "dfs depth g roots = map_option snd (for_each (dfs_visit depth g) roots ({}, []))"

fun rpo_visit :: "nat \<Rightarrow> 'n graph_view \<Rightarrow> 'n \<Rightarrow> 'n set \<times> 'n list \<Rightarrow> ('n set \<times> 'n list) option" where
  "rpo_visit 0 g node st = None"
| "rpo_visit (Suc depth) g node (visited, postorder) =
     (if node \<in> visited then Some (visited, postorder)
      else case for_each (rpo_visit depth g) (gv_successors g node) (insert node visited, postorder) of
             None \<Rightarrow> None
           | Some (visited', postorder') \<Rightarrow> Some (visited', postorder' @ [node]))"

definition reverse_postorder :: "nat \<Rightarrow> 'n graph_view \<Rightarrow> 'n list \<Rightarrow> 'n list option" where
  "reverse_postorder depth g roots =
     map_option (\<lambda>(visited, postorder). rev postorder) (for_each (rpo_visit depth g) roots ({}, []))"

text \<open>The two loops of \<open>bfs\<close> that insert into the visited set and push onto the queue.\<close>

fun bfs_enqueue :: "'n list \<Rightarrow> 'n set \<times> 'n list \<Rightarrow> 'n set \<times> 'n list" where
  "bfs_enqueue [] (visited, queue) = (visited, queue)"
| "bfs_enqueue (x # xs) (visited, queue) =
     (if x \<in> visited then bfs_enqueue xs (visited, queue)
      else bfs_enqueue xs (insert x visited, queue @ [x]))"

fun bfs_loop :: "nat \<Rightarrow> 'n graph_view \<Rightarrow> 'n set \<Rightarrow> 'n list \<Rightarrow> 'n list \<Rightarrow> 'n list option" where
  "bfs_loop fuel g visited [] order = Some order"
| "bfs_loop 0 g visited (node # queue) order = None"
| "bfs_loop (Suc fuel) g visited (node # queue) order =
     (case bfs_enqueue (gv_successors g node) (visited, queue) of
        (visited', queue') \<Rightarrow> bfs_loop fuel g visited' queue' (order @ [node]))"

definition bfs :: "nat \<Rightarrow> 'n graph_view \<Rightarrow> 'n list \<Rightarrow> 'n list option" where
  "bfs fuel g roots =
     (case bfs_enqueue roots ({}, []) of (visited, queue) \<Rightarrow> bfs_loop fuel g visited queue [])"

section \<open>Depth-first visits\<close>

text \<open>
  What a visit of the nodes \<open>X\<close> adds to the visited set \<open>V\<close>: the nodes \<open>new\<close>, each once
  and in this order, all reachable from \<open>X\<close>, with \<open>X\<close> and every successor of a new node
  visited at the end.
\<close>

definition visit_adds :: "'n graph_view \<Rightarrow> 'n set \<Rightarrow> 'n set \<Rightarrow> 'n list \<Rightarrow> bool" where
  "visit_adds g X V new \<longleftrightarrow>
     distinct new \<and> set new \<inter> V = {} \<and> set new \<subseteq> gv_reach g X \<and> X \<subseteq> V \<union> set new \<and>
     (\<forall>x\<in>set new. set (gv_successors g x) \<subseteq> V \<union> set new)"

lemma visit_adds_Nil: "X \<subseteq> V \<Longrightarrow> visit_adds g X V []"
  by (simp add: visit_adds_def)

lemma visit_adds_seq:
  assumes "visit_adds g X V new" "visit_adds g Y (V \<union> set new) new'"
  shows "visit_adds g (X \<union> Y) V (new @ new')"
  using assms unfolding visit_adds_def gv_reach_Un set_append distinct_append by blast

lemma visit_adds_node:
  assumes "visit_adds g (set (gv_successors g x)) (insert x V) new" "x \<notin> V"
    and "distinct ys" "set ys = insert x (set new)"
  shows "visit_adds g {x} V ys"
  using assms gv_reach_succ [of g x] gv_reach_self [of x "{x}" g]
  by (simp add: visit_adds_def) blast

lemma visit_adds_all:
  assumes "visit_adds g X {} new"
  shows "set new = gv_reach g X"
proof
  show "set new \<subseteq> gv_reach g X" using assms by (simp add: visit_adds_def)
  show "gv_reach g X \<subseteq> set new"
    using assms by (intro gv_reach_least) (auto simp: visit_adds_def gv_closed_def)
qed

text \<open>A loop of visits, for any visit function that adds what it should.\<close>

lemma for_each_visit_adds:
  assumes f: "\<And>x V acc. x \<in> R \<Longrightarrow> card (R - V) < depth \<Longrightarrow>
      \<exists>new. f x (V, acc) = Some (V \<union> set new, acc @ new) \<and> visit_adds g {x} V new"
    and R: "finite R" "set xs \<subseteq> R" "card (R - V) < depth"
  shows "\<exists>new. for_each f xs (V, acc) = Some (V \<union> set new, acc @ new) \<and> visit_adds g (set xs) V new"
proof -
  define I where "I = (\<lambda>ys (V', acc'). \<exists>new. V' = V \<union> set new \<and> acc' = acc @ new \<and>
    visit_adds g (set ys) V new)"
  have "\<exists>s'. for_each f xs (V, acc) = Some s' \<and> I xs s'"
  proof (rule for_each_rule)
    show "I [] (V, acc)" by (auto simp: I_def visit_adds_Nil)
  next
    fix ys x zs and s :: "'a set \<times> 'a list"
    assume xs: "xs = ys @ x # zs" and "I ys s"
    then obtain new where s: "s = (V \<union> set new, acc @ new)" and new: "visit_adds g (set ys) V new"
      by (auto simp: I_def)
    have "card (R - (V \<union> set new)) \<le> card (R - V)"
      using R(1) by (intro card_mono) auto
    with f [of x "V \<union> set new" "acc @ new"] R xs obtain new'
      where "f x s = Some (V \<union> set new \<union> set new', (acc @ new) @ new')"
        and "visit_adds g {x} (V \<union> set new) new'"
      using s by auto
    with visit_adds_seq [OF new this(2)] show "\<exists>s'. f x s = Some s' \<and> I (ys @ [x]) s'"
      by (auto simp: I_def intro!: exI [of _ "new @ new'"])
  qed
  then show ?thesis by (auto simp: I_def)
qed

lemma card_visit_less: "finite R \<Longrightarrow> x \<in> R \<Longrightarrow> x \<notin> V \<Longrightarrow> card (R - V) < Suc n \<Longrightarrow> card (R - insert x V) < n"
  by (metis Diff_iff Diff_insert card_Diff1_less finite_Diff less_Suc_eq_le order_less_le_trans)

lemma dfs_visit_adds:
  assumes R: "finite R" "gv_closed g R"
  shows "node \<in> R \<Longrightarrow> card (R - V) < depth \<Longrightarrow>
    \<exists>new. dfs_visit depth g node (V, order) = Some (V \<union> set new, order @ new) \<and> visit_adds g {node} V new"
proof (induction depth arbitrary: node V order)
  case 0
  then show ?case by simp
next
  case (Suc depth)
  show ?case
  proof (cases "node \<in> V")
    case True
    then show ?thesis by (auto intro!: exI [of _ "[]"] visit_adds_Nil)
  next
    case False
    have succ: "set (gv_successors g node) \<subseteq> R" using R(2) Suc.prems(1) by (simp add: gv_closed_def)
    obtain new where
      "for_each (dfs_visit depth g) (gv_successors g node) (insert node V, order @ [node])
         = Some (insert node V \<union> set new, (order @ [node]) @ new)"
      and "visit_adds g (set (gv_successors g node)) (insert node V) new"
      using for_each_visit_adds [OF Suc.IH R(1) succ card_visit_less [OF R(1) Suc.prems(1) False Suc.prems(2)]]
      by blast
    then show ?thesis
      using False visit_adds_node [of g node V new "node # new"]
      by (auto simp: visit_adds_def intro!: exI [of _ "node # new"])
  qed
qed

lemma rpo_visit_adds:
  assumes R: "finite R" "gv_closed g R"
  shows "node \<in> R \<Longrightarrow> card (R - V) < depth \<Longrightarrow>
    \<exists>new. rpo_visit depth g node (V, acc) = Some (V \<union> set new, acc @ new) \<and> visit_adds g {node} V new"
proof (induction depth arbitrary: node V acc)
  case 0
  then show ?case by simp
next
  case (Suc depth)
  show ?case
  proof (cases "node \<in> V")
    case True
    then show ?thesis by (auto intro!: exI [of _ "[]"] visit_adds_Nil)
  next
    case False
    have succ: "set (gv_successors g node) \<subseteq> R" using R(2) Suc.prems(1) by (simp add: gv_closed_def)
    obtain new where
      "for_each (rpo_visit depth g) (gv_successors g node) (insert node V, acc)
         = Some (insert node V \<union> set new, acc @ new)"
      and "visit_adds g (set (gv_successors g node)) (insert node V) new"
      using for_each_visit_adds [OF Suc.IH R(1) succ card_visit_less [OF R(1) Suc.prems(1) False Suc.prems(2)]]
      by blast
    then show ?thesis
      using False visit_adds_node [of g node V new "new @ [node]"]
      by (auto simp: visit_adds_def intro!: exI [of _ "new @ [node]"])
  qed
qed

text \<open>How a preorder discovers its nodes: each is a root or a successor of an earlier one.\<close>

fun discovered :: "'n graph_view \<Rightarrow> 'n set \<Rightarrow> 'n list \<Rightarrow> bool" where
  "discovered g X [] = True"
| "discovered g X (x # xs) = (x \<in> X \<and> discovered g (X \<union> set (gv_successors g x)) xs)"

lemma discovered_snoc:
  "discovered g X (xs @ [x]) \<longleftrightarrow>
     discovered g X xs \<and> (x \<in> X \<or> (\<exists>y\<in>set xs. x \<in> set (gv_successors g y)))"
  by (induction xs arbitrary: X) auto

definition found :: "'n graph_view \<Rightarrow> 'n set \<Rightarrow> 'n list \<Rightarrow> 'n \<Rightarrow> bool" where
  "found g X order x \<longleftrightarrow> x \<in> X \<or> (\<exists>y\<in>set order. x \<in> set (gv_successors g y))"

lemma dfs_visit_discovered:
  "dfs_visit depth g node (V, order) = Some (V', order') \<Longrightarrow> found g X order node \<Longrightarrow>
     discovered g X order \<Longrightarrow> discovered g X order' \<and> set order \<subseteq> set order'"
proof (induction depth arbitrary: node V order V' order')
  case 0
  then show ?case by simp
next
  case (Suc depth)
  show ?case
  proof (cases "node \<in> V")
    case True
    with Suc.prems show ?thesis by simp
  next
    case False
    define I where "I = (\<lambda>(V :: 'a set, acc). discovered g X acc \<and> set (order @ [node]) \<subseteq> set acc)"
    have "for_each (dfs_visit depth g) (gv_successors g node) (insert node V, order @ [node])
        = Some (V', order')"
      using Suc.prems(1) False by simp
    then have "I (V', order')"
    proof (rule for_each_invariant)
      show "I (insert node V, order @ [node])"
        using Suc.prems(2,3) by (auto simp: I_def discovered_snoc found_def)
    next
      fix x and s s' :: "'a set \<times> 'a list"
      assume "x \<in> set (gv_successors g node)" "I s" "dfs_visit depth g x s = Some s'"
      then show "I s'"
        using Suc.IH [of x "fst s" "snd s" "fst s'" "snd s'"]
        by (cases s; cases s') (auto simp: I_def found_def)
    qed
    then show ?thesis by (auto simp: I_def)
  qed
qed

text \<open>The gray nodes \<open>G\<close> of a postorder visit are those whose visit has not ended.\<close>

definition post_inv :: "'n graph_view \<Rightarrow> 'n set \<Rightarrow> 'n set \<times> 'n list \<Rightarrow> bool" where
  "post_inv g G = (\<lambda>(V, acc). V = G \<union> set acc \<and> G \<inter> set acc = {} \<and>
     (\<forall>x\<in>set acc. \<forall>y\<in>set (gv_successors g x). before y x acc \<or> (y, x) \<in> (gv_edges g)\<^sup>*))"

lemma rpo_visit_visited:
  "rpo_visit depth g node (V, acc) = Some (V', acc') \<Longrightarrow> insert node V \<subseteq> V'"
proof (induction depth arbitrary: node V acc V' acc')
  case 0
  then show ?case by simp
next
  case (Suc depth)
  show ?case
  proof (cases "node \<in> V")
    case True
    with Suc.prems show ?thesis by auto
  next
    case False
    with Suc.prems obtain acc'' where
      "for_each (rpo_visit depth g) (gv_successors g node) (insert node V, acc) = Some (V', acc'')"
      by (auto split: option.splits)
    then have "insert node V \<subseteq> fst (V', acc'')"
      by (rule for_each_invariant [where I = "\<lambda>s. insert node V \<subseteq> fst s"])
        (use Suc.IH in \<open>force+\<close>)
    then show ?thesis by simp
  qed
qed

lemma rpo_loop_visited:
  assumes "for_each (rpo_visit depth g) xs (V, acc) = Some (V', acc')"
  shows "V \<union> set xs \<subseteq> V'"
  using assms
proof (induction xs arbitrary: V acc)
  case Nil
  then show ?case by simp
next
  case (Cons x xs)
  then obtain V1 acc1 where "rpo_visit depth g x (V, acc) = Some (V1, acc1)"
    "for_each (rpo_visit depth g) xs (V1, acc1) = Some (V', acc')"
    by (auto split: option.splits)
  with Cons.IH rpo_visit_visited show ?case by fastforce
qed

lemma rpo_visit_post:
  assumes "rpo_visit depth g node (V, acc) = Some (V', acc')" "post_inv g G (V, acc)"
    and "\<forall>z\<in>G. (z, node) \<in> (gv_edges g)\<^sup>*"
  shows "post_inv g G (V', acc')"
  using assms
proof (induction depth arbitrary: node V acc V' acc' G)
  case 0
  then show ?case by simp
next
  case (Suc depth)
  show ?case
  proof (cases "node \<in> V")
    case True
    with Suc.prems show ?thesis by simp
  next
    case False
    with Suc.prems(1) obtain mid where
      loop: "for_each (rpo_visit depth g) (gv_successors g node) (insert node V, acc) = Some (V', mid)"
      and acc': "acc' = mid @ [node]"
      by (auto split: option.splits)
    have reach: "\<forall>z\<in>insert node G. (z, node) \<in> (gv_edges g)\<^sup>*" using Suc.prems(3) by simp
    from loop have "post_inv g (insert node G) (V', mid)"
    proof (rule for_each_invariant)
      show "post_inv g (insert node G) (insert node V, acc)"
        using Suc.prems(2) False by (auto simp: post_inv_def)
    next
      fix x and s s' :: "'a set \<times> 'a list"
      assume x: "x \<in> set (gv_successors g node)" and s: "post_inv g (insert node G) s"
        and run: "rpo_visit depth g x s = Some s'"
      have "\<forall>z\<in>insert node G. (z, x) \<in> (gv_edges g)\<^sup>*"
        using reach x by (meson gv_edges_iff rtrancl.rtrancl_into_rtrancl)
      with s run show "post_inv g (insert node G) s'"
        using Suc.IH [of x "fst s" "snd s" "fst s'" "snd s'" "insert node G"] by simp
    qed
    moreover from rpo_loop_visited [OF loop] have "set (gv_successors g node) \<subseteq> V'" by simp
    moreover have "node \<notin> G" using Suc.prems(2) False by (simp add: post_inv_def)
    ultimately show ?thesis
      using reach by (auto simp: post_inv_def acc' before_append)
  qed
qed

section \<open>Breadth-first order\<close>

text \<open>The distance of a node from the roots: the length of a shortest path.\<close>

definition gv_dist :: "'n graph_view \<Rightarrow> 'n set \<Rightarrow> 'n \<Rightarrow> nat" where
  "gv_dist g X y = (LEAST n. y \<in> (gv_edges g ^^ n) `` X)"

lemma gv_dist_path: "y \<in> gv_reach g X \<Longrightarrow> y \<in> (gv_edges g ^^ gv_dist g X y) `` X"
  unfolding gv_dist_def by (rule LeastI_ex) (auto simp: gv_reach_def rtrancl_power Image_iff)

lemma gv_dist_le: "y \<in> (gv_edges g ^^ n) `` X \<Longrightarrow> gv_dist g X y \<le> n"
  unfolding gv_dist_def by (rule Least_le)

lemma gv_dist_root [simp]: "x \<in> X \<Longrightarrow> gv_dist g X x = 0"
  using gv_dist_le [where y = x and n = 0] by auto

lemma gv_dist_succ:
  "x \<in> gv_reach g X \<Longrightarrow> y \<in> set (gv_successors g x) \<Longrightarrow> gv_dist g X y \<le> Suc (gv_dist g X x)"
  using gv_dist_path [of x g X] by (intro gv_dist_le) (auto simp: relcomp_Image)

lemma gv_dist_zero: "y \<in> gv_reach g X \<Longrightarrow> gv_dist g X y = 0 \<Longrightarrow> y \<in> X"
  using gv_dist_path [of y g X] by auto

lemma gv_dist_pred:
  assumes "y \<in> gv_reach g X" "gv_dist g X y = Suc n"
  shows "\<exists>x\<in>gv_reach g X. gv_dist g X x \<le> n \<and> y \<in> set (gv_successors g x)"
proof -
  from gv_dist_path [OF assms(1)] assms(2) obtain r x
    where "r \<in> X" "(r, x) \<in> gv_edges g ^^ n" "(x, y) \<in> gv_edges g"
    by auto
  then show ?thesis
    by (intro bexI [of _ x]) (auto intro!: gv_dist_le simp: gv_reach_def dest: relpow_imp_rtrancl)
qed

lemma bfs_enqueue_adds:
  "\<exists>new. bfs_enqueue xs (V, queue) = (V \<union> set xs, queue @ new) \<and> distinct new \<and> set new = set xs - V"
proof (induction xs arbitrary: V queue)
  case Nil
  then show ?case by simp
next
  case (Cons x xs)
  show ?case
  proof (cases "x \<in> V")
    case True
    with Cons [of V queue] show ?thesis by (auto simp: insert_absorb)
  next
    case False
    from Cons [of "insert x V" "queue @ [x]"] obtain new where
      "bfs_enqueue xs (insert x V, queue @ [x]) = (insert x V \<union> set xs, (queue @ [x]) @ new)"
      "distinct new" "set new = set xs - insert x V" by blast
    with False show ?thesis by (auto intro!: exI [of _ "x # new"])
  qed
qed

text \<open>
  The state of the breadth-first loop: listed and queued nodes are the visited ones, once
  each, by non-decreasing distance, with the queue at most one level deep, and the
  successors of listed nodes have been visited.
\<close>

definition bfs_inv :: "'n graph_view \<Rightarrow> 'n set \<Rightarrow> 'n set \<Rightarrow> 'n list \<Rightarrow> 'n list \<Rightarrow> bool" where
  "bfs_inv g X V queue order \<longleftrightarrow>
     V = set order \<union> set queue \<and> distinct (order @ queue) \<and> X \<subseteq> V \<and> V \<subseteq> gv_reach g X \<and>
     (\<forall>x\<in>set order. set (gv_successors g x) \<subseteq> V) \<and>
     sorted (map (gv_dist g X) (order @ queue)) \<and>
     (\<forall>q\<in>set queue. gv_dist g X q \<le> Suc (gv_dist g X (hd queue)))"

lemma bfs_inv_level:
  assumes "bfs_inv g X V (node # queue) order"
  shows "y \<in> gv_reach g X \<Longrightarrow> gv_dist g X y \<le> gv_dist g X node \<Longrightarrow> y \<in> V"
proof (induction "gv_dist g X y" arbitrary: y)
  case 0
  with assms gv_dist_zero [of y g X] show ?case by (auto simp: bfs_inv_def)
next
  case (Suc n)
  from gv_dist_pred [OF Suc.prems(1) Suc.hyps(2) [symmetric]] obtain x where
    x: "x \<in> gv_reach g X" "gv_dist g X x \<le> n" "y \<in> set (gv_successors g x)" by blast
  with gv_dist_succ [OF x(1,3)] Suc.hyps(2) have n: "gv_dist g X x = n" by simp
  with Suc.hyps(1) [of x] x(1) Suc.hyps(2) Suc.prems(2) have "x \<in> V" by simp
  moreover have "x \<notin> set (node # queue)"
    using assms n Suc.hyps(2) Suc.prems(2) by (auto simp: bfs_inv_def sorted_append)
  ultimately have "x \<in> set order" using assms by (auto simp: bfs_inv_def)
  with assms x(3) show ?case by (auto simp: bfs_inv_def)
qed

lemma bfs_inv_step:
  assumes inv: "bfs_inv g X V (node # queue) order"
    and step: "bfs_enqueue (gv_successors g node) (V, queue) = (V', queue')"
  shows "bfs_inv g X V' queue' (order @ [node])"
proof -
  obtain new where new: "V' = V \<union> set (gv_successors g node)" "queue' = queue @ new"
      "distinct new" "set new = set (gv_successors g node) - V"
    using bfs_enqueue_adds [of "gv_successors g node" V queue] step by auto
  have node: "node \<in> gv_reach g X" using inv by (auto simp: bfs_inv_def)
  have succ: "set (gv_successors g node) \<subseteq> gv_reach g X"
    using gv_reach_step [OF node] by blast
  have level: "gv_dist g X w = Suc (gv_dist g X node)" if "w \<in> set new" for w
  proof (rule antisym)
    show "gv_dist g X w \<le> Suc (gv_dist g X node)"
      using that new(4) gv_dist_succ [OF node] by auto
    show "Suc (gv_dist g X node) \<le> gv_dist g X w"
      using that new(4) succ bfs_inv_level [OF inv, of w] by (metis DiffD1 DiffD2 not_less_eq_eq subsetD)
  qed
  have bound: "gv_dist g X q \<le> Suc (gv_dist g X node)" "gv_dist g X node \<le> gv_dist g X q"
    if "q \<in> set (queue @ new)" for q
    using that inv level by (auto simp: bfs_inv_def sorted_append)
  have "sorted (map (gv_dist g X) ((order @ [node]) @ queue'))"
    using inv level bound by (auto simp: bfs_inv_def new(2) sorted_append) (metis map_replicate_const sorted_replicate map_eq_conv)
  moreover have "gv_dist g X q \<le> Suc (gv_dist g X (hd queue'))" if "q \<in> set queue'" for q
  proof -
    from that have "hd queue' \<in> set (queue @ new)" by (metis empty_iff empty_set hd_in_set new(2))
    with bound(1) [of q] bound(2) [of "hd queue'"] that new(2) show ?thesis by simp
  qed
  ultimately show ?thesis
    using inv new succ by (auto simp: bfs_inv_def)
qed

lemma bfs_inv_card:
  assumes "bfs_inv g X V (node # queue) order" "finite R" "gv_reach g X \<subseteq> R"
    and "card (R - set order) \<le> Suc fuel"
  shows "card (R - set (order @ [node])) \<le> fuel"
proof -
  have "node \<in> R - set order" using assms(1,3) by (auto simp: bfs_inv_def)
  moreover have "R - set (order @ [node]) = R - set order - {node}" by auto
  ultimately show ?thesis using assms(2,4) by (simp add: card_Diff_singleton)
qed

lemma bfs_loop_order:
  assumes "bfs_inv g X V queue order" "finite R" "gv_reach g X \<subseteq> R" "card (R - set order) \<le> fuel"
  shows "\<exists>res. bfs_loop fuel g V queue order = Some res \<and> bfs_inv g X (set res) [] res"
  using assms
proof (induction fuel g V queue order rule: bfs_loop.induct)
  case (1 fuel g V order)
  then show ?case by (auto simp: bfs_inv_def)
next
  case (2 g V node queue order)
  then have "node \<in> R - set order" by (auto simp: bfs_inv_def)
  with 2 show ?case by auto
next
  case (3 fuel g V node queue order)
  obtain V' queue' where step: "bfs_enqueue (gv_successors g node) (V, queue) = (V', queue')"
    by fastforce
  from "3.IH" [OF step [symmetric] bfs_inv_step [OF "3.prems"(1) step] "3.prems"(2,3)
      bfs_inv_card [OF "3.prems"]]
  show ?case by (simp add: step)
qed

lemma bfs_inv_start:
  assumes "bfs_enqueue roots ({}, []) = (V, queue)"
  shows "bfs_inv g (set roots) V queue []"
proof -
  from bfs_enqueue_adds [of roots "{}" "[]"] assms
  have q: "V = set roots" "distinct queue" "set queue = set roots" by auto
  then have "map (gv_dist g (set roots)) queue = map (\<lambda>_. 0) queue" by simp
  then have "sorted (map (gv_dist g (set roots)) queue)" by (simp add: map_replicate_const)
  with q show ?thesis by (auto simp: bfs_inv_def gv_reach_self)
qed

lemma bfs_inv_end: "bfs_inv g X (set res) [] res \<Longrightarrow> set res = gv_reach g X"
  using gv_reach_least [of g "set res" X] by (auto simp: bfs_inv_def gv_closed_def)

section \<open>Properties\<close>

text \<open>
  C26: depth-first search terminates on every view with finitely many reachable nodes and
  lists exactly the nodes reachable from the roots, each once, every node being a root or
  a successor of a node listed earlier.
\<close>

theorem dfs_correct:
  assumes "gv_bounded g R roots" "card R < depth"
  shows "\<exists>order. dfs depth g roots = Some order \<and> distinct order \<and>
    set order = gv_reach g (set roots) \<and> discovered g (set roots) order"
proof -
  have R: "finite R" "gv_closed g R" "set roots \<subseteq> R" using assms(1) by (simp_all add: gv_bounded_def)
  have "\<exists>new. for_each (dfs_visit depth g) roots ({}, []) = Some ({} \<union> set new, [] @ new) \<and>
      visit_adds g (set roots) {} new"
    by (rule for_each_visit_adds [OF dfs_visit_adds [OF R(1,2)] R(1,3)]) (use assms(2) in simp_all)
  then obtain new where run: "for_each (dfs_visit depth g) roots ({}, []) = Some ({} \<union> set new, [] @ new)"
    and adds: "visit_adds g (set roots) {} new" by blast
  have "discovered g (set roots) (snd ({} \<union> set new, [] @ new))"
    by (rule for_each_invariant [OF run, where I = "\<lambda>s. discovered g (set roots) (snd s)"])
      (auto simp: found_def dest: dfs_visit_discovered)
  with run adds visit_adds_all [OF adds] show ?thesis
    by (simp add: dfs_def visit_adds_def)
qed

theorem dfs_correct_witness:
  "dfs 5 sample_view [0] = Some [0, 1, 3, 2] \<and>
   set [0, 1, 3, 2] = gv_reach sample_view {0} \<and> discovered sample_view {0} [0, 1, 3, 2]"
proof -
  have run: "dfs 5 sample_view [0] = Some [0, 1, 3, 2]" by code_simp
  with dfs_correct [OF sample_view_bounded, of 5] show ?thesis by simp
qed

text \<open>
  C27: breadth-first search terminates on every view with finitely many reachable nodes and
  lists exactly the reachable nodes, each once, by non-decreasing distance from the roots.
\<close>

theorem bfs_correct:
  assumes "gv_bounded g R roots" "card R \<le> fuel"
  shows "\<exists>order. bfs fuel g roots = Some order \<and> distinct order \<and>
    set order = gv_reach g (set roots) \<and> sorted (map (gv_dist g (set roots)) order)"
proof -
  obtain V queue where start: "bfs_enqueue roots ({}, []) = (V, queue)" by fastforce
  from bfs_loop_order [OF bfs_inv_start [OF start] _ gv_bounded_reach [OF assms(1)]] assms
  obtain res where "bfs_loop fuel g V queue [] = Some res" "bfs_inv g (set roots) (set res) [] res"
    by (auto simp: gv_bounded_def)
  with bfs_inv_end [OF this(2)] show ?thesis by (auto simp: bfs_def start bfs_inv_def)
qed

theorem bfs_correct_witness:
  "bfs 4 sample_view [0] = Some [0, 1, 2, 3] \<and> set [0, 1, 2, 3] = gv_reach sample_view {0} \<and>
   sorted (map (gv_dist sample_view {0}) [0, 1, 2, 3])"
proof -
  have run: "bfs 4 sample_view [0] = Some [0, 1, 2, 3]" by code_simp
  with bfs_correct [OF sample_view_bounded, of 4] show ?thesis by simp
qed

text \<open>
  C28: reverse postorder lists exactly the reachable nodes, each once, and every edge goes
  forward in it, unless the edge closes a cycle (its target reaches its source). On an
  acyclic graph it is therefore a topological order.
\<close>

theorem reverse_postorder_correct:
  assumes "gv_bounded g R roots" "card R < depth"
  shows "\<exists>order. reverse_postorder depth g roots = Some order \<and> distinct order \<and>
    set order = gv_reach g (set roots) \<and>
    (\<forall>x\<in>set order. \<forall>y\<in>set (gv_successors g x). before x y order \<or> (y, x) \<in> (gv_edges g)\<^sup>*)"
proof -
  have R: "finite R" "gv_closed g R" "set roots \<subseteq> R" using assms(1) by (simp_all add: gv_bounded_def)
  have "\<exists>new. for_each (rpo_visit depth g) roots ({}, []) = Some ({} \<union> set new, [] @ new) \<and>
      visit_adds g (set roots) {} new"
    by (rule for_each_visit_adds [OF rpo_visit_adds [OF R(1,2)] R(1,3)]) (use assms(2) in simp_all)
  then obtain new where run: "for_each (rpo_visit depth g) roots ({}, []) = Some ({} \<union> set new, [] @ new)"
    and adds: "visit_adds g (set roots) {} new" by blast
  have "post_inv g {} ({} \<union> set new, [] @ new)"
  proof (rule for_each_invariant [OF run])
    show "post_inv g {} ({}, [])" by (simp add: post_inv_def)
  next
    fix x and s s' :: "'a set \<times> 'a list"
    assume "post_inv g {} s" "rpo_visit depth g x s = Some s'"
    then show "post_inv g {} s'"
      using rpo_visit_post [of depth g x "fst s" "snd s" "fst s'" "snd s'" "{}"] by simp
  qed
  with run adds visit_adds_all [OF adds] show ?thesis
    by (simp add: reverse_postorder_def visit_adds_def post_inv_def before_rev)
qed

theorem reverse_postorder_correct_witness:
  "reverse_postorder 5 sample_view [0] = Some [0, 2, 1, 3] \<and> set [0, 2, 1, 3] = gv_reach sample_view {0}"
proof -
  have run: "reverse_postorder 5 sample_view [0] = Some [0, 2, 1, 3]" by code_simp
  with reverse_postorder_correct [OF sample_view_bounded, of 5] show ?thesis by simp
qed

end
