(* ===== verification/Topo.thy ===== *)
theory Topo
  imports GraphView
begin

text \<open>
  \<open>etas_utils/src/graph/topo.rs\<close>: topological sort by depth-first search with white, gray
  and black nodes, and the extraction of a cycle from the stack of gray nodes. The state of
  the search is the three mutable borrows \<open>visit\<close> takes. A call returns \<open>Inl\<close> of the cycle
  or \<open>Inr\<close> of the new state; \<open>None\<close> stands for a call stack deeper than the given bound.
\<close>

section \<open>The algorithm\<close>

datatype 'n cycle = Cycle (cycle_list: "'n list")

datatype color = White | Gray | Black

record 'n topo_state =
  ts_colors :: "'n \<Rightarrow> color option"
  ts_stack :: "'n list"
  ts_order :: "'n list"

definition color_of :: "'n topo_state \<Rightarrow> 'n \<Rightarrow> color" where
  "color_of st n = (case ts_colors st n of None \<Rightarrow> White | Some c \<Rightarrow> c)"

fun dedupe_loop :: "'n list \<Rightarrow> 'n set \<Rightarrow> 'n list \<Rightarrow> 'n list" where
  "dedupe_loop [] seen deduped = deduped"
| "dedupe_loop (node # nodes) seen deduped =
     (if node \<in> seen then dedupe_loop nodes seen deduped
      else dedupe_loop nodes (insert node seen) (deduped @ [node]))"

definition dedupe_consecutive :: "'n list \<Rightarrow> 'n list" where
  "dedupe_consecutive nodes = dedupe_loop nodes {} []"

fun extract_loop :: "'n \<Rightarrow> 'n list \<Rightarrow> bool \<Rightarrow> 'n list \<Rightarrow> 'n list" where
  "extract_loop repeated [] seen cyc = cyc"
| "extract_loop repeated (node # nodes) seen cyc =
     (let seen' = (if node = repeated then True else seen)
      in if seen' then extract_loop repeated nodes seen' (cyc @ [node])
         else extract_loop repeated nodes seen' cyc)"

definition extract_cycle :: "'n list \<Rightarrow> 'n \<Rightarrow> 'n list" where
  "extract_cycle stack repeated =
     dedupe_consecutive (extract_loop repeated stack False [] @ [repeated])"

fun topo_visit :: "nat \<Rightarrow> 'n graph_view \<Rightarrow> 'n \<Rightarrow> 'n topo_state \<Rightarrow> ('n cycle + 'n topo_state) option" where
  "topo_visit 0 g node st = None"
| "topo_visit (Suc depth) g node st =
     (case try_each
             (\<lambda>successor st.
                case color_of st successor of
                  White \<Rightarrow> topo_visit depth g successor st
                | Gray \<Rightarrow> Some (Inl (Cycle (extract_cycle (ts_stack st) successor)))
                | Black \<Rightarrow> Some (Inr st))
             (gv_successors g node)
             (st\<lparr>ts_colors := (ts_colors st)(node \<mapsto> Gray), ts_stack := ts_stack st @ [node]\<rparr>) of
        None \<Rightarrow> None
      | Some (Inl cyc) \<Rightarrow> Some (Inl cyc)
      | Some (Inr st') \<Rightarrow>
          Some (Inr (st'\<lparr>ts_stack := butlast (ts_stack st'),
                         ts_colors := (ts_colors st')(node \<mapsto> Black),
                         ts_order := ts_order st' @ [node]\<rparr>)))"

definition topological_sort :: "nat \<Rightarrow> 'n graph_view \<Rightarrow> ('n cycle + 'n list) option" where
  "topological_sort depth g =
     (case try_each
             (\<lambda>node st. if color_of st node = White then topo_visit depth g node st else Some (Inr st))
             (gv_nodes g)
             \<lparr>ts_colors = Map.empty, ts_stack = [], ts_order = []\<rparr> of
        None \<Rightarrow> None
      | Some (Inl cyc) \<Rightarrow> Some (Inl cyc)
      | Some (Inr st) \<Rightarrow> Some (Inr (rev (ts_order st))))"

definition cycle_nodes :: "nat \<Rightarrow> 'n graph_view \<Rightarrow> 'n list option option" where
  "cycle_nodes depth g =
     map_option (\<lambda>r. case r of Inl cyc \<Rightarrow> Some (cycle_list cyc) | Inr order \<Rightarrow> None)
       (topological_sort depth g)"

section \<open>Cycles\<close>

fun gv_path :: "'n graph_view \<Rightarrow> 'n list \<Rightarrow> bool" where
  "gv_path g [] = True"
| "gv_path g [x] = True"
| "gv_path g (x # y # xs) = (y \<in> set (gv_successors g x) \<and> gv_path g (y # xs))"

definition gv_cycle :: "'n graph_view \<Rightarrow> 'n list \<Rightarrow> bool" where
  "gv_cycle g ns \<longleftrightarrow> ns \<noteq> [] \<and> distinct ns \<and> gv_path g ns \<and> hd ns \<in> set (gv_successors g (last ns))"

lemma gv_path_snoc: "gv_path g (xs @ [x]) \<longleftrightarrow> gv_path g xs \<and> (xs = [] \<or> x \<in> set (gv_successors g (last xs)))"
  by (induction g xs rule: gv_path.induct) auto

lemma gv_path_rtrancl: "gv_path g (x # xs) \<Longrightarrow> (x, last (x # xs)) \<in> (gv_edges g)\<^sup>*"
proof (induction xs arbitrary: x)
  case Nil
  then show ?case by simp
next
  case (Cons y ys)
  then have "(x, y) \<in> gv_edges g" "(y, last (y # ys)) \<in> (gv_edges g)\<^sup>*" by auto
  then show ?case by (simp add: converse_rtrancl_into_rtrancl)
qed

lemma gv_cycle_trancl: "gv_cycle g ns \<Longrightarrow> (hd ns, hd ns) \<in> (gv_edges g)\<^sup>+"
proof -
  assume c: "gv_cycle g ns"
  then obtain x xs where ns: "ns = x # xs" by (cases ns) (auto simp: gv_cycle_def)
  with c have "(x, last ns) \<in> (gv_edges g)\<^sup>*" "(last ns, x) \<in> gv_edges g"
    using gv_path_rtrancl [of g x xs] by (auto simp: gv_cycle_def)
  with ns show ?thesis by (simp add: rtrancl_into_trancl1)
qed

lemma dedupe_loop_distinct:
  "distinct (deduped @ nodes) \<Longrightarrow>
     dedupe_loop (nodes @ rest) (set deduped) deduped
       = dedupe_loop rest (set deduped \<union> set nodes) (deduped @ nodes)"
proof (induction nodes arbitrary: deduped)
  case Nil
  then show ?case by simp
next
  case (Cons a nodes)
  from Cons.IH [of "deduped @ [a]"] Cons.prems show ?case by simp
qed

lemma extract_loop_seen: "extract_loop r nodes True cyc = cyc @ nodes"
  by (induction nodes arbitrary: cyc) (auto simp: Let_def)

lemma extract_loop_drop: "extract_loop r nodes False cyc = cyc @ dropWhile (\<lambda>n. n \<noteq> r) nodes"
  by (induction nodes arbitrary: cyc) (auto simp: Let_def extract_loop_seen)

lemma extract_cycle_eq:
  assumes "distinct (us @ r # vs)"
  shows "extract_cycle (us @ r # vs) r = r # vs"
proof -
  have "dropWhile (\<lambda>n. n \<noteq> r) (us @ r # vs) = r # vs" using assms by (subst dropWhile_append2) auto
  then show ?thesis
    using dedupe_loop_distinct [of "[]" "r # vs" "[r]"] assms
    by (simp add: extract_cycle_def extract_loop_drop dedupe_consecutive_def)
qed

lemma gv_path_append: "gv_path g (xs @ ys) \<Longrightarrow> gv_path g ys"
  by (induction g xs rule: gv_path.induct) (auto elim: gv_path.elims)

lemma extract_cycle_gv_cycle:
  assumes "distinct stack" "gv_path g stack" "r \<in> set stack" "r \<in> set (gv_successors g (last stack))"
  shows "gv_cycle g (extract_cycle stack r) \<and> set (extract_cycle stack r) \<subseteq> set stack"
proof -
  from assms(3) obtain us vs where stack: "stack = us @ r # vs" by (meson split_list)
  with assms extract_cycle_eq [of us r vs] gv_path_append [of g us "r # vs"] show ?thesis
    by (auto simp: gv_cycle_def)
qed

section \<open>The search\<close>

text \<open>
  Between two steps of the search: gray nodes are those on the stack, black ones those in
  the order, the stack is a path, and the successors of a finished node were finished
  before it. All of them lie in the region \<open>R\<close>.
\<close>

definition topo_inv :: "'n graph_view \<Rightarrow> 'n set \<Rightarrow> 'n topo_state \<Rightarrow> bool" where
  "topo_inv g R st \<longleftrightarrow>
     distinct (ts_stack st @ ts_order st) \<and> set (ts_stack st @ ts_order st) \<subseteq> R \<and>
     (\<forall>n. ts_colors st n =
        (if n \<in> set (ts_stack st) then Some Gray else if n \<in> set (ts_order st) then Some Black else None)) \<and>
     gv_path g (ts_stack st) \<and>
     (\<forall>x\<in>set (ts_order st). \<forall>y\<in>set (gv_successors g x). before y x (ts_order st))"

definition topo_found :: "'n graph_view \<Rightarrow> 'n set \<Rightarrow> 'n cycle \<Rightarrow> bool" where
  "topo_found g R c \<longleftrightarrow> gv_cycle g (cycle_list c) \<and> set (cycle_list c) \<subseteq> R"

text \<open>What a visit of \<open>X\<close> from \<open>st\<close> leaves: the same stack, a longer order that holds \<open>X\<close>.\<close>

definition topo_done :: "'n graph_view \<Rightarrow> 'n set \<Rightarrow> 'n topo_state \<Rightarrow> 'n set \<Rightarrow> 'n topo_state \<Rightarrow> bool" where
  "topo_done g R st X st' \<longleftrightarrow>
     topo_inv g R st' \<and> ts_stack st' = ts_stack st \<and>
     set (ts_order st) \<subseteq> set (ts_order st') \<and> X \<subseteq> set (ts_order st')"

definition topo_left :: "'n set \<Rightarrow> 'n topo_state \<Rightarrow> nat" where
  "topo_left R st = card (R - set (ts_stack st @ ts_order st))"

lemma color_of_inv:
  "topo_inv g R st \<Longrightarrow> color_of st n =
     (if n \<in> set (ts_stack st) then Gray else if n \<in> set (ts_order st) then Black else White)"
  by (simp add: topo_inv_def color_of_def)

lemma topo_done_left:
  "finite R \<Longrightarrow> topo_done g R st X st' \<Longrightarrow> topo_left R st' \<le> topo_left R st"
  unfolding topo_left_def by (rule card_mono) (auto simp: topo_done_def)

lemma topo_done_trans:
  "topo_done g R st X st' \<Longrightarrow> topo_done g R st' Y st'' \<Longrightarrow> topo_done g R st (X \<union> Y) st''"
  by (simp add: topo_done_def) blast

lemma topo_enter:
  assumes "topo_inv g R st" "color_of st node = White" "node \<in> R"
    and "ts_stack st = [] \<or> node \<in> set (gv_successors g (last (ts_stack st)))"
    and st': "st' = st\<lparr>ts_colors := (ts_colors st)(node \<mapsto> Gray), ts_stack := ts_stack st @ [node]\<rparr>"
  shows "topo_inv g R st'" "finite R \<Longrightarrow> topo_left R st < Suc depth \<Longrightarrow> topo_left R st' < depth"
proof -
  have new: "node \<notin> set (ts_stack st @ ts_order st)"
    using assms(1,2) by (auto simp: color_of_inv split: if_splits)
  show "topo_inv g R st'"
    using assms(1,3,4) new by (auto simp: topo_inv_def st' gv_path_snoc)
  assume "finite R" "topo_left R st < Suc depth"
  moreover have "topo_left R st' < topo_left R st"
    unfolding topo_left_def using new assms(3) \<open>finite R\<close> by (intro psubset_card_mono) (auto simp: st')
  ultimately show "topo_left R st' < depth" by simp
qed

lemma topo_leave:
  assumes enter: "st1 = st\<lparr>ts_colors := (ts_colors st)(node \<mapsto> Gray), ts_stack := ts_stack st @ [node]\<rparr>"
    and "topo_inv g R st" "topo_done g R st1 (set (gv_successors g node)) st2"
    and st': "st' = st2\<lparr>ts_stack := butlast (ts_stack st2), ts_colors := (ts_colors st2)(node \<mapsto> Black),
               ts_order := ts_order st2 @ [node]\<rparr>"
  shows "topo_done g R st {node} st'"
proof -
  have inv: "topo_inv g R st2" and stack: "ts_stack st2 = ts_stack st @ [node]"
    and sub: "set (ts_order st) \<subseteq> set (ts_order st2)" "set (gv_successors g node) \<subseteq> set (ts_order st2)"
    using assms(3) by (auto simp: topo_done_def enter)
  have "topo_inv g R st'"
    using inv stack sub(2) by (auto simp: topo_inv_def st' gv_path_snoc before_append)
  with stack sub show ?thesis by (auto simp: topo_done_def st')
qed

text \<open>The loop over successors, for any visit that does its job on white nodes.\<close>

definition topo_body :: "('n \<Rightarrow> 'n topo_state \<Rightarrow> ('n cycle + 'n topo_state) option) \<Rightarrow>
    'n \<Rightarrow> 'n topo_state \<Rightarrow> ('n cycle + 'n topo_state) option" where
  "topo_body visit successor st =
     (case color_of st successor of
        White \<Rightarrow> visit successor st
      | Gray \<Rightarrow> Some (Inl (Cycle (extract_cycle (ts_stack st) successor)))
      | Black \<Rightarrow> Some (Inr st))"

lemma topo_loop:
  assumes visit: "\<And>x st. topo_inv g R st \<Longrightarrow> color_of st x = White \<Longrightarrow> x \<in> R \<Longrightarrow>
        x \<in> set (gv_successors g (last (ts_stack st))) \<Longrightarrow> topo_left R st < depth \<Longrightarrow>
        ends_in (visit x st) (topo_found g R) (topo_done g R st {x})"
    and R: "finite R" "gv_closed g R" and inv: "topo_inv g R st"
    and node: "ts_stack st = us @ [node]" and fuel: "topo_left R st < depth"
  shows "ends_in (try_each (topo_body visit) (gv_successors g node) st) (topo_found g R)
           (topo_done g R st (set (gv_successors g node)))"
proof (rule try_each_rule)
  show "topo_done g R st (set []) st" using inv by (simp add: topo_done_def)
next
  fix ys x zs st'
  assume xs: "gv_successors g node = ys @ x # zs" and st': "topo_done g R st (set ys) st'"
  have inv': "topo_inv g R st'" and stack: "ts_stack st' = us @ [node]"
    using st' node by (simp_all add: topo_done_def)
  have x: "x \<in> R" "x \<in> set (gv_successors g (last (ts_stack st')))"
    using R(2) inv' stack xs by (auto simp: topo_inv_def gv_closed_def)
  have left: "topo_left R st' < depth" using topo_done_left [OF R(1) st'] fuel by simp
  show "ends_in (topo_body visit x st') (topo_found g R) (topo_done g R st (set (ys @ [x])))"
  proof (cases "color_of st' x")
    case White
    from visit [OF inv' White x left] have "ends_in (visit x st') (topo_found g R) (topo_done g R st (set ys \<union> {x}))"
      by (rule ends_in_mono) (assumption | rule topo_done_trans [OF st'])+
    then show ?thesis using White by (simp add: topo_body_def)
  next
    case Gray
    then have "x \<in> set (ts_stack st')" using inv' by (auto simp: color_of_inv split: if_splits)
    with extract_cycle_gv_cycle [of "ts_stack st'" g x] inv' x(2) Gray show ?thesis
      by (auto simp: topo_body_def topo_found_def topo_inv_def)
  next
    case Black
    then have "x \<in> set (ts_order st')" using inv' by (auto simp: color_of_inv split: if_splits)
    with Black st' show ?thesis by (auto simp: topo_body_def topo_done_def)
  qed
qed

lemma topo_visit_body:
  "topo_visit (Suc depth) g node st =
     (case try_each (topo_body (topo_visit depth g)) (gv_successors g node)
             (st\<lparr>ts_colors := (ts_colors st)(node \<mapsto> Gray), ts_stack := ts_stack st @ [node]\<rparr>) of
        None \<Rightarrow> None
      | Some (Inl cyc) \<Rightarrow> Some (Inl cyc)
      | Some (Inr st') \<Rightarrow>
          Some (Inr (st'\<lparr>ts_stack := butlast (ts_stack st'),
                         ts_colors := (ts_colors st')(node \<mapsto> Black),
                         ts_order := ts_order st' @ [node]\<rparr>)))"
  by (simp add: topo_body_def [abs_def])

lemma topo_visit_ok:
  assumes R: "finite R" "gv_closed g R"
  shows "topo_inv g R st \<Longrightarrow> color_of st node = White \<Longrightarrow> node \<in> R \<Longrightarrow>
    ts_stack st = [] \<or> node \<in> set (gv_successors g (last (ts_stack st))) \<Longrightarrow> topo_left R st < depth \<Longrightarrow>
    ends_in (topo_visit depth g node st) (topo_found g R) (topo_done g R st {node})"
proof (induction depth arbitrary: node st)
  case 0
  then show ?case by simp
next
  case (Suc depth)
  define st1 where "st1 = st\<lparr>ts_colors := (ts_colors st)(node \<mapsto> Gray), ts_stack := ts_stack st @ [node]\<rparr>"
  note enter = topo_enter [OF Suc.prems(1-4) st1_def]
  have "ends_in (try_each (topo_body (topo_visit depth g)) (gv_successors g node) st1) (topo_found g R)
      (topo_done g R st1 (set (gv_successors g node)))"
    by (rule topo_loop [OF Suc.IH R enter(1) _ enter(2) [OF R(1) Suc.prems(5)]])
      (auto simp: st1_def)
  then show ?case
  proof (cases rule: ends_inE)
    case (err e)
    then show ?thesis by (simp del: topo_visit.simps add: topo_visit_body st1_def [symmetric])
  next
    case (ok st2)
    from topo_leave [OF st1_def Suc.prems(1) ok(2) refl] ok(1) show ?thesis
      by (simp del: topo_visit.simps add: topo_visit_body st1_def [symmetric])
  qed
qed

lemma topo_nodes:
  assumes R: "finite R" "gv_closed g R" "set nodes \<subseteq> R" and fuel: "card R < depth"
  shows "ends_in (try_each
           (\<lambda>node st. if color_of st node = White then topo_visit depth g node st else Some (Inr st)) nodes
           \<lparr>ts_colors = Map.empty, ts_stack = [], ts_order = []\<rparr>)
         (topo_found g R) (topo_done g R \<lparr>ts_colors = Map.empty, ts_stack = [], ts_order = []\<rparr> (set nodes))"
    (is "ends_in (try_each ?f _ ?init) _ _")
proof (rule try_each_rule)
  show "topo_done g R ?init (set []) ?init" by (simp add: topo_done_def topo_inv_def)
next
  fix ys x zs st
  assume xs: "nodes = ys @ x # zs" and st: "topo_done g R ?init (set ys) st"
  have inv: "topo_inv g R st" and stack: "ts_stack st = []" using st by (simp_all add: topo_done_def)
  have "topo_left R st \<le> card R" unfolding topo_left_def using R(1) by (intro card_mono) auto
  with fuel have left: "topo_left R st < depth" by simp
  show "ends_in (?f x st) (topo_found g R) (topo_done g R ?init (set (ys @ [x])))"
  proof (cases "color_of st x = White")
    case True
    have "ends_in (topo_visit depth g x st) (topo_found g R) (topo_done g R st {x})"
      using topo_visit_ok [OF R(1,2) inv True _ _ left] xs R(3) stack by simp
    then have "ends_in (topo_visit depth g x st) (topo_found g R) (topo_done g R ?init (set ys \<union> {x}))"
      by (rule ends_in_mono) (assumption | rule topo_done_trans [OF st])+
    with True show ?thesis by simp
  next
    case False
    then have "x \<in> set (ts_order st)" using inv stack by (auto simp: color_of_inv split: if_splits)
    with False st show ?thesis by (simp add: topo_done_def)
  qed
qed

text \<open>What a run of \<open>topological_sort\<close> returns, as one case distinction.\<close>

definition topo_order :: "'n graph_view \<Rightarrow> 'n list \<Rightarrow> bool" where
  "topo_order g order \<longleftrightarrow> distinct order \<and>
     (\<forall>x\<in>set order. \<forall>y\<in>set (gv_successors g x). before x y order)"

lemma topological_sort_result:
  assumes "gv_bounded g R (gv_nodes g)" "card R < depth"
  shows "ends_in (topological_sort depth g) (\<lambda>c. gv_cycle g (cycle_list c) \<and> set (cycle_list c) \<subseteq> gv_reach g (set (gv_nodes g)))
           (\<lambda>order. topo_order g order \<and> set order = gv_reach g (set (gv_nodes g)))"
proof -
  let ?R = "gv_reach g (set (gv_nodes g))"
  have fin: "finite ?R"
    using gv_bounded_reach [OF assms(1)] assms(1) finite_subset by (auto simp: gv_bounded_def)
  have less: "card ?R < depth" using gv_bounded_card [OF assms(1)] assms(2) by simp
  have sub: "set (gv_nodes g) \<subseteq> ?R" by (simp add: gv_reach_self subsetI)
  from topo_nodes [OF fin gv_closed_reach sub less] show ?thesis
  proof (cases rule: ends_inE)
    case (err c)
    then show ?thesis by (simp add: topological_sort_def topo_found_def)
  next
    case (ok st)
    then have inv: "topo_inv g ?R st" and stack: "ts_stack st = []" and all: "set (gv_nodes g) \<subseteq> set (ts_order st)"
      by (simp_all add: topo_done_def)
    have "gv_closed g (set (ts_order st))"
      using inv by (fastforce simp: topo_inv_def gv_closed_def dest: before_set)
    then have "?R \<subseteq> set (ts_order st)" using all by (rule gv_reach_least)
    then have "set (ts_order st) = ?R" using inv by (auto simp: topo_inv_def)
    with inv ok(1) show ?thesis
      by (simp add: topological_sort_def topo_order_def topo_inv_def before_rev)
  qed
qed

lemma topo_order_acyclic:
  assumes "topo_order g order" "gv_closed g (set order)" "x \<in> set order"
  shows "(x, y) \<in> (gv_edges g)\<^sup>+ \<Longrightarrow> before x y order"
proof (induction rule: trancl_induct)
  case (base y)
  with assms show ?case by (simp add: topo_order_def)
next
  case (step y z)
  then have "y \<in> set order" by (auto dest: before_set)
  with step assms show ?case by (auto simp: topo_order_def intro: before_trans)
qed

section \<open>Properties\<close>

text \<open>
  C2: on a view with finitely many reachable nodes topological sort terminates, and it
  either returns the reachable nodes, each once, with every edge going forward, or a list of
  distinct reachable nodes that is a cycle of the graph.
\<close>

theorem topological_sort_correct:
  assumes "gv_bounded g R (gv_nodes g)" "card R < depth"
  shows "(\<exists>order. topological_sort depth g = Some (Inr order) \<and> distinct order \<and>
            set order = gv_reach g (set (gv_nodes g)) \<and>
            (\<forall>x\<in>set order. \<forall>y\<in>set (gv_successors g x). before x y order)) \<or>
         (\<exists>ns. topological_sort depth g = Some (Inl (Cycle ns)) \<and> gv_cycle g ns \<and>
            set ns \<subseteq> gv_reach g (set (gv_nodes g)))"
  using topological_sort_result [OF assms]
proof (cases rule: ends_inE)
  case (err c)
  then show ?thesis by (cases c) auto
next
  case (ok order)
  then show ?thesis by (simp add: topo_order_def)
qed

theorem topological_sort_correct_witness:
  "topological_sort 5 sample_view = Some (Inl (Cycle [1, 3])) \<and> gv_cycle sample_view [1, 3]"
proof -
  have run: "topological_sort 5 sample_view = Some (Inl (Cycle [1, 3]))" by code_simp
  from topological_sort_correct [OF sample_view_nodes_bounded, of 5] run show ?thesis by simp
qed

text \<open>
  topological sort reports a cycle exactly when some node reachable from the listed
  nodes lies on a cycle, and \<open>cycle_nodes\<close> returns the nodes of that cycle.
\<close>

lemma topological_sort_cycle_iff:
  assumes "gv_bounded g R (gv_nodes g)" "card R < depth"
  shows "(\<exists>ns. cycle_nodes depth g = Some (Some ns)) \<longleftrightarrow>
         (\<exists>x\<in>gv_reach g (set (gv_nodes g)). (x, x) \<in> (gv_edges g)\<^sup>+)"
  using topological_sort_result [OF assms]
proof (cases rule: ends_inE)
  case (err c)
  then have "hd (cycle_list c) \<in> gv_reach g (set (gv_nodes g))" by (auto simp: gv_cycle_def)
  with err gv_cycle_trancl [of g "cycle_list c"] show ?thesis by (auto simp: cycle_nodes_def)
next
  case (ok order)
  then have "gv_closed g (set order)" by (simp add: gv_closed_reach)
  with ok topo_order_acyclic [of g order] before_irrefl [of order]
  have "\<nexists>x. x \<in> set order \<and> (x, x) \<in> (gv_edges g)\<^sup>+"
    by (auto simp: topo_order_def)
  with ok show ?thesis by (auto simp: cycle_nodes_def)
qed

theorem topological_sort_cycle_iff_witness:
  "cycle_nodes 5 sample_view = Some (Some [1, 3]) \<and>
   (\<exists>x\<in>gv_reach sample_view (set (gv_nodes sample_view)). (x, x) \<in> (gv_edges sample_view)\<^sup>+)"
proof -
  have run: "cycle_nodes 5 sample_view = Some (Some [1, 3])" by code_simp
  from topological_sort_cycle_iff [OF sample_view_nodes_bounded, of 5] run show ?thesis by simp
qed

end
