(* ===== verification/Scc.thy ===== *)
theory Scc
  imports GraphView
begin

text \<open>
  \<open>etas_utils/src/graph/scc.rs\<close>: Tarjan's algorithm with an explicit stack of pending
  visits. \<open>tarjan\<close> is the struct of the same name; its vector \<open>stack\<close> is a list with the
  top at the head. A pending visit is a node with the successors its iterator still holds,
  the innermost visit first. The loop carries a bound on its iterations; \<open>None\<close> is that
  bound being too small, or one of the \<open>expect\<close> calls and index expressions panicking.
\<close>

section \<open>The algorithm\<close>

datatype 'n scc = Scc (scc_nodes: "'n list")

record 'n tarjan =
  tj_next_index :: nat
  tj_index :: "'n \<Rightarrow> nat option"
  tj_lowlink :: "'n \<Rightarrow> nat option"
  tj_stack :: "'n list"
  tj_on_stack :: "'n set"
  tj_components :: "'n scc list"

definition tarjan_discover :: "'n \<Rightarrow> 'n tarjan \<Rightarrow> 'n tarjan" where
  "tarjan_discover node t =
     t\<lparr>tj_next_index := tj_next_index t + 1,
       tj_index := (tj_index t)(node \<mapsto> tj_next_index t),
       tj_lowlink := (tj_lowlink t)(node \<mapsto> tj_next_index t),
       tj_stack := node # tj_stack t,
       tj_on_stack := insert node (tj_on_stack t)\<rparr>"

text \<open>The loop of \<open>complete\<close> that pops the members of a component off the stack.\<close>

fun pop_component :: "'n \<Rightarrow> 'n list \<Rightarrow> 'n set \<Rightarrow> 'n list \<Rightarrow> 'n list \<times> 'n set \<times> 'n list" where
  "pop_component node [] on_stack component = ([], on_stack, component)"
| "pop_component node (member # stack) on_stack component =
     (if member = node then (stack, on_stack - {member}, component @ [member])
      else pop_component node stack (on_stack - {member}) (component @ [member]))"

definition tarjan_complete :: "'n \<Rightarrow> 'n tarjan \<Rightarrow> 'n tarjan option" where
  "tarjan_complete node t =
     (case (tj_lowlink t node, tj_index t node) of
        (Some l, Some i) \<Rightarrow>
          if l = i
          then (case pop_component node (tj_stack t) (tj_on_stack t) [] of
                  (stack, on_stack, component) \<Rightarrow>
                    Some (t\<lparr>tj_stack := stack, tj_on_stack := on_stack,
                            tj_components := tj_components t @ [Scc component]\<rparr>))
          else Some t
      | _ \<Rightarrow> None)"

text \<open>\<open>*lowlink = (*lowlink).min(value)\<close> for the entry of a node.\<close>

definition lower_link :: "'n \<Rightarrow> nat \<Rightarrow> 'n tarjan \<Rightarrow> 'n tarjan option" where
  "lower_link node val t =
     (case tj_lowlink t node of
        None \<Rightarrow> None
      | Some l \<Rightarrow> Some (t\<lparr>tj_lowlink := (tj_lowlink t)(node \<mapsto> min l val)\<rparr>))"

text \<open>One iteration of the loop of \<open>visit\<close>, and the loop.\<close>

fun tarjan_step :: "'n graph_view \<Rightarrow> ('n \<times> 'n list) list \<Rightarrow> 'n tarjan \<Rightarrow> (('n \<times> 'n list) list \<times> 'n tarjan) option" where
  "tarjan_step g [] t = Some ([], t)"
| "tarjan_step g ((node, successor # rest) # pending) t =
     (case tj_index t successor of
        None \<Rightarrow> Some ((successor, gv_successors g successor) # (node, rest) # pending,
                      tarjan_discover successor t)
      | Some successor_index \<Rightarrow>
          if successor \<in> tj_on_stack t
          then map_option (\<lambda>t'. ((node, rest) # pending, t')) (lower_link node successor_index t)
          else Some ((node, rest) # pending, t))"
| "tarjan_step g ((node, []) # pending) t =
     (case tarjan_complete node t of
        None \<Rightarrow> None
      | Some t' \<Rightarrow>
          (case pending of
             [] \<Rightarrow> Some ([], t')
           | (parent, rest) # _ \<Rightarrow>
               (case tj_lowlink t' node of
                  None \<Rightarrow> None
                | Some successor_lowlink \<Rightarrow>
                    map_option (\<lambda>t''. (pending, t'')) (lower_link parent successor_lowlink t'))))"

fun tarjan_loop :: "nat \<Rightarrow> 'n graph_view \<Rightarrow> ('n \<times> 'n list) list \<Rightarrow> 'n tarjan \<Rightarrow> 'n tarjan option" where
  "tarjan_loop fuel g [] t = Some t"
| "tarjan_loop 0 g (p # ps) t = None"
| "tarjan_loop (Suc fuel) g (p # ps) t =
     (case tarjan_step g (p # ps) t of
        None \<Rightarrow> None
      | Some (pending, t') \<Rightarrow> tarjan_loop fuel g pending t')"

definition tarjan_visit :: "nat \<Rightarrow> 'n graph_view \<Rightarrow> 'n \<Rightarrow> 'n tarjan \<Rightarrow> 'n tarjan option" where
  "tarjan_visit fuel g node t =
     tarjan_loop fuel g [(node, gv_successors g node)] (tarjan_discover node t)"

definition strongly_connected_components :: "nat \<Rightarrow> 'n graph_view \<Rightarrow> 'n scc list option" where
  "strongly_connected_components fuel g =
     map_option tj_components
       (for_each (\<lambda>node t. if tj_index t node = None then tarjan_visit fuel g node t else Some t)
          (gv_nodes g)
          \<lparr>tj_next_index = 0, tj_index = Map.empty, tj_lowlink = Map.empty,
           tj_stack = [], tj_on_stack = {}, tj_components = []\<rparr>)"

section \<open>Strongly connected components\<close>

text \<open>The class of \<open>n\<close> under mutual reachability.\<close>

definition gv_scc :: "'n graph_view \<Rightarrow> 'n \<Rightarrow> 'n set" where
  "gv_scc g n = {x. (n, x) \<in> (gv_edges g)\<^sup>* \<and> (x, n) \<in> (gv_edges g)\<^sup>*}"

text \<open>
  A list of components in the order Tarjan's algorithm emits them: disjoint, each the class
  of one of its nodes, and with no edge to a component emitted later.
\<close>

definition emitted :: "'n graph_view \<Rightarrow> 'n list list \<Rightarrow> bool" where
  "emitted g cs \<longleftrightarrow> distinct (concat cs) \<and>
     (\<forall>i<length cs. (\<exists>n\<in>set (cs ! i). set (cs ! i) = gv_scc g n) \<and>
        (\<forall>x\<in>set (cs ! i). set (gv_successors g x) \<subseteq> set (concat (take (Suc i) cs))))"

lemma emitted_class:
  assumes "emitted g cs" "c \<in> set cs" "x \<in> set c"
  shows "set c = gv_scc g x"
proof -
  obtain i where i: "i < length cs" "c = cs ! i" using assms(2) by (metis in_set_conv_nth)
  then obtain n where n: "set c = gv_scc g n" using assms(1) unfolding emitted_def by blast
  then have "(n, x) \<in> (gv_edges g)\<^sup>*" "(x, n) \<in> (gv_edges g)\<^sup>*" using assms(3) by (auto simp: gv_scc_def)
  then show ?thesis unfolding n gv_scc_def by (auto intro: rtrancl_trans)
qed

lemma emitted_order:
  assumes "emitted g cs" "i < length cs" "x \<in> set (cs ! i)" "y \<in> set (gv_successors g x)"
  obtains j where "j \<le> i" "y \<in> set (cs ! j)"
proof -
  have "y \<in> set (concat (take (Suc i) cs))" using assms unfolding emitted_def by blast
  then obtain c where "c \<in> set (take (Suc i) cs)" "y \<in> set c" by auto
  then obtain j where "j < length (take (Suc i) cs)" "y \<in> set (take (Suc i) cs ! j)"
    by (metis in_set_conv_nth)
  then show thesis by (intro that [of j]) auto
qed

lemma emitted_snoc:
  assumes "emitted g cs" "distinct c" "set c \<inter> set (concat cs) = {}" "n \<in> set c" "set c = gv_scc g n"
    and "\<forall>x\<in>set c. set (gv_successors g x) \<subseteq> set (concat cs) \<union> set c"
  shows "emitted g (cs @ [c])"
  unfolding emitted_def
proof (intro conjI allI impI)
  show "distinct (concat (cs @ [c]))" using assms(1-3) by (auto simp: emitted_def)
next
  fix i assume i: "i < length (cs @ [c])"
  show "\<exists>n\<in>set ((cs @ [c]) ! i). set ((cs @ [c]) ! i) = gv_scc g n"
    using assms(1,4,5) i by (cases "i = length cs") (auto simp: emitted_def nth_append)
  show "\<forall>x\<in>set ((cs @ [c]) ! i). set (gv_successors g x) \<subseteq> set (concat (take (Suc i) (cs @ [c])))"
  proof (cases "i = length cs")
    case True
    with assms(6) show ?thesis by (simp add: nth_append)
  next
    case False
    with i have "i < length cs" by simp
    with assms(1) show ?thesis by (simp add: emitted_def nth_append)
  qed
qed

section \<open>The invariant of the loop\<close>

text \<open>
  The stack is cut into groups, one per pending visit: the group of a pending node \<open>p\<close> ends
  in \<open>p\<close> (its oldest member) and holds the finished nodes whose component is not known yet
  and that were found below \<open>p\<close>. \<open>p\<close> reaches its group, its low link is the least of the
  group, and it bounds the index of every stack node that a processed edge of the group
  leads to.
\<close>

definition processed :: "'n graph_view \<Rightarrow> 'n \<Rightarrow> 'n list \<Rightarrow> 'n \<Rightarrow> 'n set" where
  "processed g p rest u = {w \<in> set (gv_successors g u). u = p \<longrightarrow> w \<notin> set rest}"

definition group_ok :: "'n graph_view \<Rightarrow> 'n set \<Rightarrow> 'n set \<Rightarrow> ('n \<Rightarrow> nat) \<Rightarrow> ('n \<Rightarrow> nat) \<Rightarrow>
    'n list \<Rightarrow> 'n \<times> 'n list \<Rightarrow> bool" where
  "group_ok g S D idx low grp = (\<lambda>(p, rest).
     grp \<noteq> [] \<and> last grp = p \<and> set rest \<subseteq> set (gv_successors g p) \<and>
     (\<forall>u\<in>set grp. (p, u) \<in> (gv_edges g)\<^sup>* \<and> low p \<le> low u \<and> (u \<noteq> p \<longrightarrow> low u < idx u) \<and>
        (\<forall>w\<in>processed g p rest u. w \<in> D \<and> (w \<in> S \<longrightarrow> low p \<le> idx w))))"

text \<open>The stack: newest first by index, each low link the index of a stack node it reaches.\<close>

definition stack_ok :: "'n graph_view \<Rightarrow> 'n list \<Rightarrow> ('n \<Rightarrow> nat) \<Rightarrow> ('n \<Rightarrow> nat) \<Rightarrow> bool" where
  "stack_ok g S idx low \<longleftrightarrow> sorted_wrt (\<lambda>a b. idx b < idx a) S \<and>
     (\<forall>u\<in>set S. low u \<le> idx u \<and> (\<exists>w\<in>set S. low u = idx w \<and> (u, w) \<in> (gv_edges g)\<^sup>*))"

text \<open>Consecutive pending visits are linked by an edge from the outer to the inner node.\<close>

fun linked :: "'n graph_view \<Rightarrow> ('n \<times> 'n list) list \<Rightarrow> bool" where
  "linked g (p # q # ps) = (fst p \<in> set (gv_successors g (fst q)) \<and> linked g (q # ps))"
| "linked g ps = True"

text \<open>The finished part: closed under successors and made of the emitted components.\<close>

definition finished_ok :: "'n graph_view \<Rightarrow> 'n set \<Rightarrow> 'n set \<Rightarrow> 'n list list \<Rightarrow> bool" where
  "finished_ok g D S cs \<longleftrightarrow> S \<subseteq> D \<and> D - S = set (concat cs) \<and> gv_closed g (D - S) \<and> emitted g cs"

definition tj_inv :: "'n graph_view \<Rightarrow> 'n set \<Rightarrow> 'n list list \<Rightarrow> ('n \<times> 'n list) list \<Rightarrow>
    'n set \<Rightarrow> ('n \<Rightarrow> nat) \<Rightarrow> ('n \<Rightarrow> nat) \<Rightarrow> nat \<Rightarrow> 'n list list \<Rightarrow> bool" where
  "tj_inv g R groups pending D idx low next cs \<longleftrightarrow>
     D \<subseteq> R \<and> (\<forall>v\<in>D. idx v < next) \<and> stack_ok g (concat groups) idx low \<and>
     finished_ok g D (set (concat groups)) cs \<and> linked g pending \<and>
     list_all2 (group_ok g (set (concat groups)) D idx low) groups pending"

lemma linked_tl: "linked g (p # ps) \<Longrightarrow> linked g ps"
  by (cases ps) auto

lemma linked_rest: "linked g ((n, r) # ps) \<longleftrightarrow> linked g ((n, r') # ps)"
  by (cases ps) auto

lemma stack_ok_distinct: "stack_ok g S idx low \<Longrightarrow> distinct S"
proof -
  have "sorted_wrt (\<lambda>a b. idx b < idx a) S \<Longrightarrow> distinct S" by (induction S) auto
  then show "stack_ok g S idx low \<Longrightarrow> distinct S" by (simp add: stack_ok_def)
qed

lemma stack_ok_low: "stack_ok g S idx low \<Longrightarrow> u \<in> set S \<Longrightarrow> low u \<le> idx u"
  by (simp add: stack_ok_def)

lemma stack_ok_less: "stack_ok g (xs @ ys) idx low \<Longrightarrow> u \<in> set xs \<Longrightarrow> v \<in> set ys \<Longrightarrow> idx v < idx u"
  by (simp add: stack_ok_def sorted_wrt_append)

lemma group_ok_cong:
  assumes "group_ok g S D idx low grp pr"
    and eq: "\<And>u. u \<in> set grp \<Longrightarrow> idx' u = idx u \<and> low' u = low u"
    and S': "\<And>w. w \<in> S' \<inter> D \<Longrightarrow> w \<in> S \<and> idx' w = idx w" and "D \<subseteq> D'"
  shows "group_ok g S' D' idx' low' grp pr"
proof -
  obtain p rest where pr: "pr = (p, rest)" by fastforce
  have p: "p \<in> set grp" using assms(1) by (auto simp: group_ok_def pr)
  have "w \<in> D' \<and> (w \<in> S' \<longrightarrow> low' p \<le> idx' w)" if "u \<in> set grp" "w \<in> processed g p rest u" for u w
  proof -
    have "w \<in> D" "w \<in> S \<longrightarrow> low p \<le> idx w" using assms(1) that by (auto simp: group_ok_def pr)
    with S' [of w] eq [OF p] \<open>D \<subseteq> D'\<close> show ?thesis by auto
  qed
  with assms(1) eq p show ?thesis unfolding group_ok_def pr case_prod_conv by simp
qed

lemma groups_ok_cong:
  assumes "list_all2 (group_ok g S D idx low) groups pending"
    and "\<And>u. u \<in> set (concat groups) \<Longrightarrow> idx' u = idx u \<and> low' u = low u"
    and "\<And>w. w \<in> S' \<inter> D \<Longrightarrow> w \<in> S \<and> idx' w = idx w" and "D \<subseteq> D'"
  shows "list_all2 (group_ok g S' D' idx' low') groups pending"
  using assms(1)
proof (rule list.rel_mono_strong)
  fix grp pr assume grp: "grp \<in> set groups" and ok: "group_ok g S D idx low grp pr"
  show "group_ok g S' D' idx' low' grp pr"
  proof (rule group_ok_cong [OF ok _ assms(3,4)])
    fix u assume "u \<in> set grp"
    with grp have "u \<in> set (concat groups)" by auto
    then show "idx' u = idx u \<and> low' u = low u" by (rule assms(2))
  qed
qed

subsection \<open>Pushing a discovered node\<close>

lemma group_ok_shrink:
  assumes "group_ok g S D idx low grp (p, w # rest)" "w \<in> D" "w \<in> S \<Longrightarrow> low p \<le> idx w"
  shows "group_ok g S D idx low grp (p, rest)"
proof -
  have "processed g p rest u \<subseteq> insert w (processed g p (w # rest) u)" for u
    by (auto simp: processed_def)
  with assms show ?thesis unfolding group_ok_def case_prod_conv by fastforce
qed

lemma group_ok_lower:
  assumes "group_ok g S D idx low grp (p, rest)" "l \<le> low p"
  shows "group_ok g S D idx (low(p := l)) grp (p, rest)"
  using assms unfolding group_ok_def case_prod_conv by (auto intro: order_trans)

lemma tj_inv_push:
  assumes inv: "tj_inv g R groups pending D idx low next cs" and w: "w \<notin> D" "w \<in> R"
    and "linked g ((w, gv_successors g w) # pending')"
    and "list_all2 (group_ok g (set (concat ([w] # groups))) (insert w D) (idx(w := next)) (low(w := next)))
           groups pending'"
  shows "tj_inv g R ([w] # groups) ((w, gv_successors g w) # pending') (insert w D)
           (idx(w := next)) (low(w := next)) (Suc next) cs"
proof -
  let ?S = "concat groups" and ?idx = "idx(w := next)" and ?low = "low(w := next)"
  have S: "set ?S \<subseteq> D" and less: "\<forall>v\<in>D. idx v < next" and ok: "stack_ok g ?S idx low"
    and fin: "finished_ok g D (set ?S) cs"
    using inv by (auto simp: tj_inv_def finished_ok_def)
  have old: "?idx u = idx u" "?low u = low u" if "u \<in> set ?S" for u using that S w(1) by auto
  have "sorted_wrt (\<lambda>a b. ?idx b < ?idx a) ?S"
    by (rule sorted_wrt_mono_rel [of _ "\<lambda>a b. idx b < idx a"]) (use old ok in \<open>auto simp: stack_ok_def\<close>)
  moreover have "\<forall>b\<in>set ?S. ?idx b < next" using old less S by auto
  moreover have "?low u \<le> ?idx u \<and> (\<exists>x\<in>set (w # ?S). ?low u = ?idx x \<and> (u, x) \<in> (gv_edges g)\<^sup>*)"
    if u: "u \<in> set (w # ?S)" for u
  proof (cases "u = w")
    case True
    then show ?thesis by auto
  next
    case False
    with u have u: "u \<in> set ?S" by simp
    with ok obtain x where "x \<in> set ?S" "low u \<le> idx u" "low u = idx x" "(u, x) \<in> (gv_edges g)\<^sup>*"
      unfolding stack_ok_def by blast
    then show ?thesis using old [OF u] old [of x] by (auto intro!: bexI [of _ x] simp del: set_concat)
  qed
  ultimately have "stack_ok g (w # ?S) ?idx ?low" by (simp add: stack_ok_def)
  moreover have "insert w D - insert w (set ?S) = D - set ?S" using w(1) by auto
  then have "finished_ok g (insert w D) (insert w (set ?S)) cs"
    using fin by (auto simp: finished_ok_def)
  moreover have "group_ok g (set (w # ?S)) (insert w D) ?idx ?low [w] (w, gv_successors g w)"
    by (simp add: group_ok_def processed_def)
  ultimately show ?thesis
    using assms(4,5) inv w less by (auto simp: tj_inv_def)
qed

lemma tj_inv_discover:
  assumes inv: "tj_inv g R groups ((node, w # rest) # pending) D idx low next cs"
    and w: "w \<notin> D" "gv_closed g R"
  shows "tj_inv g R ([w] # groups) ((w, gv_successors g w) # (node, rest) # pending) (insert w D)
           (idx(w := next)) (low(w := next)) (Suc next) cs"
proof -
  let ?S = "set (concat ([w] # groups))" and ?idx = "idx(w := next)" and ?low = "low(w := next)"
  have sub: "set (concat groups) \<subseteq> D" using inv by (auto simp: tj_inv_def finished_ok_def)
  have all: "list_all2 (group_ok g ?S (insert w D) ?idx ?low) groups ((node, w # rest) # pending)"
    by (rule groups_ok_cong [where S = "set (concat groups)" and D = D and idx = idx and low = low])
      (use inv w sub in \<open>auto simp: tj_inv_def\<close>)
  then obtain grp gs where groups: "groups = grp # gs"
    and grp: "group_ok g ?S (insert w D) ?idx ?low grp (node, w # rest)"
    and gs: "list_all2 (group_ok g ?S (insert w D) ?idx ?low) gs pending"
    by (auto simp: list_all2_Cons2)
  have node: "node \<in> set (concat groups)" "w \<in> set (gv_successors g node)"
    using grp by (auto simp: groups group_ok_def)
  then have "?low node \<le> idx node" "idx node < next" "node \<noteq> w"
    using inv w(1) sub by (auto simp: tj_inv_def stack_ok_def)
  then have "group_ok g ?S (insert w D) ?idx ?low grp (node, rest)"
    by (intro group_ok_shrink [OF grp]) auto
  with gs have "list_all2 (group_ok g ?S (insert w D) ?idx ?low) groups ((node, rest) # pending)"
    by (simp add: groups)
  moreover have "linked g ((w, gv_successors g w) # (node, rest) # pending)"
    using inv node(2) linked_rest by (fastforce simp: tj_inv_def)
  moreover have "w \<in> R" using inv w(2) node sub by (auto simp: tj_inv_def gv_closed_def)
  ultimately show ?thesis using inv w(1) by (intro tj_inv_push) auto
qed

subsection \<open>Edges to known nodes\<close>

lemma stack_ok_lower:
  assumes "stack_ok g S idx low" "x \<in> set S" "(node, x) \<in> (gv_edges g)\<^sup>*"
  shows "stack_ok g S idx (low(node := min (low node) (idx x)))"
  using assms unfolding stack_ok_def by (auto simp: min_def)

lemma tj_inv_back:
  assumes inv: "tj_inv g R groups ((node, w # rest) # pending) D idx low next cs"
    and w: "w \<in> set (concat groups)"
  shows "tj_inv g R groups ((node, rest) # pending) D idx (low(node := min (low node) (idx w))) next cs"
proof -
  let ?S = "set (concat groups)" and ?low = "low(node := min (low node) (idx w))"
  obtain grp gs where groups: "groups = grp # gs"
    and grp: "group_ok g ?S D idx low grp (node, w # rest)"
    and gs: "list_all2 (group_ok g ?S D idx low) gs pending"
    using inv by (auto simp: tj_inv_def list_all2_Cons2)
  have node: "node \<in> set grp" "(node, w) \<in> gv_edges g" using grp by (auto simp: group_ok_def)
  have "distinct (concat groups)" using inv by (auto simp: tj_inv_def dest: stack_ok_distinct)
  with node(1) have fresh: "node \<notin> set (concat gs)" by (auto simp: groups)
  have "group_ok g ?S D idx ?low grp (node, w # rest)" by (rule group_ok_lower [OF grp]) simp
  then have "group_ok g ?S D idx ?low grp (node, rest)"
    by (rule group_ok_shrink) (use inv w in \<open>auto simp: tj_inv_def finished_ok_def\<close>)
  moreover have "list_all2 (group_ok g ?S D idx ?low) gs pending"
    by (rule groups_ok_cong [OF gs]) (use fresh in auto)
  moreover have "stack_ok g (concat groups) idx ?low"
    using inv w node(2) by (intro stack_ok_lower) (auto simp: tj_inv_def)
  moreover have "linked g ((node, rest) # pending)"
    using inv linked_rest by (fastforce simp: tj_inv_def)
  ultimately show ?thesis using inv by (simp add: tj_inv_def groups)
qed

lemma tj_inv_cross:
  assumes inv: "tj_inv g R groups ((node, w # rest) # pending) D idx low next cs"
    and w: "w \<in> D" "w \<notin> set (concat groups)"
  shows "tj_inv g R groups ((node, rest) # pending) D idx low next cs"
proof -
  obtain grp gs where groups: "groups = grp # gs"
    and grp: "group_ok g (set (concat groups)) D idx low grp (node, w # rest)"
    and gs: "list_all2 (group_ok g (set (concat groups)) D idx low) gs pending"
    using inv by (auto simp: tj_inv_def list_all2_Cons2)
  have "group_ok g (set (concat groups)) D idx low grp (node, rest)"
    by (rule group_ok_shrink [OF grp]) (use w in auto)
  moreover have "linked g ((node, rest) # pending)"
    using inv linked_rest by (fastforce simp: tj_inv_def)
  ultimately show ?thesis using inv gs by (simp add: tj_inv_def groups)
qed

subsection \<open>Completing a visit\<close>

lemma group_root_scc:
  assumes ok: "stack_ok g (grp @ S) idx low" and grp: "group_ok g (set (grp @ S)) D idx low grp (node, [])"
    and root: "low node = idx node" and fin: "gv_closed g (D - set (grp @ S))"
  shows "set grp = gv_scc g node"
    and "\<forall>x\<in>set grp. set (gv_successors g x) \<subseteq> D - set (grp @ S) \<union> set grp"
proof -
  have node: "node \<in> set grp" using grp by (auto simp: group_ok_def)
  have top: "w \<in> set grp" if "w \<in> set (grp @ S)" "idx node \<le> idx w" for w
  proof (rule ccontr)
    assume "w \<notin> set grp"
    with that(1) ok node have "idx w < idx node" by (auto simp: stack_ok_def sorted_wrt_append)
    with that(2) show False by simp
  qed
  show succ: "\<forall>x\<in>set grp. set (gv_successors g x) \<subseteq> D - set (grp @ S) \<union> set grp"
  proof (intro ballI subsetI)
    fix x w assume "x \<in> set grp" "w \<in> set (gv_successors g x)"
    then have "w \<in> D" "w \<in> set (grp @ S) \<longrightarrow> low node \<le> idx w"
      using grp by (auto simp: group_ok_def processed_def)
    with root top [of w] show "w \<in> D - set (grp @ S) \<union> set grp" by auto
  qed
  have up: "u \<in> set grp \<Longrightarrow> (u, node) \<in> (gv_edges g)\<^sup>*" for u
  proof (induction "idx u" arbitrary: u rule: less_induct)
    case less
    show ?case
    proof (cases "u = node")
      case False
      have on: "u \<in> set (grp @ S)" using less.prems by simp
      have low: "low u < idx u" "low node \<le> low u" using grp less.prems False by (auto simp: group_ok_def)
      obtain w where w: "w \<in> set (grp @ S)" "low u = idx w" "(u, w) \<in> (gv_edges g)\<^sup>*"
        using ok on unfolding stack_ok_def by blast
      with low root top [of w] have "w \<in> set grp" by simp
      with less.hyps [of w] w low show ?thesis by (metis rtrancl_trans)
    qed simp
  qed
  have closed: "gv_closed g (D - set (grp @ S) \<union> set grp)"
    using succ fin by (auto simp: gv_closed_def)
  have "x \<in> set grp" if x: "(node, x) \<in> (gv_edges g)\<^sup>*" "(x, node) \<in> (gv_edges g)\<^sup>*" for x
  proof (rule ccontr)
    assume "x \<notin> set grp"
    with gv_reach_least [OF closed, of "{node}"] x(1) node have "x \<in> D - set (grp @ S)"
      by (auto simp: gv_reach_def)
    with gv_reach_least [OF fin, of "{x}"] x(2) have "node \<in> D - set (grp @ S)"
      by (auto simp: gv_reach_def)
    with node show False by simp
  qed
  moreover have "(node, u) \<in> (gv_edges g)\<^sup>*" if "u \<in> set grp" for u
    using grp that by (auto simp: group_ok_def)
  ultimately show "set grp = gv_scc g node" using up by (auto simp: gv_scc_def)
qed

lemma stack_ok_tail:
  assumes ok: "stack_ok g (grp @ S) idx low"
  shows "stack_ok g S idx low"
proof -
  have sorted: "\<forall>u\<in>set grp. \<forall>v\<in>set S. idx v < idx u" "sorted_wrt (\<lambda>a b. idx b < idx a) S"
    using ok by (auto simp: stack_ok_def sorted_wrt_append)
  have "low u \<le> idx u \<and> (\<exists>w\<in>set S. low u = idx w \<and> (u, w) \<in> (gv_edges g)\<^sup>*)" if u: "u \<in> set S" for u
  proof -
    from u have "u \<in> set (grp @ S)" by simp
    with ok obtain w where w: "w \<in> set (grp @ S)" "low u \<le> idx u" "low u = idx w" "(u, w) \<in> (gv_edges g)\<^sup>*"
      unfolding stack_ok_def by blast
    have "w \<notin> set grp" using sorted(1) u w(2,3) by fastforce
    with w show ?thesis by auto
  qed
  with sorted(2) show ?thesis by (simp add: stack_ok_def)
qed

lemma tj_inv_root:
  assumes inv: "tj_inv g R (grp # gs) ((node, []) # pending) D idx low next cs"
    and root: "low node = idx node"
  shows "tj_inv g R gs pending D idx low next (cs @ [grp])"
proof -
  let ?S = "set (grp @ concat gs)"
  have ok: "stack_ok g (grp @ concat gs) idx low"
    and grp: "group_ok g ?S D idx low grp (node, [])"
    and gs: "list_all2 (group_ok g ?S D idx low) gs pending"
    and fin: "?S \<subseteq> D" "D - ?S = set (concat cs)" "gv_closed g (D - ?S)" "emitted g cs"
    using inv unfolding tj_inv_def finished_ok_def concat.simps list.rel_inject(2) by blast+
  have node: "node \<in> set grp" using grp by (auto simp: group_ok_def)
  have dist: "distinct (grp @ concat gs)" by (rule stack_ok_distinct [OF ok])
  have grp_D: "D - set (concat gs) = set (concat cs) \<union> set grp"
    using fin(1,2) dist by (auto simp del: set_concat)
  note scc = group_root_scc [OF ok grp root fin(3)]
  have closed: "gv_closed g (D - set (concat gs))"
    using scc(2) fin(2,3) unfolding grp_D gv_closed_def by (auto simp del: set_concat)
  have "set grp \<inter> set (concat cs) = {}" using fin(2) by (auto simp del: set_concat)
  moreover have "\<forall>x\<in>set grp. set (gv_successors g x) \<subseteq> set (concat cs) \<union> set grp"
    using scc(2) unfolding fin(2) .
  ultimately have "emitted g (cs @ [grp])"
    using emitted_snoc [OF fin(4) _ _ node scc(1)] dist by simp
  moreover have "list_all2 (group_ok g (set (concat gs)) D idx low) gs pending"
    by (rule groups_ok_cong [OF gs]) auto
  moreover have "linked g pending" using inv by (auto simp: tj_inv_def dest: linked_tl)
  moreover have "D \<subseteq> R" "\<forall>v\<in>D. idx v < next" using inv unfolding tj_inv_def by simp_all
  ultimately show ?thesis
    using stack_ok_tail [OF ok] closed grp_D fin(1)
    by (simp add: tj_inv_def finished_ok_def del: set_concat)
qed

lemma group_ok_merge:
  assumes grp: "group_ok g S D idx low grp (node, [])" and h: "group_ok g S D idx low h (p, rest)"
    and edge: "(p, node) \<in> gv_edges g" and nonroot: "low node < idx node" and fresh: "p \<notin> set grp"
  shows "group_ok g S D idx (low(p := min (low p) (low node))) (grp @ h) (p, rest)"
proof -
  have "(p, u) \<in> (gv_edges g)\<^sup>*" "low node \<le> low u" "low u < idx u"
    "\<forall>w\<in>set (gv_successors g u). w \<in> D \<and> (w \<in> S \<longrightarrow> low node \<le> idx w)" if "u \<in> set grp" for u
    using grp that nonroot edge
    by (auto simp: group_ok_def processed_def intro: converse_rtrancl_into_rtrancl)
  moreover have "u \<noteq> p" if "u \<in> set grp" for u using fresh that by auto
  ultimately show ?thesis using h
    by (auto simp: group_ok_def processed_def min_le_iff_disj)
qed

lemma tj_inv_merge:
  assumes inv: "tj_inv g R (grp # h # gs) ((node, []) # (p, rest) # pending) D idx low next cs"
    and nonroot: "low node \<noteq> idx node"
  shows "tj_inv g R ((grp @ h) # gs) ((p, rest) # pending) D idx (low(p := min (low p) (low node))) next cs"
proof -
  let ?S = "set (grp @ h @ concat gs)" and ?low = "low(p := min (low p) (low node))"
  have ok: "stack_ok g (grp @ h @ concat gs) idx low"
    and grp: "group_ok g ?S D idx low grp (node, [])" and h: "group_ok g ?S D idx low h (p, rest)"
    and gs: "list_all2 (group_ok g ?S D idx low) gs pending"
    and edge: "(p, node) \<in> gv_edges g" and link: "linked g ((p, rest) # pending)"
    using inv unfolding tj_inv_def by (simp_all add: gv_edges_def)
  have in_grp: "node \<in> set grp" "p \<in> set h" using grp h by (auto simp: group_ok_def)
  have dist: "distinct (grp @ h @ concat gs)" by (rule stack_ok_distinct [OF ok])
  have on: "node \<in> ?S" using in_grp by simp
  then obtain x where x: "x \<in> ?S" "low node \<le> idx node" "low node = idx x" "(node, x) \<in> (gv_edges g)\<^sup>*"
    using ok unfolding stack_ok_def by blast
  have "group_ok g ?S D idx ?low (grp @ h) (p, rest)"
    by (rule group_ok_merge [OF grp h edge]) (use x nonroot dist in_grp in auto)
  moreover have "list_all2 (group_ok g ?S D idx ?low) gs pending"
    by (rule groups_ok_cong [OF gs]) (use dist in_grp in auto)
  moreover have "stack_ok g (grp @ h @ concat gs) idx ?low"
    unfolding x(3) by (rule stack_ok_lower [OF ok x(1)]) (rule converse_rtrancl_into_rtrancl [OF edge x(4)])
  ultimately show ?thesis using inv link unfolding tj_inv_def by simp
qed

lemma tj_inv_last_root:
  assumes inv: "tj_inv g R [grp] [(node, [])] D idx low next cs"
  shows "low node = idx node"
proof -
  have grp: "grp \<noteq> []" "last grp = node" and ok: "stack_ok g grp idx low"
    using inv by (auto simp: tj_inv_def group_ok_def)
  have split: "grp = butlast grp @ [node]" using append_butlast_last_id [OF grp(1)] unfolding grp(2) by (rule sym)
  have least: "idx node \<le> idx w" if "w \<in> set grp" for w
  proof -
    have "sorted_wrt (\<lambda>a b. idx b < idx a) (butlast grp @ [node])" using ok split by (simp add: stack_ok_def)
    moreover have "w \<in> set (butlast grp @ [node])" using that split by simp
    ultimately show ?thesis by (auto simp: sorted_wrt_append)
  qed
  have "node \<in> set grp" using grp last_in_set by blast
  then obtain w where "w \<in> set grp" "low node \<le> idx node" "low node = idx w"
    using ok unfolding stack_ok_def by blast
  with least [of w] show ?thesis by simp
qed

section \<open>The algorithm keeps the invariant\<close>

definition tj_rel :: "'n graph_view \<Rightarrow> 'n set \<Rightarrow> ('n \<times> 'n list) list \<Rightarrow> 'n list list \<Rightarrow> 'n tarjan \<Rightarrow> bool" where
  "tj_rel g R pending groups t \<longleftrightarrow>
     tj_inv g R groups pending (dom (tj_index t)) (the \<circ> tj_index t) (the \<circ> tj_lowlink t)
       (tj_next_index t) (map scc_nodes (tj_components t)) \<and>
     tj_stack t = concat groups \<and> tj_on_stack t = set (concat groups) \<and>
     dom (tj_lowlink t) = dom (tj_index t)"

lemma the_map_upd: "the \<circ> m(k \<mapsto> v) = (the \<circ> m)(k := v)"
  by auto

lemma tj_rel_on_stack: "tj_rel g R pending groups t \<Longrightarrow> u \<in> set (concat groups) \<Longrightarrow>
    \<exists>i l. tj_index t u = Some i \<and> tj_lowlink t u = Some l"
  unfolding tj_rel_def tj_inv_def finished_ok_def by (metis domD subsetD)

lemma tj_rel_node: "tj_rel g R ((node, rest) # pending) groups t \<Longrightarrow> node \<in> set (concat groups)"
  by (auto simp: tj_rel_def tj_inv_def list_all2_Cons2 group_ok_def)

lemma pop_component_group:
  assumes "distinct (grp @ S)" "grp \<noteq> []" "last grp = node"
  shows "pop_component node (grp @ S) on acc = (S, on - set grp, acc @ grp)"
  using assms
proof (induction grp arbitrary: on acc)
  case (Cons x grp)
  show ?case
  proof (cases "grp = []")
    case True
    with Cons.prems show ?thesis by auto
  next
    case False
    with Cons.prems last_in_set [OF False] have "node \<noteq> x" by auto
    with Cons False show ?thesis by (auto simp: set_diff_eq)
  qed
qed simp

lemma tj_rel_push:
  assumes "tj_rel g R [] groups t" "tj_index t w = None" "w \<in> R"
  shows "tj_rel g R [(w, gv_successors g w)] [[w]] (tarjan_discover w t)"
proof -
  have "groups = []" using assms(1) by (auto simp: tj_rel_def tj_inv_def)
  with assms tj_inv_push [of g R "[]" "[]" "dom (tj_index t)" "the \<circ> tj_index t" "the \<circ> tj_lowlink t"
      "tj_next_index t" "map scc_nodes (tj_components t)" w "[]"]
  show ?thesis by (simp add: tj_rel_def tarjan_discover_def the_map_upd domIff)
qed

lemma tj_rel_discover:
  assumes "tj_rel g R ((node, w # rest) # pending) groups t" "tj_index t w = None" "gv_closed g R"
  shows "tj_rel g R ((w, gv_successors g w) # (node, rest) # pending) ([w] # groups) (tarjan_discover w t)"
  using assms tj_inv_discover [of g R groups node w rest pending "dom (tj_index t)" "the \<circ> tj_index t"
      "the \<circ> tj_lowlink t" "tj_next_index t" "map scc_nodes (tj_components t)"]
  by (simp add: tj_rel_def tarjan_discover_def the_map_upd domIff)

lemma tj_rel_back:
  assumes rel: "tj_rel g R ((node, w # rest) # pending) groups t"
    and w: "w \<in> tj_on_stack t" "tj_index t w = Some i"
  shows "\<exists>t'. lower_link node i t = Some t' \<and> tj_index t' = tj_index t \<and>
           tj_rel g R ((node, rest) # pending) groups t'"
proof -
  obtain l i' where l: "tj_index t node = Some i'" "tj_lowlink t node = Some l"
    using tj_rel_on_stack [OF rel tj_rel_node [OF rel]] by blast
  with rel w tj_inv_back [of g R groups node w rest pending "dom (tj_index t)" "the \<circ> tj_index t"
      "the \<circ> tj_lowlink t" "tj_next_index t" "map scc_nodes (tj_components t)"]
  show ?thesis by (auto simp: tj_rel_def lower_link_def the_map_upd)
qed

lemma tj_rel_cross:
  assumes "tj_rel g R ((node, w # rest) # pending) groups t" "w \<notin> tj_on_stack t" "tj_index t w = Some i"
  shows "tj_rel g R ((node, rest) # pending) groups t"
  using assms tj_inv_cross [of g R groups node w rest pending "dom (tj_index t)" "the \<circ> tj_index t"
      "the \<circ> tj_lowlink t" "tj_next_index t" "map scc_nodes (tj_components t)"]
  by (auto simp: tj_rel_def)

text \<open>Completing the root of a component, and completing any other node.\<close>

lemma tj_rel_complete_root:
  assumes rel: "tj_rel g R ((node, []) # pending) (grp # gs) t" and root: "tj_lowlink t node = tj_index t node"
  shows "\<exists>t'. tarjan_complete node t = Some t' \<and> tj_index t' = tj_index t \<and> tj_lowlink t' = tj_lowlink t \<and>
           tj_rel g R pending gs t'"
proof -
  obtain l where l: "tj_index t node = Some l" "tj_lowlink t node = Some l"
    using tj_rel_on_stack [OF rel tj_rel_node [OF rel]] root by auto
  have "stack_ok g (grp @ concat gs) (the \<circ> tj_index t) (the \<circ> tj_lowlink t)"
    using rel by (simp add: tj_rel_def tj_inv_def)
  then have dist: "distinct (grp @ concat gs)" by (rule stack_ok_distinct)
  have grp: "grp \<noteq> []" "last grp = node"
    using rel by (auto simp: tj_rel_def tj_inv_def group_ok_def)
  have pop: "pop_component node (tj_stack t) (tj_on_stack t) [] = (concat gs, set (concat gs), grp)"
    using pop_component_group [OF dist grp, of "tj_on_stack t" "[]"] dist rel
    by (auto simp: tj_rel_def)
  have "tj_inv g R gs pending (dom (tj_index t)) (the \<circ> tj_index t) (the \<circ> tj_lowlink t)
       (tj_next_index t) (map scc_nodes (tj_components t) @ [grp])"
    by (rule tj_inv_root) (use rel l in \<open>auto simp: tj_rel_def\<close>)
  with l pop rel show ?thesis by (simp add: tarjan_complete_def tj_rel_def)
qed

lemma tj_rel_complete_inner:
  assumes rel: "tj_rel g R ((node, []) # pending) groups t" and inner: "tj_lowlink t node \<noteq> tj_index t node"
  shows "tarjan_complete node t = Some t"
  using tj_rel_on_stack [OF rel tj_rel_node [OF rel]] inner by (auto simp: tarjan_complete_def)

lemma tj_rel_finish_node:
  assumes rel: "tj_rel g R ((node, []) # (p, rest) # pending) groups t"
  shows "\<exists>groups' t'. tarjan_step g ((node, []) # (p, rest) # pending) t = Some ((p, rest) # pending, t') \<and>
           tj_index t' = tj_index t \<and> tj_rel g R ((p, rest) # pending) groups' t'"
proof -
  obtain grp h gs where groups: "groups = grp # h # gs"
    using rel by (auto simp: tj_rel_def tj_inv_def list_all2_Cons2)
  have p_in: "p \<in> set h" and node_in: "node \<in> set grp"
    using rel by (auto simp: groups tj_rel_def tj_inv_def group_ok_def)
  obtain i l where node: "tj_index t node = Some i" "tj_lowlink t node = Some l"
    using tj_rel_on_stack [OF rel, of node] node_in by (auto simp: groups)
  obtain pi pl where p: "tj_index t p = Some pi" "tj_lowlink t p = Some pl"
    using tj_rel_on_stack [OF rel, of p] p_in by (auto simp: groups)
  have ok: "stack_ok g (grp @ h @ concat gs) (the \<circ> tj_index t) (the \<circ> tj_lowlink t)"
    using rel by (simp add: tj_rel_def tj_inv_def groups)
  show ?thesis
  proof (cases "l = i")
    case True
    obtain t' where t': "tarjan_complete node t = Some t'" "tj_index t' = tj_index t"
      "tj_lowlink t' = tj_lowlink t" "tj_rel g R ((p, rest) # pending) (h # gs) t'"
      using tj_rel_complete_root [OF rel [unfolded groups]] node True by auto
    have "pl \<le> pi" "pi < i"
      using stack_ok_less [OF ok, of node p] stack_ok_low [OF ok, of p] p_in node_in p node by auto
    with True p node have upd: "(tj_lowlink t)(p \<mapsto> min pl l) = tj_lowlink t" by (simp add: map_upd_triv)
    have "lower_link p l t' = Some t'" using t'(3) upd p by (cases t') (auto simp: lower_link_def)
    then have "tarjan_step g ((node, []) # (p, rest) # pending) t = Some ((p, rest) # pending, t')"
      using t' node by simp
    with t' show ?thesis by blast
  next
    case False
    then have "tarjan_complete node t = Some t"
      using tj_rel_complete_inner [OF rel] node by simp
    moreover have "tj_rel g R ((p, rest) # pending) ((grp @ h) # gs) (t\<lparr>tj_lowlink := (tj_lowlink t)(p \<mapsto> min pl l)\<rparr>)"
      using rel False p node tj_inv_merge [of g R grp h gs node p rest pending "dom (tj_index t)" "the \<circ> tj_index t"
      "the \<circ> tj_lowlink t" "tj_next_index t" "map scc_nodes (tj_components t)"]
      by (auto simp: tj_rel_def groups the_map_upd)
    ultimately show ?thesis using node p by (auto simp: lower_link_def)
  qed
qed

lemma tj_rel_finish_last:
  assumes rel: "tj_rel g R [(node, [])] groups t"
  shows "\<exists>t'. tarjan_step g [(node, [])] t = Some ([], t') \<and> tj_index t' = tj_index t \<and> tj_rel g R [] [] t'"
proof -
  obtain grp where groups: "groups = [grp]"
    using rel by (auto simp: tj_rel_def tj_inv_def list_all2_Cons2)
  have "(the \<circ> tj_lowlink t) node = (the \<circ> tj_index t) node"
    using rel unfolding tj_rel_def groups by (blast intro: tj_inv_last_root)
  then have "tj_lowlink t node = tj_index t node"
    using tj_rel_on_stack [OF rel tj_rel_node [OF rel]] by auto
  from tj_rel_complete_root [OF rel [unfolded groups] this] show ?thesis by auto
qed

section \<open>Termination\<close>

text \<open>What is left to do: nodes not yet discovered and edges not yet followed.\<close>

definition tj_work :: "'n graph_view \<Rightarrow> 'n set \<Rightarrow> ('n \<times> 'n list) list \<Rightarrow> 'n set \<Rightarrow> nat" where
  "tj_work g R pending D =
     (\<Sum>v\<in>R - D. Suc (length (gv_successors g v))) + (\<Sum>p\<leftarrow>pending. Suc (length (snd p)))"

lemma tj_work_discover:
  assumes "finite R" "w \<in> R" "w \<notin> D"
  shows "tj_work g R ((w, gv_successors g w) # pending) (insert w D) = tj_work g R pending D"
proof -
  have "(\<Sum>v\<in>R - D. Suc (length (gv_successors g v))) =
      Suc (length (gv_successors g w)) + (\<Sum>v\<in>R - D - {w}. Suc (length (gv_successors g v)))"
    by (rule sum.remove) (use assms in auto)
  moreover have "R - insert w D = R - D - {w}" by auto
  ultimately show ?thesis unfolding tj_work_def by simp
qed

lemma tarjan_step_progress:
  assumes rel: "tj_rel g R (p # ps) groups t" and R: "finite R" "gv_closed g R"
  obtains pending' groups' t' where "tarjan_step g (p # ps) t = Some (pending', t')"
    "tj_rel g R pending' groups' t'" "dom (tj_index t) \<subseteq> dom (tj_index t')"
    "tj_work g R (p # ps) (dom (tj_index t)) = Suc (tj_work g R pending' (dom (tj_index t')))"
proof -
  obtain node todo where p: "p = (node, todo)" by fastforce
  show thesis
  proof (cases todo)
    case (Cons w rest)
    note rel = rel [unfolded p Cons]
    show thesis
    proof (cases "tj_index t w")
      case None
      note rel' = tj_rel_discover [OF rel None R(2)]
      then have "w \<in> R" by (auto simp: tj_rel_def tj_inv_def tarjan_discover_def)
      from tj_work_discover [OF R(1) this, of "dom (tj_index t)" g "(node, rest) # ps"] None
      have "tj_work g R (p # ps) (dom (tj_index t)) =
          Suc (tj_work g R ((w, gv_successors g w) # (node, rest) # ps) (dom (tj_index (tarjan_discover w t))))"
        by (simp add: tarjan_discover_def domIff p Cons) (simp add: tj_work_def)
      then show thesis
        by (intro that [OF _ rel']) (use None p Cons in \<open>auto simp: tarjan_discover_def\<close>)
    next
      case (Some i)
      have work: "tj_work g R (p # ps) D = Suc (tj_work g R ((node, rest) # ps) D)" for D
        by (simp add: p Cons tj_work_def)
      show thesis
      proof (cases "w \<in> tj_on_stack t")
        case True
        with tj_rel_back [OF rel True Some] obtain t' where t': "lower_link node i t = Some t'"
          "tj_index t' = tj_index t" "tj_rel g R ((node, rest) # ps) groups t'" by blast
        show thesis by (rule that [OF _ t'(3)]) (use t' Some True work p Cons in simp_all)
      next
        case False
        show thesis
          by (rule that [OF _ tj_rel_cross [OF rel False Some]]) (use Some False work p Cons in simp_all)
      qed
    qed
  next
    case todo: Nil
    have work: "tj_work g R (p # ps) D = Suc (tj_work g R ps D)" for D
      by (simp add: p todo tj_work_def)
    note rel = rel [unfolded p todo]
    show thesis
    proof (cases ps)
      case Nil
      from tj_rel_finish_last [OF rel [unfolded Nil]] obtain t' where
        t': "tarjan_step g [(node, [])] t = Some ([], t')" "tj_index t' = tj_index t" "tj_rel g R [] [] t'" by blast
      show thesis by (rule that [OF _ t'(3)]) (use t' work [unfolded Nil] p todo Nil in simp_all)
    next
      case (Cons q qs)
      obtain parent rest where q: "q = (parent, rest)" by fastforce
      from tj_rel_finish_node [OF rel [unfolded Cons q]] obtain groups' t' where
        t': "tarjan_step g ((node, []) # (parent, rest) # qs) t = Some ((parent, rest) # qs, t')"
          "tj_index t' = tj_index t" "tj_rel g R ((parent, rest) # qs) groups' t'" by blast
      show thesis
        by (rule that [OF t'(1) [folded q Cons, folded todo, folded p] t'(3) [folded q Cons]])
          (use t'(2) work in simp_all)
    qed
  qed
qed

lemma tarjan_loop_finishes:
  assumes "tj_rel g R pending groups t" "finite R" "gv_closed g R" "tj_work g R pending (dom (tj_index t)) \<le> fuel"
  shows "\<exists>t'. tarjan_loop fuel g pending t = Some t' \<and> tj_rel g R [] [] t' \<and> dom (tj_index t) \<subseteq> dom (tj_index t')"
  using assms(1,4)
proof (induction fuel arbitrary: pending groups t)
  case 0
  then have "pending = []" by (cases pending) (auto simp: tj_work_def)
  with 0 show ?case by (auto simp: tj_rel_def tj_inv_def)
next
  case (Suc fuel)
  show ?case
  proof (cases pending)
    case Nil
    with Suc.prems show ?thesis by (auto simp: tj_rel_def tj_inv_def)
  next
    case (Cons p ps)
    from tarjan_step_progress [OF Suc.prems(1) [unfolded Cons] assms(2,3)] obtain pending' groups' t' where
      step: "tarjan_step g (p # ps) t = Some (pending', t')" "tj_rel g R pending' groups' t'"
        "dom (tj_index t) \<subseteq> dom (tj_index t')"
        "tj_work g R (p # ps) (dom (tj_index t)) = Suc (tj_work g R pending' (dom (tj_index t')))" .
    from Suc.prems(2) step(4) have "tj_work g R pending' (dom (tj_index t')) \<le> fuel" by (simp add: Cons)
    from Suc.IH [OF step(2) this] step(1,3) show ?thesis by (auto simp: Cons)
  qed
qed

lemma tarjan_visit_finishes:
  assumes "tj_rel g R [] [] t" "tj_index t w = None" "w \<in> R" "finite R" "gv_closed g R"
    and "(\<Sum>v\<in>R. Suc (length (gv_successors g v))) \<le> fuel"
  shows "\<exists>t'. tarjan_visit fuel g w t = Some t' \<and> tj_rel g R [] [] t' \<and> insert w (dom (tj_index t)) \<subseteq> dom (tj_index t')"
proof -
  let ?t = "tarjan_discover w t"
  have dom: "dom (tj_index ?t) = insert w (dom (tj_index t))" by (simp add: tarjan_discover_def)
  have "tj_work g R [(w, gv_successors g w)] (dom (tj_index ?t)) = tj_work g R [] (dom (tj_index t))"
    unfolding dom by (rule tj_work_discover) (use assms in \<open>auto simp: domIff\<close>)
  also have "\<dots> \<le> (\<Sum>v\<in>R. Suc (length (gv_successors g v)))"
    unfolding tj_work_def using assms(4) by (simp add: sum_mono2 del: sum.distrib)
  also note assms(6)
  finally show ?thesis
    using tarjan_loop_finishes [OF tj_rel_push [OF assms(1-3)] assms(4,5)] by (simp add: tarjan_visit_def dom)
qed

lemma strongly_connected_components_result:
  assumes bounded: "gv_bounded g R (gv_nodes g)"
    and fuel: "(\<Sum>v\<in>R. Suc (length (gv_successors g v))) \<le> fuel"
  shows "\<exists>cs. strongly_connected_components fuel g = Some cs \<and> emitted g (map scc_nodes cs) \<and>
           set (concat (map scc_nodes cs)) = gv_reach g (set (gv_nodes g))"
proof -
  let ?Q = "gv_reach g (set (gv_nodes g))"
  let ?t0 = "\<lparr>tj_next_index = 0, tj_index = Map.empty, tj_lowlink = Map.empty,
           tj_stack = [], tj_on_stack = {}, tj_components = []\<rparr>"
  let ?body = "\<lambda>node t. if tj_index t node = None then tarjan_visit fuel g node t else Some t"
  have sub: "?Q \<subseteq> R" and fin: "finite R" using bounded gv_bounded_reach by (auto simp: gv_bounded_def)
  then have Q: "finite ?Q" "gv_closed g ?Q" by (auto intro: finite_subset gv_closed_reach)
  have fuel': "(\<Sum>v\<in>?Q. Suc (length (gv_successors g v))) \<le> fuel"
    using sum_mono2 [OF fin sub, of "\<lambda>v. Suc (length (gv_successors g v))"] fuel by simp
  have "\<exists>t. for_each ?body (gv_nodes g) ?t0 = Some t \<and>
      (tj_rel g ?Q [] [] t \<and> set (gv_nodes g) \<subseteq> dom (tj_index t))"
  proof (rule for_each_rule [where I = "\<lambda>ys t. tj_rel g ?Q [] [] t \<and> set ys \<subseteq> dom (tj_index t)"])
    show "tj_rel g ?Q [] [] ?t0 \<and> set [] \<subseteq> dom (tj_index ?t0)"
      by (simp add: tj_rel_def tj_inv_def stack_ok_def finished_ok_def emitted_def gv_closed_def)
  next
    fix ys x zs t
    assume split: "gv_nodes g = ys @ x # zs" and "tj_rel g ?Q [] [] t \<and> set ys \<subseteq> dom (tj_index t)"
    then have t: "tj_rel g ?Q [] [] t" "set ys \<subseteq> dom (tj_index t)" and x: "x \<in> ?Q"
      by (auto intro: gv_reach_self)
    show "\<exists>t'. ?body x t = Some t' \<and> tj_rel g ?Q [] [] t' \<and> set (ys @ [x]) \<subseteq> dom (tj_index t')"
    proof (cases "tj_index t x")
      case None
      from tarjan_visit_finishes [OF t(1) None x Q fuel'] obtain t' where "tarjan_visit fuel g x t = Some t'"
        "tj_rel g ?Q [] [] t'" "insert x (dom (tj_index t)) \<subseteq> dom (tj_index t')" by blast
      moreover from this(3) t(2) have "set (ys @ [x]) \<subseteq> dom (tj_index t')" by auto
      ultimately show ?thesis using None by simp
    next
      case (Some i)
      with t show ?thesis by auto
    qed
  qed
  then obtain t where t: "for_each ?body (gv_nodes g) ?t0 = Some t" "tj_rel g ?Q [] [] t"
    "set (gv_nodes g) \<subseteq> dom (tj_index t)" by blast
  have D: "dom (tj_index t) = set (concat (map scc_nodes (tj_components t)))" "gv_closed g (dom (tj_index t))"
    "emitted g (map scc_nodes (tj_components t))" "dom (tj_index t) \<subseteq> ?Q"
    using t(2) unfolding tj_rel_def tj_inv_def finished_ok_def concat.simps list.set(1) Diff_empty by blast+
  have "?Q \<subseteq> dom (tj_index t)" by (rule gv_reach_least [OF D(2) t(3)])
  with D t(1) show ?thesis unfolding strongly_connected_components_def by (intro exI [of _ "tj_components t"]) simp
qed

section \<open>Properties\<close>

text \<open>
  C15: with as many iterations as there are nodes and edges to look at, the algorithm returns;
  the components it returns are disjoint, hold exactly the nodes reachable from the listed
  ones, and each is a class of mutually reachable nodes.
\<close>

theorem scc_partition:
  assumes "gv_bounded g R (gv_nodes g)" "(\<Sum>v\<in>R. Suc (length (gv_successors g v))) \<le> fuel"
  shows "\<exists>cs. strongly_connected_components fuel g = Some cs \<and>
           distinct (concat (map scc_nodes cs)) \<and>
           set (concat (map scc_nodes cs)) = gv_reach g (set (gv_nodes g)) \<and>
           (\<forall>c\<in>set cs. \<forall>x\<in>set (scc_nodes c). set (scc_nodes c) = gv_scc g x)"
proof -
  obtain cs where cs: "strongly_connected_components fuel g = Some cs" "emitted g (map scc_nodes cs)"
    "set (concat (map scc_nodes cs)) = gv_reach g (set (gv_nodes g))"
    using strongly_connected_components_result [OF assms] by blast
  have "set (scc_nodes c) = gv_scc g x" if "c \<in> set cs" "x \<in> set (scc_nodes c)" for c x
    using emitted_class [OF cs(2)] that by simp
  with cs show ?thesis by (auto simp: emitted_def)
qed

theorem scc_partition_witness:
  "strongly_connected_components 9 sample_view = Some [Scc [3, 1], Scc [2], Scc [0]] \<and>
   gv_scc sample_view 1 = {1, 3}"
proof -
  have run: "strongly_connected_components 9 sample_view = Some [Scc [3, 1], Scc [2], Scc [0]]" by code_simp
  have "(\<Sum>v\<in>{0, 1, 2, 3}. Suc (length (gv_successors sample_view v))) \<le> 9" by code_simp
  with scc_partition [of sample_view "{0, 1, 2, 3}" 9] sample_view_nodes_bounded run
  have "set (scc_nodes (Scc [3, 1])) = gv_scc sample_view 1" by force
  with run show ?thesis by auto
qed

text \<open>
  C25: the components come in reverse topological order of the condensed graph: an edge out of
  a component leads to the same component or to one returned before it.
\<close>

theorem scc_order:
  assumes "gv_bounded g R (gv_nodes g)" "(\<Sum>v\<in>R. Suc (length (gv_successors g v))) \<le> fuel"
    and "strongly_connected_components fuel g = Some cs"
    and "i < length cs" "x \<in> set (scc_nodes (cs ! i))" "(x, y) \<in> (gv_edges g)\<^sup>*"
  shows "\<exists>j\<le>i. y \<in> set (scc_nodes (cs ! j))"
proof -
  have cs: "emitted g (map scc_nodes cs)"
    using strongly_connected_components_result [OF assms(1,2)] assms(3) by auto
  from assms(6) show ?thesis
  proof (induction rule: rtrancl_induct)
    case base
    with assms(5) show ?case by blast
  next
    case (step y z)
    then obtain j where j: "j \<le> i" "y \<in> set (map scc_nodes cs ! j)" using assms(4) by auto
    moreover have "z \<in> set (gv_successors g y)" using step(2) by (simp add: gv_edges_def)
    ultimately obtain k where "k \<le> j" "z \<in> set (map scc_nodes cs ! k)"
      using emitted_order [OF cs, of j y z] assms(4) by auto
    with j(1) assms(4) show ?case by (intro exI [of _ k]) auto
  qed
qed

theorem scc_order_witness:
  "\<exists>j\<le>2. (3::nat) \<in> set (scc_nodes ([Scc [3, 1], Scc [2], Scc [0]] ! j))"
proof (rule scc_order [where x = 0])
  show "gv_bounded sample_view {0, 1, 2, 3} (gv_nodes sample_view)" by (rule sample_view_nodes_bounded)
  show "(\<Sum>v\<in>{0, 1, 2, 3}. Suc (length (gv_successors sample_view v))) \<le> 9" by code_simp
  show "strongly_connected_components 9 sample_view = Some [Scc [3, 1], Scc [2], Scc [0]]" by code_simp
  have "(0, 1) \<in> gv_edges sample_view" "(1, 3) \<in> gv_edges sample_view"
    by (simp_all add: gv_edges_def sample_view_def)
  then show "(0, 3) \<in> (gv_edges sample_view)\<^sup>*"
    by (rule converse_rtrancl_into_rtrancl [OF _ r_into_rtrancl])
qed simp_all

end
