(* ===== verification/Slots.thy ===== *)
theory Slots
  imports Prelude
begin

text \<open>
  \<open>Vec<Option<T>>\<close> indexed by a 32-bit identifier, as \<open>graph/storage.rs\<close> and
  \<open>graph/use_list.rs\<close> use it: \<open>slot\<close> is \<open>get(id.index()).and_then(Option::as_ref)\<close>, \<open>live\<close>
  the identifiers of the occupied slots in index order (\<open>enumerate().filter_map(..)\<close>).
  Identifiers are 32 bits wide while the vectors may be longer, so most lemmas bound the
  length by \<open>id_bound\<close>, the number of identifiers.
\<close>

definition id_bound :: nat where
  "id_bound = 2 ^ 32"

definition slot :: "'a option list \<Rightarrow> u32 \<Rightarrow> 'a option" where
  "slot xs i = (if unat i < length xs then xs ! unat i else None)"

definition live :: "'a option list \<Rightarrow> u32 list" where
  "live xs = map of_nat (filter (\<lambda>i. xs ! i \<noteq> None) [0..<length xs])"

definition next_id :: "'a list \<Rightarrow> u32" where
  "next_id xs = of_nat (min (length xs) (id_bound - 1))"

lemma next_id_code [code]: "next_id xs = word_of_int (min (int (length xs)) 4294967295)"
proof -
  have "int (min (length xs) (id_bound - 1)) = min (int (length xs)) 4294967295" by (simp add: id_bound_def)
  then show ?thesis unfolding next_id_def by (metis of_int_of_nat_eq)
qed

lemma unat_of_nat_id: "n < id_bound \<Longrightarrow> unat (of_nat n :: u32) = n"
  by (simp add: id_bound_def unsigned_of_nat take_bit_eq_mod)

lemma unat_less_id_bound: "unat (i :: u32) < id_bound"
proof -
  have "unat i < 2 ^ LENGTH(32)" by (rule unsigned_less)
  then show ?thesis by (simp add: id_bound_def)
qed

lemma unat_next_id: "length xs < id_bound \<Longrightarrow> unat (next_id xs) = length xs"
  unfolding next_id_def by (subst unat_of_nat_id) auto

lemma unat_neq: "i \<noteq> j \<Longrightarrow> unat (i :: u32) \<noteq> unat j"
  using unsigned_word_eqI by blast

lemma slot_update: "slot (xs[unat i := v]) j = (if j = i \<and> unat i < length xs then v else slot xs j)"
  by (cases "j = i") (simp_all add: slot_def unat_neq)

lemma slot_Some_less: "slot xs i = Some x \<Longrightarrow> unat i < length xs"
  by (simp add: slot_def split: if_splits)

lemma slot_out: "\<not> unat i < length xs \<Longrightarrow> slot xs i = None"
  by (simp add: slot_def)

lemma slot_append: "slot (xs @ [v]) i = (if unat i = length xs then v else slot xs i)"
  by (auto simp: slot_def nth_append)

lemma slot_next_id: "length xs < id_bound \<Longrightarrow> slot xs (next_id xs) = None"
  by (simp add: slot_def unat_next_id)

lemma slot_push:
  "length xs < id_bound \<Longrightarrow> slot (xs @ [v]) i = (if i = next_id xs then v else slot xs i)"
  using unat_next_id [of xs] by (auto simp: slot_append) (metis unsigned_word_eqI)

lemma live_iff: "length xs \<le> id_bound \<Longrightarrow> i \<in> set (live xs) \<longleftrightarrow> slot xs i \<noteq> None"
proof
  assume "length xs \<le> id_bound" "i \<in> set (live xs)"
  then obtain k where "k < length xs" "xs ! k \<noteq> None" "i = of_nat k" "unat i = k"
    by (auto simp: live_def unat_of_nat_id)
  then show "slot xs i \<noteq> None" by (simp add: slot_def)
next
  assume "slot xs i \<noteq> None"
  then have "unat i < length xs" "xs ! unat i \<noteq> None" by (auto simp: slot_def split: if_splits)
  then have "(of_nat (unat i) :: u32) \<in> of_nat ` set (filter (\<lambda>i. xs ! i \<noteq> None) [0..<length xs])"
    by (intro imageI) simp
  then show "i \<in> set (live xs)" by (simp add: live_def)
qed

lemma live_Some: "length xs \<le> id_bound \<Longrightarrow> slot xs i = Some x \<Longrightarrow> i \<in> set (live xs)"
  by (simp add: live_iff)

lemma distinct_live: "length xs \<le> id_bound \<Longrightarrow> distinct (live xs)"
  unfolding live_def distinct_map
  by (intro conjI inj_onI) (auto, metis less_le_trans unat_of_nat_id)

lemma length_live: "length (live xs) \<le> length xs"
proof -
  have "length (filter (\<lambda>i. xs ! i \<noteq> None) [0..<length xs]) \<le> length [0..<length xs]"
    by (rule length_filter_le)
  then show ?thesis by (simp add: live_def)
qed

lemma live_push: "length xs < id_bound \<Longrightarrow> live (xs @ [Some x]) = live xs @ [next_id xs]"
proof -
  assume "length xs < id_bound"
  then have "min (length xs) (id_bound - 1) = length xs" by simp
  moreover have "filter (\<lambda>k. (xs @ [Some x]) ! k \<noteq> None) [0..<length xs] = filter (\<lambda>k. xs ! k \<noteq> None) [0..<length xs]"
    by (rule filter_cong) (simp_all add: nth_append)
  ultimately show ?thesis unfolding live_def next_id_def by simp
qed

lemma live_update: "slot xs i = Some x \<Longrightarrow> live (xs[unat i := Some y]) = live xs"
  unfolding live_def
  by (intro arg_cong [where f = "map of_nat"] filter_cong) (auto simp: slot_def nth_list_update split: if_splits)

lemma live_remove:
  assumes "length xs \<le> id_bound"
  shows "live (xs[unat i := None]) = filter (\<lambda>j. j \<noteq> i) (live xs)"
proof -
  have "xs[unat i := None] ! k \<noteq> None \<longleftrightarrow> xs ! k \<noteq> None \<and> (of_nat k :: u32) \<noteq> i" if "k < length xs" for k
  proof (cases "k = unat i")
    case True
    with that show ?thesis by simp
  next
    case False
    then have "(of_nat k :: u32) \<noteq> i" using that assms unat_of_nat_id [of k] by auto
    with False show ?thesis by simp
  qed
  then have "filter (\<lambda>k. xs[unat i := None] ! k \<noteq> None) [0..<length xs] =
      filter (\<lambda>k. xs ! k \<noteq> None \<and> (of_nat k :: u32) \<noteq> i) [0..<length xs]"
    by (intro filter_cong) auto
  then show ?thesis by (simp add: live_def filter_map o_def conj_commute)
qed

section \<open>Slots that agree on a projection\<close>

definition same :: "('a \<Rightarrow> 'b) \<Rightarrow> 'a option list \<Rightarrow> 'a option list \<Rightarrow> bool" where
  "same p xs ys \<longleftrightarrow> map (map_option p) xs = map (map_option p) ys"

lemma same_refl [simp]: "same p xs xs"
  by (simp add: same_def)

lemma same_sym: "same p xs ys \<Longrightarrow> same p ys xs"
  by (simp add: same_def)

lemma same_trans: "same p xs ys \<Longrightarrow> same p ys zs \<Longrightarrow> same p xs zs"
  by (simp add: same_def)

lemma same_proj:
  assumes "same p xs ys"
  shows "same (\<lambda>x. q (p x)) xs ys"
proof -
  have "map (map_option q) (map (map_option p) xs) = map (map_option q) (map (map_option p) ys)"
    using assms by (simp only: same_def)
  then show ?thesis by (simp add: same_def option.map_comp o_def)
qed

lemma same_length: "same p xs ys \<Longrightarrow> length xs = length ys"
  unfolding same_def by (rule map_eq_imp_length_eq)

lemma same_nth:
  assumes "same p xs ys" "k < length xs"
  shows "map_option p (xs ! k) = map_option p (ys ! k)"
proof -
  have "map (map_option p) xs ! k = map (map_option p) ys ! k" using assms(1) by (simp add: same_def)
  with assms(2) same_length [OF assms(1)] show ?thesis by simp
qed

lemma same_slot: "same p xs ys \<Longrightarrow> map_option p (slot xs i) = map_option p (slot ys i)"
  using same_length [of p xs ys] same_nth [of p xs ys "unat i"] by (auto simp: slot_def)

lemma same_slot_Some: "same p xs ys \<Longrightarrow> slot xs i = Some x \<Longrightarrow> \<exists>y. slot ys i = Some y \<and> p y = p x"
  using same_slot [of p xs ys i] by (cases "slot ys i") auto

lemma same_None: "same p xs ys \<Longrightarrow> slot ys i = None \<longleftrightarrow> slot xs i = None"
  using same_slot [of p xs ys i] by (cases "slot xs i"; cases "slot ys i") auto

lemma same_live:
  assumes "same p xs ys"
  shows "live xs = live ys"
proof -
  have "xs ! k \<noteq> None \<longleftrightarrow> ys ! k \<noteq> None" if "k < length xs" for k
    using same_nth [OF assms that] by (cases "xs ! k"; cases "ys ! k") auto
  then show ?thesis unfolding live_def same_length [OF assms]
    by (intro arg_cong [where f = "map of_nat"] filter_cong) (auto simp: same_length [OF assms])
qed

lemma same_update: "slot xs i = Some x \<Longrightarrow> p y = p x \<Longrightarrow> same p xs (xs[unat i := Some y])"
  unfolding same_def map_update
  by (rule sym, subst list_update_same_conv) (auto simp: slot_def split: if_splits)

lemma same_update_map:
  assumes "\<And>x. p (f x) = p x"
  shows "same p xs (xs[unat i := map_option f (slot xs i)])"
proof (cases "slot xs i")
  case None
  then have "xs[unat i := None] = xs"
    by (cases "unat i < length xs") (simp_all add: slot_def list_update_same_conv list_update_beyond)
  with None show ?thesis by simp
next
  case (Some x)
  with assms show ?thesis by (simp add: same_update)
qed

lemma same_update_both: "same p xs ys \<Longrightarrow> same p (xs[i := v]) (ys[i := v])"
  by (simp add: same_def map_update)

text \<open>At most one occupied slot changed by an updater.\<close>

definition relinked :: "('v \<Rightarrow> 'a \<Rightarrow> 'a) \<Rightarrow> 'a option list \<Rightarrow> 'a option list \<Rightarrow> bool" where
  "relinked f xs ys \<longleftrightarrow> ys = xs \<or> (\<exists>i x v. slot xs i = Some x \<and> ys = xs[unat i := Some (f v x)])"

lemma relinked_same: "relinked f xs ys \<Longrightarrow> (\<And>v x. p (f v x) = p x) \<Longrightarrow> same p xs ys"
  unfolding relinked_def by (auto intro: same_update)

section \<open>The contents of slots\<close>

text \<open>The occupied slots in order, each with what a projection keeps of its record.\<close>

definition entries :: "('a \<Rightarrow> 'b) \<Rightarrow> 'a option list \<Rightarrow> (u32 \<times> 'b) list" where
  "entries p xs = map (\<lambda>i. (i, p (the (slot xs i)))) (live xs)"

lemma fst_entries: "map fst (entries p xs) = live xs"
  by (simp add: entries_def o_def)

lemma entries_same:
  assumes "same p xs ys" "length xs \<le> id_bound"
  shows "entries p ys = entries p xs"
  unfolding entries_def same_live [OF assms(1), symmetric]
proof (rule map_cong [OF refl])
  fix i assume "i \<in> set (live xs)"
  then obtain x where "slot xs i = Some x" using assms(2) by (auto simp: live_iff)
  with same_slot_Some [OF assms(1) this] show "(i, p (the (slot ys i))) = (i, p (the (slot xs i)))" by auto
qed

lemma entries_push:
  assumes "length xs < id_bound"
  shows "entries p (xs @ [Some x]) = entries p xs @ [(next_id xs, p x)]"
proof -
  have "i \<noteq> next_id xs" if "i \<in> set (live xs)" for i
    using that slot_next_id [OF assms] assms by (auto simp: live_iff)
  then show ?thesis by (simp add: entries_def live_push [OF assms] slot_push [OF assms])
qed

lemma entries_remove:
  assumes "length xs \<le> id_bound"
  shows "entries p (xs[unat i := None]) = filter (\<lambda>(j, _). j \<noteq> i) (entries p xs)"
proof -
  have "map (\<lambda>j. (j, p (the (slot (xs[unat i := None]) j)))) (filter (\<lambda>j. j \<noteq> i) (live xs)) =
      map (\<lambda>j. (j, p (the (slot xs j)))) (filter (\<lambda>j. j \<noteq> i) (live xs))"
    by (rule map_cong) (auto simp: slot_update)
  then show ?thesis by (simp add: entries_def live_remove [OF assms] filter_map o_def)
qed

lemma map_of_entries:
  assumes "length xs \<le> id_bound"
  shows "map_of (entries p xs) i = map_option p (slot xs i)"
proof (cases "slot xs i")
  case None
  then have "i \<notin> fst ` set (entries p xs)" using assms by (auto simp: entries_def live_iff)
  with None show ?thesis by (simp add: map_of_eq_None_iff)
next
  case (Some x)
  then have "(i, p x) \<in> set (entries p xs)" using live_Some [OF assms Some] by (force simp: entries_def)
  moreover have "distinct (map fst (entries p xs))" by (simp add: fst_entries distinct_live assms)
  ultimately show ?thesis using Some by simp
qed

lemma entries_iff:
  assumes "length xs \<le> id_bound"
  shows "(i, d) \<in> set (entries p xs) \<longleftrightarrow> (\<exists>x. slot xs i = Some x \<and> d = p x)"
  using assms by (auto simp: entries_def live_iff image_iff)

end
