(* ===== verification/Chains.thy ===== *)
theory Chains
  imports Slots
begin

text \<open>
  Intrusive linked lists: records in slots that name the next record by identifier. Both
  \<open>Graph\<close> (edges of a node) and \<open>UseList\<close> (uses of an operand) keep such lists. \<open>chain\<close>
  says which identifiers a list holds; \<open>chain_walk\<close> is the loop that follows the links. It
  takes a bound on its iterations: \<open>None\<close> is the bound being reached.
\<close>

fun chain :: "('a \<Rightarrow> u32 option) \<Rightarrow> 'a option list \<Rightarrow> u32 option \<Rightarrow> u32 list \<Rightarrow> bool" where
  "chain nx es c [] = (c = None)"
| "chain nx es c (e # l) = (c = Some e \<and> (case slot es e of None \<Rightarrow> False | Some ed \<Rightarrow> chain nx es (nx ed) l))"

fun chain_walk :: "('a \<Rightarrow> u32 option) \<Rightarrow> nat \<Rightarrow> 'a option list \<Rightarrow> u32 option \<Rightarrow> u32 list option" where
  "chain_walk nx fuel es None = Some []"
| "chain_walk nx 0 es (Some e) = None"
| "chain_walk nx (Suc fuel) es (Some e) =
     (case slot es e of
        None \<Rightarrow> Some []
      | Some ed \<Rightarrow> map_option (Cons e) (chain_walk nx fuel es (nx ed)))"

lemma chain_walk_eq: "chain nx es c l \<Longrightarrow> length l \<le> fuel \<Longrightarrow> chain_walk nx fuel es c = Some l"
proof (induction l arbitrary: c fuel)
  case (Cons e l)
  then obtain k where "fuel = Suc k" by (cases fuel) auto
  with Cons show ?case by (auto split: option.splits)
qed simp

lemma chain_live: "chain nx es c l \<Longrightarrow> e \<in> set l \<Longrightarrow> slot es e \<noteq> None"
  by (induction l arbitrary: c) (auto split: option.splits)

lemma chain_start: "chain nx es c l \<Longrightarrow> c = (case l of [] \<Rightarrow> None | e # _ \<Rightarrow> Some e)"
  by (cases l) auto

lemma chain_cong:
  "(\<And>e. e \<in> set l \<Longrightarrow> map_option nx (slot es' e) = map_option nx (slot es e)) \<Longrightarrow>
    chain nx es' c l = chain nx es c l"
proof (induction l arbitrary: c)
  case (Cons e l)
  from Cons.prems [of e] have "map_option nx (slot es' e) = map_option nx (slot es e)" by simp
  moreover have "chain nx es' c' l = chain nx es c' l" for c' by (rule Cons.IH) (simp add: Cons.prems)
  ultimately show ?case by (cases "slot es' e"; cases "slot es e") simp_all
qed simp

text \<open>The part of a chain behind one of its records, and the record in front of it.\<close>

lemma chain_behind: "chain nx es c (p @ e # l) \<Longrightarrow> slot es e = Some ed \<Longrightarrow> chain nx es (nx ed) l"
  by (induction p arbitrary: c) (auto split: option.splits)

lemma chain_front:
  "chain nx es c (p @ e # l) \<Longrightarrow> p \<noteq> [] \<Longrightarrow> slot es (last p) = Some x \<Longrightarrow> nx x = Some e"
proof (induction p arbitrary: c)
  case (Cons a p)
  then show ?case by (cases p) (auto split: option.splits)
qed simp

text \<open>Taking a record out of a chain: the link in front of it is set to the one behind it.\<close>

lemma chain_skip_first: "chain nx es c (e # l) \<Longrightarrow> slot es e = Some ed \<Longrightarrow> chain nx es (nx ed) l"
  by simp

lemma chain_skip:
  assumes "chain nx es c (p @ e # l)" "distinct (p @ e # l)" "p \<noteq> []" "slot es e = Some ed"
    and "slot es (last p) = Some x" "nx x' = nx ed"
  shows "chain nx (es[unat (last p) := Some x']) c (p @ l)"
  using assms
proof (induction p arbitrary: c)
  case (Cons a p)
  have len: "unat (last (a # p)) < length es" using Cons.prems(5) by (rule slot_Some_less)
  show ?case
  proof (cases "p = []")
    case True
    with Cons.prems have "chain nx es (nx ed) l" "a \<notin> set l" by (auto split: option.splits)
    moreover have "chain nx (es[unat a := Some x']) (nx ed) l = chain nx es (nx ed) l"
      by (rule chain_cong) (use calculation(2) in \<open>auto simp: slot_update\<close>)
    ultimately show ?thesis using True Cons.prems len by (auto simp: slot_update)
  next
    case False
    then have "last p \<in> set p" by simp
    with Cons.prems False have "a \<noteq> last p" by auto
    with Cons False len show ?thesis by (auto simp: slot_update split: option.splits)
  qed
qed simp

text \<open>Putting a record in front of a chain.\<close>

lemma chain_push:
  assumes "chain nx es c l" "length es < id_bound" "nx ed = c"
  shows "chain nx (es @ [Some ed]) (Some (next_id es)) (next_id es # l)"
proof -
  have "next_id es \<notin> set l" using assms(1,2) chain_live slot_next_id by blast
  then have "chain nx (es @ [Some ed]) c l = chain nx es c l"
    by (intro chain_cong) (auto simp: slot_push [OF assms(2)])
  with assms show ?thesis by (simp add: slot_push)
qed

text \<open>Putting a record behind a chain.\<close>

lemma chain_extend:
  assumes "chain nx es c q" "q \<noteq> []" "distinct q" "x \<notin> set q" "slot es (last q) = Some y" "nx y' = Some x"
    and "slot es x = Some xd" "nx xd = None"
  shows "chain nx (es[unat (last q) := Some y']) c (q @ [x])"
  using assms
proof (induction q arbitrary: c)
  case (Cons a q)
  have len: "unat (last (a # q)) < length es" using Cons.prems(5) by (rule slot_Some_less)
  show ?case
  proof (cases "q = []")
    case True
    with Cons.prems len show ?thesis by (auto simp: slot_update)
  next
    case False
    then have "last q \<in> set q" by simp
    with Cons.prems False have "a \<noteq> last q" by auto
    with Cons False len show ?thesis by (auto simp: slot_update split: option.splits)
  qed
qed simp

end
