(* ===== verification/Storage.thy ===== *)
theory Storage
  imports Chains GraphView
begin

text \<open>
  \<open>etas_utils/src/graph/storage.rs\<close>: a mutable multigraph. Nodes and edges sit in vectors of
  optional slots; the edges leaving and entering a node are two singly linked lists threaded
  through the edges, newest edge first. Observers are told of every change; they read the
  graph and update themselves through \<open>on_change\<close>, a parameter of the operations, and
  \<open>notify\<close> takes them out of the graph while it runs. Identifiers are 32-bit words.

  An operation that may panic (an index out of range, a counter below zero) or never return
  (a cyclic list) has an \<open>option\<close> result with \<open>None\<close> for these. A walk along a list is bounded
  by the number of edge slots: a longer walk has visited an edge twice and never ends.
\<close>

section \<open>The data\<close>

type_synonym node_id = u32
type_synonym edge_id = u32

record 'n gnode =
  nd_id :: node_id
  nd_value :: 'n
  nd_first_out :: "edge_id option"
  nd_first_in :: "edge_id option"

record 'e gedge =
  ed_id :: edge_id
  ed_source :: node_id
  ed_target :: node_id
  ed_value :: 'e
  ed_next_out :: "edge_id option"
  ed_next_in :: "edge_id option"

datatype graph_event =
    NodeAdded node_id
  | NodeRemoving node_id
  | NodeRemoved node_id
  | EdgeAdded edge_id node_id node_id
  | EdgeRemoving edge_id node_id node_id
  | EdgeRemoved edge_id node_id node_id

record ('n, 'e, 'o) graph =
  g_nodes :: "'n gnode option list"
  g_edges :: "'e gedge option list"
  g_live_nodes :: nat
  g_live_edges :: nat
  g_observers :: "'o list"

type_synonym ('n, 'e, 'o) on_change = "'o \<Rightarrow> ('n, 'e, 'o) graph \<Rightarrow> graph_event \<Rightarrow> 'o"

section \<open>Queries\<close>

definition graph_node :: "('n, 'e, 'o) graph \<Rightarrow> node_id \<Rightarrow> 'n gnode option" where
  "graph_node g node = slot (g_nodes g) node"

definition graph_edge :: "('n, 'e, 'o) graph \<Rightarrow> edge_id \<Rightarrow> 'e gedge option" where
  "graph_edge g edge = slot (g_edges g) edge"

definition contains_node :: "('n, 'e, 'o) graph \<Rightarrow> node_id \<Rightarrow> bool" where
  "contains_node g node \<longleftrightarrow> slot (g_nodes g) node \<noteq> None"

definition contains_edge :: "('n, 'e, 'o) graph \<Rightarrow> edge_id \<Rightarrow> bool" where
  "contains_edge g edge \<longleftrightarrow> slot (g_edges g) edge \<noteq> None"

definition node_value :: "('n, 'e, 'o) graph \<Rightarrow> node_id \<Rightarrow> 'n option" where
  "node_value g node = map_option nd_value (graph_node g node)"

definition edge_value :: "('n, 'e, 'o) graph \<Rightarrow> edge_id \<Rightarrow> 'e option" where
  "edge_value g edge = map_option ed_value (graph_edge g edge)"

definition endpoints :: "('n, 'e, 'o) graph \<Rightarrow> edge_id \<Rightarrow> (node_id \<times> node_id) option" where
  "endpoints g edge = map_option (\<lambda>ed. (ed_source ed, ed_target ed)) (graph_edge g edge)"

definition graph_nodes :: "('n, 'e, 'o) graph \<Rightarrow> node_id list" where
  "graph_nodes g = live (g_nodes g)"

definition graph_edges :: "('n, 'e, 'o) graph \<Rightarrow> edge_id list" where
  "graph_edges g = live (g_edges g)"

definition outgoing_edges :: "('n, 'e, 'o) graph \<Rightarrow> node_id \<Rightarrow> edge_id list option" where
  "outgoing_edges g node =
     chain_walk ed_next_out (Suc (length (g_edges g))) (g_edges g)
       (Option.bind (graph_node g node) nd_first_out)"

definition incoming_edges :: "('n, 'e, 'o) graph \<Rightarrow> node_id \<Rightarrow> edge_id list option" where
  "incoming_edges g node =
     chain_walk ed_next_in (Suc (length (g_edges g))) (g_edges g)
       (Option.bind (graph_node g node) nd_first_in)"

definition graph_successors :: "('n, 'e, 'o) graph \<Rightarrow> node_id \<Rightarrow> node_id list option" where
  "graph_successors g node =
     map_option (List.map_filter (\<lambda>edge. map_option ed_target (graph_edge g edge))) (outgoing_edges g node)"

definition graph_predecessors :: "('n, 'e, 'o) graph \<Rightarrow> node_id \<Rightarrow> node_id list option" where
  "graph_predecessors g node =
     map_option (List.map_filter (\<lambda>edge. map_option ed_source (graph_edge g edge))) (incoming_edges g node)"

definition node_count :: "('n, 'e, 'o) graph \<Rightarrow> nat" where
  "node_count g = g_live_nodes g"

definition edge_count :: "('n, 'e, 'o) graph \<Rightarrow> nat" where
  "edge_count g = g_live_edges g"

definition graph_is_empty :: "('n, 'e, 'o) graph \<Rightarrow> bool" where
  "graph_is_empty g \<longleftrightarrow> g_live_nodes g = 0"

section \<open>Changes\<close>

definition graph_new :: "('n, 'e, 'o) graph" where
  "graph_new = \<lparr>g_nodes = [], g_edges = [], g_live_nodes = 0, g_live_edges = 0, g_observers = []\<rparr>"

definition graph_observe :: "'o \<Rightarrow> ('n, 'e, 'o) graph \<Rightarrow> ('n, 'e, 'o) graph" where
  "graph_observe observer g = g\<lparr>g_observers := g_observers g @ [observer]\<rparr>"

definition graph_notify :: "('n, 'e, 'o) on_change \<Rightarrow> graph_event \<Rightarrow> ('n, 'e, 'o) graph \<Rightarrow> ('n, 'e, 'o) graph" where
  "graph_notify on_change event g =
     g\<lparr>g_observers := map (\<lambda>observer. on_change observer (g\<lparr>g_observers := []\<rparr>) event) (g_observers g)\<rparr>"

definition add_node :: "('n, 'e, 'o) on_change \<Rightarrow> 'n \<Rightarrow> ('n, 'e, 'o) graph \<Rightarrow> node_id \<times> ('n, 'e, 'o) graph" where
  "add_node on_change val g =
     (let node = next_id (g_nodes g);
          g' = g\<lparr>g_nodes := g_nodes g @ [Some \<lparr>nd_id = node, nd_value = val, nd_first_out = None, nd_first_in = None\<rparr>],
                 g_live_nodes := g_live_nodes g + 1\<rparr>
      in (node, graph_notify on_change (NodeAdded node) g'))"

text \<open>
  \<open>slots[id.index()].as_mut()?.field = v\<close>, where an index out of range panics. \<open>add_edge\<close> uses
  it on slots it has just found occupied, so the \<open>?\<close> never returns early.
\<close>

definition set_slot :: "('a \<Rightarrow> 'a) \<Rightarrow> u32 \<Rightarrow> 'a option list \<Rightarrow> 'a option list option" where
  "set_slot f i xs = (if unat i < length xs then Some (xs[unat i := map_option f (xs ! unat i)]) else None)"

definition add_edge :: "('n, 'e, 'o) on_change \<Rightarrow> node_id \<Rightarrow> node_id \<Rightarrow> 'e \<Rightarrow> ('n, 'e, 'o) graph \<Rightarrow>
    (edge_id option \<times> ('n, 'e, 'o) graph) option" where
  "add_edge on_change source target val g =
     (case (graph_node g source, graph_node g target) of
        (Some source_node, Some target_node) \<Rightarrow>
          (let edge = next_id (g_edges g);
               new = \<lparr>ed_id = edge, ed_source = source, ed_target = target, ed_value = val,
                      ed_next_out = nd_first_out source_node, ed_next_in = nd_first_in target_node\<rparr>
           in do {
             nodes \<leftarrow> set_slot (nd_first_out_update (\<lambda>_. Some edge)) source (g_nodes g);
             nodes \<leftarrow> set_slot (nd_first_in_update (\<lambda>_. Some edge)) target nodes;
             let g' = g\<lparr>g_edges := g_edges g @ [Some new], g_nodes := nodes,
                        g_live_edges := g_live_edges g + 1\<rparr>;
             Some (Some edge, graph_notify on_change (EdgeAdded edge source target) g')
           })
      | _ \<Rightarrow> Some (None, g))"

text \<open>
  The loop that looks for the edge in front of \<open>target_edge\<close> and redirects its link.
\<close>

fun relink :: "('e gedge \<Rightarrow> edge_id option) \<Rightarrow> (edge_id option \<Rightarrow> 'e gedge \<Rightarrow> 'e gedge) \<Rightarrow> nat \<Rightarrow>
    edge_id \<Rightarrow> edge_id option \<Rightarrow> 'e gedge option list \<Rightarrow> edge_id option \<Rightarrow> 'e gedge option list option" where
  "relink nx set_nx fuel target_edge replacement es None = Some es"
| "relink nx set_nx 0 target_edge replacement es (Some e) = None"
| "relink nx set_nx (Suc fuel) target_edge replacement es (Some e) =
     (if unat e < length es
      then (let following = Option.bind (es ! unat e) nx
            in if following = Some target_edge
               then Some (es[unat e := map_option (set_nx replacement) (es ! unat e)])
               else relink nx set_nx fuel target_edge replacement es following)
      else None)"

text \<open>
  \<open>unlink_out_edge\<close> and \<open>unlink_in_edge\<close> are the same text over the fields of one direction:
  the head of a node's list with its setter, and the link of an edge with its setter.
\<close>

definition unlink_edge :: "('n gnode \<Rightarrow> edge_id option) \<Rightarrow> (edge_id option \<Rightarrow> 'n gnode \<Rightarrow> 'n gnode) \<Rightarrow>
    ('e gedge \<Rightarrow> edge_id option) \<Rightarrow> (edge_id option \<Rightarrow> 'e gedge \<Rightarrow> 'e gedge) \<Rightarrow>
    node_id \<Rightarrow> edge_id \<Rightarrow> edge_id option \<Rightarrow> ('n, 'e, 'o) graph \<Rightarrow> ('n, 'e, 'o) graph option" where
  "unlink_edge first set_first nx set_nx node target_edge replacement g =
     (if unat node < length (g_nodes g)
      then (case g_nodes g ! unat node of
              None \<Rightarrow> Some g
            | Some nd \<Rightarrow>
                if first nd = Some target_edge
                then Some (g\<lparr>g_nodes := (g_nodes g)[unat node := Some (set_first replacement nd)]\<rparr>)
                else map_option (\<lambda>es. g\<lparr>g_edges := es\<rparr>)
                       (relink nx set_nx (Suc (length (g_edges g))) target_edge replacement (g_edges g) (first nd)))
      else None)"

definition unlink_out_edge :: "node_id \<Rightarrow> edge_id \<Rightarrow> edge_id option \<Rightarrow> ('n, 'e, 'o) graph \<Rightarrow> ('n, 'e, 'o) graph option" where
  "unlink_out_edge = unlink_edge nd_first_out (\<lambda>v. nd_first_out_update (\<lambda>_. v))
     ed_next_out (\<lambda>v. ed_next_out_update (\<lambda>_. v))"

definition unlink_in_edge :: "node_id \<Rightarrow> edge_id \<Rightarrow> edge_id option \<Rightarrow> ('n, 'e, 'o) graph \<Rightarrow> ('n, 'e, 'o) graph option" where
  "unlink_in_edge = unlink_edge nd_first_in (\<lambda>v. nd_first_in_update (\<lambda>_. v))
     ed_next_in (\<lambda>v. ed_next_in_update (\<lambda>_. v))"

definition remove_edge :: "('n, 'e, 'o) on_change \<Rightarrow> edge_id \<Rightarrow> ('n, 'e, 'o) graph \<Rightarrow>
    ('e gedge option \<times> ('n, 'e, 'o) graph) option" where
  "remove_edge on_change edge g =
     (case graph_edge g edge of
        None \<Rightarrow> Some (None, g)
      | Some ed \<Rightarrow>
          (let g = graph_notify on_change (EdgeRemoving edge (ed_source ed) (ed_target ed)) g
           in case slot (g_edges g) edge of
                None \<Rightarrow> Some (None, g)
              | Some removed \<Rightarrow> do {
                  let g = g\<lparr>g_edges := (g_edges g)[unat edge := None]\<rparr>;
                  g \<leftarrow> unlink_out_edge (ed_source ed) edge (ed_next_out ed) g;
                  g \<leftarrow> unlink_in_edge (ed_target ed) edge (ed_next_in ed) g;
                  if g_live_edges g = 0 then None
                  else (let g = g\<lparr>g_live_edges := g_live_edges g - 1\<rparr>
                        in Some (Some removed,
                                 graph_notify on_change (EdgeRemoved edge (ed_source ed) (ed_target ed)) g))
                }))"

definition remove_node :: "('n, 'e, 'o) on_change \<Rightarrow> node_id \<Rightarrow> ('n, 'e, 'o) graph \<Rightarrow>
    ('n gnode option \<times> ('n, 'e, 'o) graph) option" where
  "remove_node on_change node g =
     (if \<not> contains_node g node then Some (None, g)
      else do {
        let g = graph_notify on_change (NodeRemoving node) g;
        outgoing \<leftarrow> outgoing_edges g node;
        incoming \<leftarrow> incoming_edges g node;
        g \<leftarrow> for_each (\<lambda>edge g. map_option snd (remove_edge on_change edge g)) (outgoing @ incoming) g;
        case slot (g_nodes g) node of
          None \<Rightarrow> Some (None, g)
        | Some removed \<Rightarrow>
            if g_live_nodes g = 0 then None
            else (let g = g\<lparr>g_nodes := (g_nodes g)[unat node := None], g_live_nodes := g_live_nodes g - 1\<rparr>
                  in Some (Some removed, graph_notify on_change (NodeRemoved node) g))
      })"

text \<open>
  \<open>node_mut\<close>, \<open>edge_mut\<close> and their value variants hand out a reference; the change made
  through it is the argument \<open>f\<close>. The result says whether there was anything to change.
\<close>

definition node_mut :: "('n gnode \<Rightarrow> 'n gnode) \<Rightarrow> node_id \<Rightarrow> ('n, 'e, 'o) graph \<Rightarrow> bool \<times> ('n, 'e, 'o) graph" where
  "node_mut f node g =
     (case slot (g_nodes g) node of
        None \<Rightarrow> (False, g)
      | Some nd \<Rightarrow> (True, g\<lparr>g_nodes := (g_nodes g)[unat node := Some (f nd)]\<rparr>))"

definition edge_mut :: "('e gedge \<Rightarrow> 'e gedge) \<Rightarrow> edge_id \<Rightarrow> ('n, 'e, 'o) graph \<Rightarrow> bool \<times> ('n, 'e, 'o) graph" where
  "edge_mut f edge g =
     (case slot (g_edges g) edge of
        None \<Rightarrow> (False, g)
      | Some ed \<Rightarrow> (True, g\<lparr>g_edges := (g_edges g)[unat edge := Some (f ed)]\<rparr>))"

definition node_value_mut :: "('n \<Rightarrow> 'n) \<Rightarrow> node_id \<Rightarrow> ('n, 'e, 'o) graph \<Rightarrow> bool \<times> ('n, 'e, 'o) graph" where
  "node_value_mut f = node_mut (nd_value_update f)"

definition edge_value_mut :: "('e \<Rightarrow> 'e) \<Rightarrow> edge_id \<Rightarrow> ('n, 'e, 'o) graph \<Rightarrow> bool \<times> ('n, 'e, 'o) graph" where
  "edge_value_mut f = edge_mut (ed_value_update f)"

text \<open>The view of a graph that the algorithms of this crate run on (\<open>impl GraphView for Graph\<close>).\<close>

definition view_successors :: "('n, 'e, 'o) graph \<Rightarrow> node_id \<Rightarrow> node_id list" where
  "view_successors g node = (case graph_successors g node of None \<Rightarrow> [] | Some ns \<Rightarrow> ns)"

definition graph_as_view :: "('n, 'e, 'o) graph \<Rightarrow> node_id graph_view" where
  "graph_as_view g = \<lparr>gv_nodes = graph_nodes g, gv_successors = view_successors g\<rparr>"

section \<open>The invariant\<close>

text \<open>
  The edges incident to a node at one end, newest first: what the linked list of the node
  must hold.
\<close>

definition incident :: "('e gedge \<Rightarrow> node_id) \<Rightarrow> 'e gedge option list \<Rightarrow> node_id \<Rightarrow> edge_id list" where
  "incident endp es n = filter (\<lambda>e. map_option endp (slot es e) = Some n) (rev (live es))"

definition chains_ok :: "('e gedge \<Rightarrow> node_id) \<Rightarrow> ('e gedge \<Rightarrow> edge_id option) \<Rightarrow> ('n gnode \<Rightarrow> edge_id option) \<Rightarrow>
    'n gnode option list \<Rightarrow> 'e gedge option list \<Rightarrow> bool" where
  "chains_ok endp nx first ns es \<longleftrightarrow>
     (\<forall>n nd. slot ns n = Some nd \<longrightarrow> chain nx es (first nd) (incident endp es n))"

definition slots_ok :: "'n gnode option list \<Rightarrow> 'e gedge option list \<Rightarrow> bool" where
  "slots_ok ns es \<longleftrightarrow> length ns \<le> id_bound \<and> length es \<le> id_bound \<and>
     (\<forall>n nd. slot ns n = Some nd \<longrightarrow> nd_id nd = n) \<and>
     (\<forall>e ed. slot es e = Some ed \<longrightarrow>
        ed_id ed = e \<and> slot ns (ed_source ed) \<noteq> None \<and> slot ns (ed_target ed) \<noteq> None)"

definition graph_ok :: "('n, 'e, 'o) graph \<Rightarrow> bool" where
  "graph_ok g \<longleftrightarrow> slots_ok (g_nodes g) (g_edges g) \<and>
     g_live_nodes g = length (live (g_nodes g)) \<and> g_live_edges g = length (live (g_edges g)) \<and>
     chains_ok ed_source ed_next_out nd_first_out (g_nodes g) (g_edges g) \<and>
     chains_ok ed_target ed_next_in nd_first_in (g_nodes g) (g_edges g)"

lemma incident_iff:
  "length es \<le> id_bound \<Longrightarrow> e \<in> set (incident endp es n) \<longleftrightarrow> (\<exists>ed. slot es e = Some ed \<and> endp ed = n)"
  by (auto simp: incident_def live_iff)

lemma distinct_incident: "length es \<le> id_bound \<Longrightarrow> distinct (incident endp es n)"
  by (simp add: incident_def distinct_live)

lemma length_incident: "length (incident endp es n) \<le> length es"
  unfolding incident_def by (rule order_trans [OF length_filter_le]) (simp add: length_live)

lemma incident_same:
  assumes "same p es es'" "\<And>a b. p a = p b \<Longrightarrow> endp a = endp b"
  shows "incident endp es' n = incident endp es n"
proof -
  have "map_option endp (slot es' e) = map_option endp (slot es e)" for e
  proof (cases "slot es e")
    case None
    with same_slot [OF assms(1), of e] show ?thesis by simp
  next
    case (Some a)
    then obtain b where "slot es' e = Some b" "p b = p a" using same_slot_Some [OF assms(1)] by blast
    with Some assms(2) [OF this(2)] show ?thesis by simp
  qed
  then show ?thesis by (simp add: incident_def same_live [OF assms(1)])
qed

lemma incident_remove:
  assumes "length es \<le> id_bound"
  shows "incident endp (es[unat e := None]) n = filter (\<lambda>x. x \<noteq> e) (incident endp es n)"
  unfolding incident_def live_remove [OF assms] rev_filter filter_filter
  by (rule filter_cong [OF refl]) (auto simp: slot_update)

lemma incident_push:
  assumes "length es < id_bound"
  shows "incident endp (es @ [Some ed]) n = (if endp ed = n then [next_id es] else []) @ incident endp es n"
proof -
  have "filter (\<lambda>e. map_option endp (slot (es @ [Some ed]) e) = Some n) (rev (live es)) = incident endp es n"
    unfolding incident_def
  proof (rule filter_cong)
    fix e assume "e \<in> set (rev (live es))"
    then have "slot es e \<noteq> None" using assms by (simp add: live_iff)
    then have "e \<noteq> next_id es" using slot_next_id [OF assms] by auto
    then show "(map_option endp (slot (es @ [Some ed]) e) = Some n) = (map_option endp (slot es e) = Some n)"
      by (simp add: slot_push [OF assms])
  qed simp
  then show ?thesis using assms by (simp add: incident_def live_push slot_push)
qed

lemma chains_ok_same:
  assumes "chains_ok endp nx first ns es" "same (\<lambda>ed. (endp ed, nx ed)) es es'" "same first ns ns'"
  shows "chains_ok endp nx first ns' es'"
  unfolding chains_ok_def
proof (intro allI impI)
  fix n nd' assume "slot ns' n = Some nd'"
  then obtain nd where nd: "slot ns n = Some nd" "first nd = first nd'"
    using same_slot_Some [OF same_sym [OF assms(3)]] by blast
  have "map_option nx (slot es' e) = map_option nx (slot es e)" for e
    using same_slot [OF assms(2), of e] by (cases "slot es e"; cases "slot es' e") auto
  then have "chain nx es' c l = chain nx es c l" for c l by (intro chain_cong)
  moreover have "incident endp es' n = incident endp es n" by (rule incident_same [OF assms(2)]) simp
  moreover have "chain nx es (first nd) (incident endp es n)"
    using assms(1) nd(1) unfolding chains_ok_def by blast
  ultimately show "chain nx es' (first nd') (incident endp es' n)" by (simp add: nd(2))
qed

lemma slots_ok_edge:
  "slots_ok ns es \<Longrightarrow> slot es e = Some ed \<Longrightarrow>
    ed_id ed = e \<and> slot ns (ed_source ed) \<noteq> None \<and> slot ns (ed_target ed) \<noteq> None"
  by (simp add: slots_ok_def)

lemma slots_ok_node: "slots_ok ns es \<Longrightarrow> slot ns n = Some nd \<Longrightarrow> nd_id nd = n"
  by (simp add: slots_ok_def)

lemma slots_ok_same:
  assumes ok: "slots_ok ns es" and ns: "same nd_id ns ns'"
    and es: "same (\<lambda>ed. (ed_id ed, ed_source ed, ed_target ed)) es es'"
  shows "slots_ok ns' es'"
proof -
  have live: "slot ns' n = None \<longleftrightarrow> slot ns n = None" for n
    by (rule same_None [OF ns])
  have "nd_id nd = n" if nd: "slot ns' n = Some nd" for n nd
  proof -
    obtain nd0 where "slot ns n = Some nd0" "nd_id nd0 = nd_id nd"
      using same_slot_Some [OF same_sym [OF ns] nd] by blast
    with slots_ok_node [OF ok this(1)] show ?thesis by simp
  qed
  moreover have "ed_id ed = e \<and> slot ns (ed_source ed) \<noteq> None \<and> slot ns (ed_target ed) \<noteq> None"
    if ed: "slot es' e = Some ed" for e ed
  proof -
    obtain ed0 where "slot es e = Some ed0"
      "ed_id ed0 = ed_id ed" "ed_source ed0 = ed_source ed" "ed_target ed0 = ed_target ed"
      using same_slot_Some [OF same_sym [OF es] ed] by auto
    with slots_ok_edge [OF ok this(1)] show ?thesis by simp
  qed
  moreover have "length ns' \<le> id_bound" "length es' \<le> id_bound"
    using ok same_length [OF ns] same_length [OF es] by (simp_all add: slots_ok_def)
  ultimately show ?thesis unfolding slots_ok_def live by blast
qed

section \<open>One direction of the links\<close>

text \<open>
  The lists of outgoing and of incoming edges are kept by the same code over different
  fields. \<open>link_direction\<close> is what the argument needs of the fields: the end of an edge the
  list is about, its link, and the head of a node's list.
\<close>

locale link_direction =
  fixes endp :: "'e gedge \<Rightarrow> node_id"
    and nx :: "'e gedge \<Rightarrow> edge_id option"
    and set_nx :: "edge_id option \<Rightarrow> 'e gedge \<Rightarrow> 'e gedge"
    and first :: "'n gnode \<Rightarrow> edge_id option"
    and set_first :: "edge_id option \<Rightarrow> 'n gnode \<Rightarrow> 'n gnode"
  assumes nx_set: "nx (set_nx v ed) = v"
    and endp_set: "endp (set_nx v ed) = endp ed"
    and first_set: "first (set_first v nd) = v"
begin

lemma relink_chain:
  assumes "chain nx es0 c (p @ e # l)" "p \<noteq> []" "e \<notin> set p" "\<And>x. x \<in> set p \<Longrightarrow> slot es x = slot es0 x"
    "slot es0 (last p) = Some x" "length p \<le> fuel"
  shows "relink nx set_nx fuel e rep es c = Some (es[unat (last p) := Some (set_nx rep x)])"
  using assms
proof (induction p arbitrary: c fuel)
  case (Cons a p)
  obtain k where k: "fuel = Suc k" using Cons.prems(6) by (cases fuel) auto
  obtain ad where a: "slot es a = Some ad" "slot es0 a = Some ad" "c = Some a" "chain nx es0 (nx ad) (p @ e # l)"
    using Cons.prems(1) Cons.prems(4) [of a] by (auto split: option.splits)
  have idx: "unat a < length es" "es ! unat a = Some ad" using a(1) by (auto simp: slot_def split: if_splits)
  show ?case
  proof (cases "p = []")
    case True
    with a Cons.prems(5) idx show ?thesis by (simp add: k)
  next
    case False
    then have "nx ad \<noteq> Some e" using chain_start [OF a(4)] Cons.prems(3) by (cases p) auto
    moreover have "relink nx set_nx k e rep es (nx ad) = Some (es[unat (last p) := Some (set_nx rep x)])"
      by (rule Cons.IH [OF a(4) False]) (use Cons.prems False k in auto)
    ultimately show ?thesis using a idx False by (simp add: k)
  qed
qed simp

lemma removed_chains:
  assumes ok: "chains_ok endp nx first ns es" and len: "length es \<le> id_bound"
    and es': "same endp es es'" "\<And>x. x \<notin> set (incident endp es n) \<Longrightarrow> slot es' x = slot es x"
    and ns': "\<And>m. m \<noteq> n \<Longrightarrow> slot ns' m = slot ns m"
    and new: "\<And>nd. slot ns' n = Some nd \<Longrightarrow> chain nx es' (first nd) (filter (\<lambda>x. x \<noteq> e) (incident endp es n))"
    and e: "e \<in> set (incident endp es n)"
  shows "chains_ok endp nx first ns' (es'[unat e := None])"
  unfolding chains_ok_def
proof (intro allI impI)
  fix m nd assume nd: "slot ns' m = Some nd"
  have len': "length es' \<le> id_bound" using same_length [OF es'(1)] len by simp
  have inc: "incident endp (es'[unat e := None]) m = filter (\<lambda>x. x \<noteq> e) (incident endp es m)"
    using incident_remove [OF len'] incident_same [OF es'(1)] by simp
  have drop: "chain nx (es'[unat e := None]) c l = chain nx es' c l" if "e \<notin> set l" for c l
    by (rule chain_cong) (use that in \<open>auto simp: slot_update\<close>)
  show "chain nx (es'[unat e := None]) (first nd) (incident endp (es'[unat e := None]) m)"
  proof (cases "m = n")
    case True
    with new nd show ?thesis unfolding inc by (simp add: drop)
  next
    case False
    have other: "x \<notin> set (incident endp es n)" if "x \<in> set (incident endp es m)" for x
      using that False by (auto simp: incident_iff [OF len])
    then have "e \<notin> set (incident endp es m)" using e by blast
    then have "filter (\<lambda>x. x \<noteq> e) (incident endp es m) = incident endp es m" by (auto simp: filter_id_conv)
    moreover have "chain nx es' (first nd) (incident endp es m) = chain nx es (first nd) (incident endp es m)"
      by (rule chain_cong) (simp add: es'(2) other)
    moreover have "chain nx es (first nd) (incident endp es m)"
      using ok nd ns' [OF False] unfolding chains_ok_def by simp
    ultimately show ?thesis unfolding inc using \<open>e \<notin> set (incident endp es m)\<close> by (simp add: drop)
  qed
qed

lemma unlink_first:
  assumes ok: "chains_ok endp nx first ns es" and len: "length es \<le> id_bound"
    and e: "slot es e = Some ed" and nd: "slot ns (endp ed) = Some nd" and head: "first nd = Some e"
  shows "chains_ok endp nx first (ns[unat (endp ed) := Some (set_first (nx ed) nd)]) (es[unat e := None])"
proof (rule removed_chains [OF ok len])
  let ?inc = "incident endp es (endp ed)"
  show in_inc: "e \<in> set ?inc" by (simp add: incident_iff [OF len] e)
  have chain: "chain nx es (Some e) ?inc" using ok nd head unfolding chains_ok_def by metis
  obtain l where l: "?inc = e # l" using chain_start [OF chain] by (cases ?inc) auto
  have "filter (\<lambda>x. x \<noteq> e) ?inc = l"
    using distinct_incident [OF len, of endp "endp ed"] by (auto simp: l filter_id_conv)
  moreover have "chain nx es (nx ed) l" using chain e by (simp add: l)
  ultimately show "chain nx es (first nd') (filter (\<lambda>x. x \<noteq> e) ?inc)"
    if "slot (ns[unat (endp ed) := Some (set_first (nx ed) nd)]) (endp ed) = Some nd'" for nd'
    using that slot_Some_less [OF nd] by (auto simp: slot_update first_set)
qed (auto simp: slot_update)

lemma unlink_inner:
  assumes ok: "chains_ok endp nx first ns es" and len: "length es \<le> id_bound"
    and e: "slot es e = Some ed" and nd: "slot ns (endp ed) = Some nd" and head: "first nd \<noteq> Some e"
  obtains x xd where "x \<noteq> e" "slot es x = Some xd"
    "relink nx set_nx (Suc (length es)) e (nx ed) (es[unat e := None]) (first nd) =
       Some ((es[unat x := Some (set_nx (nx ed) xd)])[unat e := None])"
    "chains_ok endp nx first ns ((es[unat x := Some (set_nx (nx ed) xd)])[unat e := None])"
proof -
  let ?inc = "incident endp es (endp ed)"
  have in_inc: "e \<in> set ?inc" by (simp add: incident_iff [OF len] e)
  have chain: "chain nx es (first nd) ?inc" using ok nd unfolding chains_ok_def by blast
  obtain p l where split: "?inc = p @ e # l" using split_list [OF in_inc] by blast
  have dist: "distinct (p @ e # l)" using distinct_incident [OF len, of endp "endp ed"] by (simp add: split)
  have p: "p \<noteq> []" using chain head by (auto simp: split)
  let ?x = "last p"
  have x: "?x \<in> set ?inc" "?x \<noteq> e" using p dist by (auto simp: split)
  then obtain xd where xd: "slot es ?x = Some xd" by (auto simp: incident_iff [OF len])
  let ?es = "es[unat ?x := Some (set_nx (nx ed) xd)]"
  have same: "same endp es ?es" by (rule same_update [OF xd]) (rule endp_set)
  have "length p \<le> Suc (length es)" using length_incident [of endp es "endp ed"] by (simp add: split)
  then have "relink nx set_nx (Suc (length es)) e (nx ed) (es[unat e := None]) (first nd) =
      Some ((es[unat e := None])[unat ?x := Some (set_nx (nx ed) xd)])"
    using chain p xd dist by (intro relink_chain [of es _ p e l]) (auto simp: split slot_update)
  then have relink: "relink nx set_nx (Suc (length es)) e (nx ed) (es[unat e := None]) (first nd) =
      Some (?es[unat e := None])"
    using list_update_swap [OF unat_neq [OF x(2)]] by metis
  have "filter (\<lambda>x. x \<noteq> e) ?inc = p @ l" unfolding split by (rule filter_neq_split [OF dist])
  moreover have "chain nx ?es (first nd) (p @ l)"
    by (rule chain_skip [OF chain [unfolded split] dist p e xd]) (rule nx_set)
  ultimately have "chains_ok endp nx first ns (?es[unat e := None])"
    using x(1) nd in_inc by (intro removed_chains [OF ok len same]) (auto simp: slot_update)
  with that x(2) xd relink show thesis by blast
qed

lemma unlink_ok:
  assumes g: "g_edges g = es[unat e := None]"
    and ok: "chains_ok endp nx first (g_nodes g) es" "length es \<le> id_bound"
    and e: "slot es e = Some ed" "slot (g_nodes g) (endp ed) \<noteq> None"
  obtains ns' es' where "unlink_edge first set_first nx set_nx (endp ed) e (nx ed) g =
      Some (g\<lparr>g_nodes := ns', g_edges := es'[unat e := None]\<rparr>)"
    "slot es' e = Some ed" "relinked set_first (g_nodes g) ns'" "relinked set_nx es es'"
    "chains_ok endp nx first ns' (es'[unat e := None])"
proof -
  obtain nd where nd: "slot (g_nodes g) (endp ed) = Some nd" using e(2) by auto
  then have idx: "unat (endp ed) < length (g_nodes g)" "g_nodes g ! unat (endp ed) = Some nd"
    by (auto simp: slot_def split: if_splits)
  show thesis
  proof (cases "first nd = Some e")
    case True
    show thesis
    proof (rule that [OF _ e(1)])
      show "chains_ok endp nx first ((g_nodes g)[unat (endp ed) := Some (set_first (nx ed) nd)]) (es[unat e := None])"
        by (rule unlink_first [OF ok e(1) nd True])
    qed (use idx nd True g in \<open>auto simp: unlink_edge_def relinked_def\<close>)
  next
    case False
    from unlink_inner [OF ok e(1) nd False] obtain x xd where x: "x \<noteq> e" "slot es x = Some xd"
      "relink nx set_nx (Suc (length es)) e (nx ed) (es[unat e := None]) (first nd) =
         Some ((es[unat x := Some (set_nx (nx ed) xd)])[unat e := None])"
      "chains_ok endp nx first (g_nodes g) ((es[unat x := Some (set_nx (nx ed) xd)])[unat e := None])" .
    show thesis
    proof (rule that [OF _ _ _ _ x(4)])
      show "unlink_edge first set_first nx set_nx (endp ed) e (nx ed) g =
          Some (g\<lparr>g_nodes := g_nodes g, g_edges := (es[unat x := Some (set_nx (nx ed) xd)])[unat e := None]\<rparr>)"
        using idx False g x(3) by (simp add: unlink_edge_def)
    qed (use x(1,2) e(1) in \<open>auto simp: slot_update relinked_def\<close>)
  qed
qed

lemma push_chains:
  assumes ok: "chains_ok endp nx first ns es" and len: "length es < id_bound"
    and nd: "slot ns (endp ed) = Some nd" and link: "nx ed = first nd"
  shows "chains_ok endp nx first (ns[unat (endp ed) := Some (set_first (Some (next_id es)) nd)]) (es @ [Some ed])"
  unfolding chains_ok_def
proof (intro allI impI)
  fix m md assume md: "slot (ns[unat (endp ed) := Some (set_first (Some (next_id es)) nd)]) m = Some md"
  have old: "chain nx es (first x) (incident endp es m)" if "slot ns m = Some x" for x
    using ok that unfolding chains_ok_def by blast
  show "chain nx (es @ [Some ed]) (first md) (incident endp (es @ [Some ed]) m)"
  proof (cases "m = endp ed")
    case True
    with md slot_Some_less [OF nd] have "first md = Some (next_id es)" by (auto simp: slot_update first_set)
    moreover have "chain nx es (first nd) (incident endp es m)" using old nd True by simp
    ultimately show ?thesis using chain_push [of nx es "first nd" _ ed] len link True
      by (simp add: incident_push [OF len])
  next
    case False
    with md have "slot ns m = Some md" by (simp add: slot_update)
    with old have old': "chain nx es (first md) (incident endp es m)" by blast
    moreover have "chain nx (es @ [Some ed]) (first md) (incident endp es m) = chain nx es (first md) (incident endp es m)"
    proof (rule chain_cong)
      fix e assume "e \<in> set (incident endp es m)"
      then have "e \<noteq> next_id es" using chain_live [OF old'] slot_next_id [OF len] by metis
      then show "map_option nx (slot (es @ [Some ed]) e) = map_option nx (slot es e)" by (simp add: slot_push [OF len])
    qed
    ultimately show ?thesis using False by (simp add: incident_push [OF len])
  qed
qed

end

interpretation outward: link_direction ed_source ed_next_out "\<lambda>v. ed_next_out_update (\<lambda>_. v)"
    nd_first_out "\<lambda>v. nd_first_out_update (\<lambda>_. v)"
  by unfold_locales simp_all

interpretation inward: link_direction ed_target ed_next_in "\<lambda>v. ed_next_in_update (\<lambda>_. v)"
    nd_first_in "\<lambda>v. nd_first_in_update (\<lambda>_. v)"
  by unfold_locales simp_all

section \<open>Every operation keeps the invariant\<close>

text \<open>
  Removing the links of an edge whose slot was just emptied: first the outgoing list of its
  source, then the incoming list of its target.
\<close>

lemma unlink_both:
  assumes g: "g_edges g = es[unat e := None]" and n: "g_nodes g = ns"
    and slots: "slots_ok ns es"
    and out: "chains_ok ed_source ed_next_out nd_first_out ns es"
    and inn: "chains_ok ed_target ed_next_in nd_first_in ns es"
    and e: "slot es e = Some ed"
  obtains ns' es' where
    "unlink_out_edge (ed_source ed) e (ed_next_out ed) g \<bind> unlink_in_edge (ed_target ed) e (ed_next_in ed) =
       Some (g\<lparr>g_nodes := ns', g_edges := es'[unat e := None]\<rparr>)"
    "same (\<lambda>nd. (nd_id nd, nd_value nd)) ns ns'"
    "same (\<lambda>ed. (ed_id ed, ed_source ed, ed_target ed, ed_value ed)) es es'"
    "chains_ok ed_source ed_next_out nd_first_out ns' (es'[unat e := None])"
    "chains_ok ed_target ed_next_in nd_first_in ns' (es'[unat e := None])"
proof -
  note slots = slots [folded n] and out = out [folded n] and inn = inn [folded n]
  have len: "length es \<le> id_bound" using slots by (simp add: slots_ok_def)
  have ends: "slot (g_nodes g) (ed_source ed) \<noteq> None" "slot (g_nodes g) (ed_target ed) \<noteq> None"
    using slots_ok_edge [OF slots e] by auto
  obtain ns1 es1 where 1: "unlink_out_edge (ed_source ed) e (ed_next_out ed) g =
      Some (g\<lparr>g_nodes := ns1, g_edges := es1[unat e := None]\<rparr>)" (is "_ = Some ?g1")
    "slot es1 e = Some ed" "relinked (\<lambda>v. nd_first_out_update (\<lambda>_. v)) (g_nodes g) ns1"
    "relinked (\<lambda>v. ed_next_out_update (\<lambda>_. v)) es es1"
    "chains_ok ed_source ed_next_out nd_first_out ns1 (es1[unat e := None])"
    unfolding unlink_out_edge_def using outward.unlink_ok [OF g out len e ends(1)] by blast
  have ns1: "same (\<lambda>nd. (nd_id nd, nd_value nd)) (g_nodes g) ns1" "same nd_first_in (g_nodes g) ns1"
    by (rule relinked_same [OF 1(3)], simp)+
  have es1: "same (\<lambda>ed. (ed_id ed, ed_source ed, ed_target ed, ed_value ed)) es es1"
    "same (\<lambda>ed. (ed_target ed, ed_next_in ed)) es es1"
    by (rule relinked_same [OF 1(4)], simp)+
  have inn1: "chains_ok ed_target ed_next_in nd_first_in (g_nodes ?g1) es1"
    using chains_ok_same [OF inn es1(2) ns1(2)] by simp
  have "slot ns1 (ed_target ed) \<noteq> None" using same_None [OF ns1(2), of "ed_target ed"] ends(2) by auto
  then have live1: "slot (g_nodes ?g1) (ed_target ed) \<noteq> None" by simp
  have g1: "g_edges ?g1 = es1[unat e := None]" by simp
  have len1: "length es1 \<le> id_bound" using same_length [OF es1(2)] len by simp
  obtain ns2 es2 where 2: "unlink_in_edge (ed_target ed) e (ed_next_in ed) ?g1 =
      Some (?g1\<lparr>g_nodes := ns2, g_edges := es2[unat e := None]\<rparr>)"
    "slot es2 e = Some ed" "relinked (\<lambda>v. nd_first_in_update (\<lambda>_. v)) (g_nodes ?g1) ns2"
    "relinked (\<lambda>v. ed_next_in_update (\<lambda>_. v)) es1 es2"
    "chains_ok ed_target ed_next_in nd_first_in ns2 (es2[unat e := None])"
    unfolding unlink_in_edge_def using inward.unlink_ok [OF g1 inn1 len1 1(2) live1] by blast
  have heads: "relinked (\<lambda>v. nd_first_in_update (\<lambda>_. v)) ns1 ns2" using 2(3) by simp
  have ns2: "same (\<lambda>nd. (nd_id nd, nd_value nd)) ns1 ns2" "same nd_first_out ns1 ns2"
    by (rule relinked_same [OF heads], simp)+
  have es2: "same (\<lambda>ed. (ed_id ed, ed_source ed, ed_target ed, ed_value ed)) es1 es2"
    "same (\<lambda>ed. (ed_source ed, ed_next_out ed)) (es1[unat e := None]) (es2[unat e := None])"
    by (rule relinked_same [OF 2(4)], simp) (rule same_update_both, rule relinked_same [OF 2(4)], simp)
  show thesis
    by (rule that [OF _ same_trans [OF ns1(1) [unfolded n] ns2(1)] same_trans [OF es1(1) es2(1)]
          chains_ok_same [OF 1(5) es2(2) ns2(2)] 2(5)]) (use 1(1) 2(1) in simp)
qed

section \<open>Refinement of a plain multigraph\<close>

text \<open>
  What the storage promises: a list of nodes with values and a list of edges with endpoints
  and values, both in the order of insertion.
\<close>

record ('n, 'e) multigraph =
  mg_nodes :: "(node_id \<times> 'n) list"
  mg_edges :: "(edge_id \<times> node_id \<times> node_id \<times> 'e) list"

definition graph_abs :: "('n, 'e, 'o) graph \<Rightarrow> ('n, 'e) multigraph" where
  "graph_abs g = \<lparr>mg_nodes = entries nd_value (g_nodes g),
     mg_edges = entries (\<lambda>ed. (ed_source ed, ed_target ed, ed_value ed)) (g_edges g)\<rparr>"

definition mg_remove_edge :: "edge_id \<Rightarrow> ('n, 'e) multigraph \<Rightarrow> ('n, 'e) multigraph" where
  "mg_remove_edge e m = m\<lparr>mg_edges := filter (\<lambda>(x, _). x \<noteq> e) (mg_edges m)\<rparr>"

definition mg_remove_node :: "node_id \<Rightarrow> ('n, 'e) multigraph \<Rightarrow> ('n, 'e) multigraph" where
  "mg_remove_node n m = \<lparr>mg_nodes = filter (\<lambda>(x, _). x \<noteq> n) (mg_nodes m),
     mg_edges = filter (\<lambda>(_, s, t, _). s \<noteq> n \<and> t \<noteq> n) (mg_edges m)\<rparr>"

definition mg_out :: "node_id \<Rightarrow> ('n, 'e) multigraph \<Rightarrow> (edge_id \<times> node_id \<times> node_id \<times> 'e) list" where
  "mg_out n m = filter (\<lambda>(_, s, _). s = n) (rev (mg_edges m))"

definition mg_in :: "node_id \<Rightarrow> ('n, 'e) multigraph \<Rightarrow> (edge_id \<times> node_id \<times> node_id \<times> 'e) list" where
  "mg_in n m = filter (\<lambda>(_, _, t, _). t = n) (rev (mg_edges m))"

lemma graph_notify_sel [simp]:
  "g_nodes (graph_notify oc ev g) = g_nodes g" "g_edges (graph_notify oc ev g) = g_edges g"
  "g_live_nodes (graph_notify oc ev g) = g_live_nodes g" "g_live_edges (graph_notify oc ev g) = g_live_edges g"
  "g_observers (graph_notify oc ev g) = map (\<lambda>ob. oc ob (g\<lparr>g_observers := []\<rparr>) ev) (g_observers g)"
  by (simp_all add: graph_notify_def)

lemma graph_ok_notify [simp]: "graph_ok (graph_notify oc ev g) = graph_ok g"
  by (simp add: graph_ok_def)

lemma graph_abs_notify [simp]: "graph_abs (graph_notify oc ev g) = graph_abs g"
  by (simp add: graph_abs_def)

lemma graph_okD:
  assumes "graph_ok g"
  shows "slots_ok (g_nodes g) (g_edges g)" "g_live_nodes g = length (live (g_nodes g))"
    "g_live_edges g = length (live (g_edges g))"
    "chains_ok ed_source ed_next_out nd_first_out (g_nodes g) (g_edges g)"
    "chains_ok ed_target ed_next_in nd_first_in (g_nodes g) (g_edges g)"
    "length (g_nodes g) \<le> id_bound" "length (g_edges g) \<le> id_bound"
  using assms by (auto simp: graph_ok_def slots_ok_def)

lemma slots_ok_remove_edge: "slots_ok ns es \<Longrightarrow> slots_ok ns (es[unat (e :: edge_id) := None])"
  by (auto simp: slots_ok_def slot_update split: if_splits)

lemma remove_edge_live:
  assumes g: "graph_ok g" and e: "graph_edge g e = Some ed"
  obtains g' where "remove_edge oc e g = Some (Some ed, g')" "graph_ok g'"
    "graph_abs g' = mg_remove_edge e (graph_abs g)"
    "g_observers g' =
       map (\<lambda>ob. oc (oc ob (g\<lparr>g_observers := []\<rparr>) (EdgeRemoving e (ed_source ed) (ed_target ed)))
                    (g'\<lparr>g_observers := []\<rparr>) (EdgeRemoved e (ed_source ed) (ed_target ed))) (g_observers g)"
proof -
  note ok = graph_okD [OF g]
  have e': "slot (g_edges g) e = Some ed" using e by (simp add: graph_edge_def)
  let ?g1 = "graph_notify oc (EdgeRemoving e (ed_source ed) (ed_target ed)) g"
  let ?g2 = "?g1\<lparr>g_edges := (g_edges g)[unat e := None]\<rparr>"
  obtain ns' es' where u:
    "unlink_out_edge (ed_source ed) e (ed_next_out ed) ?g2 \<bind> unlink_in_edge (ed_target ed) e (ed_next_in ed) =
       Some (?g2\<lparr>g_nodes := ns', g_edges := es'[unat e := None]\<rparr>)"
    "same (\<lambda>nd. (nd_id nd, nd_value nd)) (g_nodes g) ns'"
    "same (\<lambda>ed. (ed_id ed, ed_source ed, ed_target ed, ed_value ed)) (g_edges g) es'"
    "chains_ok ed_source ed_next_out nd_first_out ns' (es'[unat e := None])"
    "chains_ok ed_target ed_next_in nd_first_in ns' (es'[unat e := None])"
    by (rule unlink_both [OF _ _ ok(1,4,5) e', of ?g2]) simp_all
  from u(1) obtain gm where gm: "unlink_out_edge (ed_source ed) e (ed_next_out ed) ?g2 = Some gm"
    "unlink_in_edge (ed_target ed) e (ed_next_in ed) gm = Some (?g2\<lparr>g_nodes := ns', g_edges := es'[unat e := None]\<rparr>)"
    unfolding bind_eq_Some_conv by blast
  let ?g3 = "?g2\<lparr>g_nodes := ns', g_edges := es'[unat e := None], g_live_edges := g_live_edges g - 1\<rparr>"
  let ?g4 = "graph_notify oc (EdgeRemoved e (ed_source ed) (ed_target ed)) ?g3"
  have mem: "e \<in> set (live (g_edges g))" using live_Some [OF ok(7) e'] .
  then have pos: "g_live_edges g \<noteq> 0" using ok(3) by auto
  have len': "length es' \<le> id_bound" using same_length [OF u(3)] ok(7) by simp
  show thesis
  proof (rule that [of ?g4])
    show "remove_edge oc e g = Some (Some ed, ?g4)"
      using gm e e' pos by (simp add: remove_edge_def Let_def)
    have "slots_ok ns' es'"
      by (rule slots_ok_same [OF ok(1)]) (use same_proj [OF u(2), of fst] same_proj [OF u(3), of "\<lambda>(i, s, t, v). (i, s, t)"] in simp_all)
    moreover have "g_live_edges g - 1 = length (live (es'[unat e := None]))"
      using length_filter_neq [OF distinct_live [OF ok(7)] mem] ok(3)
      by (simp add: live_remove [OF len'] same_live [OF u(3), symmetric])
    moreover have "g_live_nodes g = length (live ns')" using ok(2) same_live [OF u(2)] by simp
    ultimately show "graph_ok ?g4" using u(4,5) by (simp add: graph_ok_def slots_ok_remove_edge)
    have "entries nd_value ns' = entries nd_value (g_nodes g)"
      by (rule entries_same [OF _ ok(6)]) (use same_proj [OF u(2), of snd] in simp)
    moreover have "entries (\<lambda>ed. (ed_source ed, ed_target ed, ed_value ed)) es' =
        entries (\<lambda>ed. (ed_source ed, ed_target ed, ed_value ed)) (g_edges g)"
      by (rule entries_same [OF _ ok(7)]) (use same_proj [OF u(3), of snd] in simp)
    ultimately show "graph_abs ?g4 = mg_remove_edge e (graph_abs g)"
      by (simp add: graph_abs_def mg_remove_edge_def entries_remove [OF len'])
  qed (simp add: graph_notify_def)
qed

lemma remove_edge_dead: "graph_edge g e = None \<Longrightarrow> remove_edge oc e g = Some (None, g)"
  by (simp add: remove_edge_def)

lemma edge_lookup:
  "graph_ok g \<Longrightarrow> map_of (mg_edges (graph_abs g)) e =
     map_option (\<lambda>ed. (ed_source ed, ed_target ed, ed_value ed)) (graph_edge g e)"
  by (simp add: graph_abs_def graph_edge_def map_of_entries graph_okD)

text \<open>Reading the linked lists gives the incident edges of the multigraph, newest first.\<close>

lemma incident_entries:
  assumes "length es \<le> id_bound"
  shows "incident (\<lambda>ed. q (p ed)) es n = map fst (filter (\<lambda>(_, d). q d = n) (rev (entries p es)))"
proof -
  have "incident (\<lambda>ed. q (p ed)) es n = filter (\<lambda>e. q (p (the (slot es e))) = n) (rev (live es))"
    unfolding incident_def by (rule filter_cong [OF refl]) (use assms in \<open>auto simp: live_iff\<close>)
  then show ?thesis by (simp add: entries_def rev_map filter_map o_def)
qed

lemma incident_mg:
  assumes "graph_ok g"
  shows "incident ed_source (g_edges g) n = map fst (mg_out n (graph_abs g))"
    "incident ed_target (g_edges g) n = map fst (mg_in n (graph_abs g))"
  using incident_entries [OF graph_okD(7) [OF assms], of fst "\<lambda>ed. (ed_source ed, ed_target ed, ed_value ed)" n]
    incident_entries [OF graph_okD(7) [OF assms], of "\<lambda>d. fst (snd d)" "\<lambda>ed. (ed_source ed, ed_target ed, ed_value ed)" n]
  by (simp_all add: mg_out_def mg_in_def graph_abs_def case_prod_unfold)

lemma list_read:
  assumes ok: "chains_ok endp nx first ns es" and len: "length es \<le> id_bound"
    and closed: "\<And>e ed. slot es e = Some ed \<Longrightarrow> slot ns (endp ed) \<noteq> None"
  shows "chain_walk nx (Suc (length es)) es (Option.bind (slot ns n) first) = Some (incident endp es n)"
proof (cases "slot ns n")
  case None
  then have "e \<notin> set (incident endp es n)" for e using closed [of e] by (auto simp: incident_iff [OF len])
  then have "incident endp es n = []" by (metis last_in_set)
  with None show ?thesis by simp
next
  case (Some nd)
  then have "chain nx es (first nd) (incident endp es n)" using ok by (simp add: chains_ok_def)
  moreover have "length (incident endp es n) \<le> Suc (length es)" using length_incident [of endp es n] by simp
  ultimately show ?thesis using chain_walk_eq Some by simp
qed

lemma outgoing_edges_eq:
  assumes "graph_ok g"
  shows "outgoing_edges g n = Some (map fst (mg_out n (graph_abs g)))"
  unfolding outgoing_edges_def graph_node_def incident_mg(1) [OF assms, symmetric]
  by (rule list_read [OF graph_okD(4,7) [OF assms]]) (use slots_ok_edge [OF graph_okD(1) [OF assms]] in blast)

lemma incoming_edges_eq:
  assumes "graph_ok g"
  shows "incoming_edges g n = Some (map fst (mg_in n (graph_abs g)))"
  unfolding incoming_edges_def graph_node_def incident_mg(2) [OF assms, symmetric]
  by (rule list_read [OF graph_okD(5,7) [OF assms]]) (use slots_ok_edge [OF graph_okD(1) [OF assms]] in blast)

lemma map_filter_lookup:
  assumes g: "graph_ok g" and ds: "set ds \<subseteq> set (mg_edges (graph_abs g))"
    and h: "\<And>ed. h ed = k (ed_source ed, ed_target ed, ed_value ed)"
  shows "List.map_filter (\<lambda>e. map_option h (graph_edge g e)) (map fst ds) = map (\<lambda>d. k (snd d)) ds"
  using ds
proof (induction ds)
  case (Cons d ds)
  obtain e x where d: "d = (e, x)" by (rule prod.exhaust)
  with Cons.prems obtain ed where "slot (g_edges g) e = Some ed" "x = (ed_source ed, ed_target ed, ed_value ed)"
    by (auto simp: graph_abs_def entries_iff graph_okD [OF g])
  with Cons d show ?case by (auto simp: map_filter_simps graph_edge_def h)
qed (simp add: map_filter_simps)

lemma graph_successors_eq:
  "graph_ok g \<Longrightarrow> graph_successors g n = Some (map (\<lambda>(e, s, t, v). t) (mg_out n (graph_abs g)))"
  using map_filter_lookup [of g "mg_out n (graph_abs g)" ed_target "\<lambda>(s, t, v). t"]
  by (auto simp: graph_successors_def outgoing_edges_eq mg_out_def case_prod_unfold)

lemma graph_predecessors_eq:
  "graph_ok g \<Longrightarrow> graph_predecessors g n = Some (map (\<lambda>(e, s, t, v). s) (mg_in n (graph_abs g)))"
  using map_filter_lookup [of g "mg_in n (graph_abs g)" ed_source "\<lambda>(s, t, v). s"]
  by (auto simp: graph_predecessors_def incoming_edges_eq mg_in_def case_prod_unfold)

subsection \<open>Removing a node\<close>

text \<open>
  The events of removing a list of edges in turn: a pair for each edge still there, none for
  an edge that is already gone (a loop is in both lists of its node).
\<close>

fun removal_events :: "('n, 'e) multigraph \<Rightarrow> edge_id list \<Rightarrow> graph_event list" where
  "removal_events m [] = []"
| "removal_events m (e # es) =
     (case map_of (mg_edges m) e of
        None \<Rightarrow> removal_events m es
      | Some (s, t, _) \<Rightarrow> EdgeRemoving e s t # EdgeRemoved e s t # removal_events (mg_remove_edge e m) es)"

lemma mg_remove_edge_absent: "map_of (mg_edges m) e = None \<Longrightarrow> mg_remove_edge e m = m"
  by (force simp: mg_remove_edge_def map_of_eq_None_iff filter_id_conv intro!: multigraph.equality)

lemma fold_mg_remove_edge:
  "fold mg_remove_edge es m = m\<lparr>mg_edges := filter (\<lambda>(x, _). x \<notin> set es) (mg_edges m)\<rparr>"
  by (induction es arbitrary: m) (auto simp: mg_remove_edge_def case_prod_unfold conj_commute)

lemma remove_edges:
  assumes "graph_ok g"
  shows "\<exists>g'. for_each (\<lambda>edge g. map_option snd (remove_edge oc edge g)) es g = Some g' \<and> graph_ok g' \<and>
     graph_abs g' = fold mg_remove_edge es (graph_abs g) \<and>
     (\<forall>f. oc = (\<lambda>ob _ ev. f ob ev) \<longrightarrow>
        g_observers g' = map (\<lambda>ob. foldl f ob (removal_events (graph_abs g) es)) (g_observers g))"
  using assms
proof (induction es arbitrary: g)
  case (Cons e es)
  show ?case
  proof (cases "graph_edge g e")
    case None
    then have gone: "map_of (mg_edges (graph_abs g)) e = None" using edge_lookup [OF Cons.prems] by simp
    with Cons.IH [OF Cons.prems] None show ?thesis
      by (simp add: remove_edge_dead mg_remove_edge_absent [OF gone])
  next
    case (Some ed)
    from remove_edge_live [OF Cons.prems Some, of oc] obtain g1 where g1:
      "remove_edge oc e g = Some (Some ed, g1)" "graph_ok g1" "graph_abs g1 = mg_remove_edge e (graph_abs g)"
      "g_observers g1 =
       map (\<lambda>ob. oc (oc ob (g\<lparr>g_observers := []\<rparr>) (EdgeRemoving e (ed_source ed) (ed_target ed)))
                    (g1\<lparr>g_observers := []\<rparr>) (EdgeRemoved e (ed_source ed) (ed_target ed))) (g_observers g)" .
    from Cons.IH [OF g1(2)] obtain g2 where g2:
      "for_each (\<lambda>edge g. map_option snd (remove_edge oc edge g)) es g1 = Some g2" "graph_ok g2"
      "graph_abs g2 = fold mg_remove_edge es (graph_abs g1)"
      "\<forall>f. oc = (\<lambda>ob _ ev. f ob ev) \<longrightarrow>
        g_observers g2 = map (\<lambda>ob. foldl f ob (removal_events (graph_abs g1) es)) (g_observers g1)" by blast
    have "removal_events (graph_abs g) (e # es) =
        EdgeRemoving e (ed_source ed) (ed_target ed) # EdgeRemoved e (ed_source ed) (ed_target ed) #
          removal_events (graph_abs g1) es"
      using edge_lookup [OF Cons.prems, of e] Some by (simp add: g1(3))
    then show ?thesis using g1 g2 by (intro exI [of _ g2]) auto
  qed
qed simp

lemma node_lookup: "graph_ok g \<Longrightarrow> map_of (mg_nodes (graph_abs g)) n = node_value g n"
  by (simp add: graph_abs_def node_value_def graph_node_def map_of_entries graph_okD)

definition incident_edges :: "node_id \<Rightarrow> ('n, 'e) multigraph \<Rightarrow> edge_id list" where
  "incident_edges n m = map fst (mg_out n m) @ map fst (mg_in n m)"

lemma remove_incident:
  assumes "distinct (map fst (mg_edges m))"
  shows "filter (\<lambda>(x, _). x \<notin> set (incident_edges n m)) (mg_edges m) =
         filter (\<lambda>(_, s, t, _). s \<noteq> n \<and> t \<noteq> n) (mg_edges m)"
proof (rule filter_cong [OF refl])
  fix d assume d: "d \<in> set (mg_edges m)"
  obtain e s t v where dd: "d = (e, s, t, v)" by (rule prod_cases4)
  have "e \<in> set (incident_edges n m) \<longleftrightarrow> s = n \<or> t = n"
  proof
    assume "e \<in> set (incident_edges n m)"
    then obtain s' t' v' where "(e, s', t', v') \<in> set (mg_edges m)" "s' = n \<or> t' = n"
      by (auto simp: incident_edges_def mg_out_def mg_in_def)
    moreover from this(1) d dd have "(s', t', v') = (s, t, v)" using assms by (metis eq_key_imp_eq_value)
    ultimately show "s = n \<or> t = n" by simp
  next
    assume "s = n \<or> t = n"
    with d dd show "e \<in> set (incident_edges n m)"
      by (force simp: incident_edges_def mg_out_def mg_in_def image_iff)
  qed
  then show "(case d of (x, _) \<Rightarrow> x \<notin> set (incident_edges n m)) = (case d of (_, s, t, _) \<Rightarrow> s \<noteq> n \<and> t \<noteq> n)"
    by (simp add: dd)
qed

lemma chains_ok_drop_node:
  "chains_ok endp nx first ns es \<Longrightarrow> chains_ok endp nx first (ns[unat (n :: node_id) := None]) es"
  by (auto simp: chains_ok_def slot_update split: if_splits)

lemma graph_ok_drop_node:
  assumes g: "graph_ok g" and n: "slot (g_nodes g) n = Some nd"
    and free: "\<forall>(_, s, t, _)\<in>set (mg_edges (graph_abs g)). s \<noteq> n \<and> t \<noteq> n"
  defines "g' \<equiv> g\<lparr>g_nodes := (g_nodes g)[unat n := None], g_live_nodes := g_live_nodes g - 1\<rparr>"
  shows "graph_ok g'" "graph_abs g' = (graph_abs g)\<lparr>mg_nodes := filter (\<lambda>(x, _). x \<noteq> n) (mg_nodes (graph_abs g))\<rparr>"
    "g_live_nodes g \<noteq> 0"
proof -
  note ok = graph_okD [OF g]
  have mem: "n \<in> set (live (g_nodes g))" by (rule live_Some [OF ok(6) n])
  then show "g_live_nodes g \<noteq> 0" using ok(2) by auto
  have away: "ed_source ed \<noteq> n" "ed_target ed \<noteq> n" if "slot (g_edges g) e = Some ed" for e ed
  proof -
    have "(e, ed_source ed, ed_target ed, ed_value ed) \<in> set (mg_edges (graph_abs g))"
      using that by (auto simp: graph_abs_def entries_iff [OF ok(7)])
    with free show "ed_source ed \<noteq> n" "ed_target ed \<noteq> n" by auto
  qed
  have "slots_ok ((g_nodes g)[unat n := None]) (g_edges g)"
    using ok(1) away by (auto simp: slots_ok_def slot_update split: if_splits)
  moreover have "g_live_nodes g - 1 = length (live ((g_nodes g)[unat n := None]))"
    using length_filter_neq [OF distinct_live [OF ok(6)] mem] ok(2) by (simp add: live_remove [OF ok(6)])
  ultimately show "graph_ok g'" using ok(3-5) by (simp add: graph_ok_def g'_def chains_ok_drop_node)
  show "graph_abs g' = (graph_abs g)\<lparr>mg_nodes := filter (\<lambda>(x, _). x \<noteq> n) (mg_nodes (graph_abs g))\<rparr>"
    by (simp add: graph_abs_def g'_def entries_remove [OF ok(6)])
qed

lemma remove_node_live:
  assumes g: "graph_ok g" and n: "graph_node g n = Some nd"
  obtains g' nd' where "remove_node oc n g = Some (Some nd', g')"
    "nd_id nd' = n" "nd_value nd' = nd_value nd" "graph_ok g'"
    "graph_abs g' = mg_remove_node n (graph_abs g)"
    "\<forall>f. oc = (\<lambda>ob _ ev. f ob ev) \<longrightarrow> g_observers g' = map (\<lambda>ob. foldl f ob (NodeRemoving n #
       removal_events (graph_abs g) (incident_edges n (graph_abs g)) @ [NodeRemoved n])) (g_observers g)"
proof -
  let ?m = "graph_abs g" and ?g1 = "graph_notify oc (NodeRemoving n) g"
  let ?es = "incident_edges n ?m"
  have g1: "graph_ok ?g1" "graph_abs ?g1 = ?m" using g by simp_all
  from remove_edges [OF g1(1), of oc ?es] obtain g2 where g2:
    "for_each (\<lambda>edge g. map_option snd (remove_edge oc edge g)) ?es ?g1 = Some g2" "graph_ok g2"
    "graph_abs g2 = fold mg_remove_edge ?es ?m"
    "\<forall>f. oc = (\<lambda>ob _ ev. f ob ev) \<longrightarrow>
        g_observers g2 = map (\<lambda>ob. foldl f ob (removal_events ?m ?es)) (g_observers ?g1)"
    unfolding g1(2) by blast
  have keys: "distinct (map fst (mg_edges ?m))"
    by (simp add: graph_abs_def fst_entries distinct_live graph_okD [OF g])
  have abs2: "graph_abs g2 = ?m\<lparr>mg_edges := filter (\<lambda>(_, s, t, _). s \<noteq> n \<and> t \<noteq> n) (mg_edges ?m)\<rparr>"
    by (simp add: g2(3) fold_mg_remove_edge remove_incident [OF keys])
  have "node_value g2 n = Some (nd_value nd)"
    using node_lookup [OF g2(2), of n] node_lookup [OF g, of n] n by (simp add: abs2 node_value_def)
  then obtain nd' where nd': "slot (g_nodes g2) n = Some nd'" "nd_value nd' = nd_value nd"
    by (auto simp: node_value_def graph_node_def)
  let ?g3 = "g2\<lparr>g_nodes := (g_nodes g2)[unat n := None], g_live_nodes := g_live_nodes g2 - 1\<rparr>"
  have free: "\<forall>(_, s, t, _)\<in>set (mg_edges (graph_abs g2)). s \<noteq> n \<and> t \<noteq> n" by (auto simp: abs2)
  note drop = graph_ok_drop_node [OF g2(2) nd'(1) free]
  show thesis
  proof (rule that [of nd' "graph_notify oc (NodeRemoved n) ?g3"])
    have "contains_node g n" using n by (simp add: contains_node_def graph_node_def)
    then show "remove_node oc n g = Some (Some nd', graph_notify oc (NodeRemoved n) ?g3)"
      using g2(1) nd'(1) drop(3)
      by (simp add: remove_node_def Let_def outgoing_edges_eq [OF g1(1)] incoming_edges_eq [OF g1(1)] incident_edges_def)
    show "nd_id nd' = n" by (rule slots_ok_node [OF graph_okD(1) [OF g2(2)] nd'(1)])
    show "graph_ok (graph_notify oc (NodeRemoved n) ?g3)" using drop(1) by simp
    show "graph_abs (graph_notify oc (NodeRemoved n) ?g3) = mg_remove_node n ?m"
      using drop(2) by (simp add: abs2 mg_remove_node_def)
  qed (use g2(4) nd'(2) in auto)
qed

subsection \<open>Adding nodes and edges\<close>

lemma chains_ok_add_node:
  assumes ok: "chains_ok endp nx first ns es" and len: "length ns < id_bound" "length es \<le> id_bound"
    and closed: "\<And>e ed. slot es e = Some ed \<Longrightarrow> slot ns (endp ed) \<noteq> None" and empty: "first nd = None"
  shows "chains_ok endp nx first (ns @ [Some nd]) es"
  unfolding chains_ok_def
proof (intro allI impI)
  fix m md assume md: "slot (ns @ [Some nd]) m = Some md"
  show "chain nx es (first md) (incident endp es m)"
  proof (cases "m = next_id ns")
    case True
    with md have "md = nd" by (simp add: slot_push [OF len(1)])
    moreover have "e \<notin> set (incident endp es m)" for e
      using closed [of e] slot_next_id [OF len(1)] True by (auto simp: incident_iff [OF len(2)])
    then have "incident endp es m = []" by (metis last_in_set)
    ultimately show ?thesis by (simp add: empty)
  next
    case False
    with md have "slot ns m = Some md" by (simp add: slot_push [OF len(1)])
    with ok show ?thesis unfolding chains_ok_def by blast
  qed
qed

lemma slots_ok_add_node:
  assumes ok: "slots_ok ns es" and len: "length ns < id_bound" and nd: "nd_id nd = next_id ns"
  shows "slots_ok (ns @ [Some nd]) es"
proof -
  have "slot (ns @ [Some nd]) m \<noteq> None" if "slot ns m \<noteq> None" for m
    using that by (simp add: slot_push [OF len])
  moreover have "nd_id md = m" if "slot (ns @ [Some nd]) m = Some md" for m md
    using that slots_ok_node [OF ok, of m md] nd by (simp add: slot_push [OF len] split: if_splits)
  ultimately show ?thesis using ok len unfolding slots_ok_def by simp
qed

lemma slots_ok_add_edge:
  assumes ok: "slots_ok ns es" and len: "length es < id_bound" and id: "ed_id ed = next_id es"
    and ends: "slot ns (ed_source ed) \<noteq> None" "slot ns (ed_target ed) \<noteq> None"
  shows "slots_ok ns (es @ [Some ed])"
proof -
  have "ed_id x = e \<and> slot ns (ed_source x) \<noteq> None \<and> slot ns (ed_target x) \<noteq> None"
    if "slot (es @ [Some ed]) e = Some x" for e x
    using that slots_ok_edge [OF ok, of e x] id ends by (simp add: slot_push [OF len] split: if_splits)
  then show ?thesis using ok len unfolding slots_ok_def by simp
qed

lemma add_node_ok:
  assumes g: "graph_ok g" and len: "length (g_nodes g) < id_bound"
  obtains n g' where "add_node oc val g = (n, g')" "graph_ok g'" "graph_node g n = None"
    "graph_abs g' = (graph_abs g)\<lparr>mg_nodes := mg_nodes (graph_abs g) @ [(n, val)]\<rparr>"
    "length (g_nodes g') = Suc (length (g_nodes g))" "g_edges g' = g_edges g"
proof -
  note ok = graph_okD [OF g]
  let ?n = "next_id (g_nodes g)"
  let ?nd = "\<lparr>nd_id = ?n, nd_value = val, nd_first_out = None, nd_first_in = None\<rparr>"
  have "slots_ok (g_nodes g @ [Some ?nd]) (g_edges g)"
    using slots_ok_add_node [OF ok(1) len] by simp
  moreover have "chains_ok ed_source ed_next_out nd_first_out (g_nodes g @ [Some ?nd]) (g_edges g)"
    by (rule chains_ok_add_node [OF ok(4) len ok(7)]) (use slots_ok_edge [OF ok(1)] in auto)
  moreover have "chains_ok ed_target ed_next_in nd_first_in (g_nodes g @ [Some ?nd]) (g_edges g)"
    by (rule chains_ok_add_node [OF ok(5) len ok(7)]) (use slots_ok_edge [OF ok(1)] in auto)
  ultimately have "graph_ok (snd (add_node oc val g))"
    using ok(2,3) by (simp add: graph_ok_def add_node_def Let_def live_push [OF len])
  moreover have "graph_node g ?n = None" by (simp add: graph_node_def slot_next_id [OF len])
  ultimately show thesis
    by (intro that [of ?n "snd (add_node oc val g)"])
      (simp_all add: add_node_def Let_def graph_abs_def entries_push [OF len])
qed

lemma set_slot_Some: "slot xs i = Some x \<Longrightarrow> set_slot f i xs = Some (xs[unat i := Some (f x)])"
  by (simp add: set_slot_def slot_def split: if_splits)

lemma add_edge_ok:
  assumes g: "graph_ok g" and len: "length (g_edges g) < id_bound"
    and ends: "contains_node g s" "contains_node g t"
  obtains e g' where "add_edge oc s t val g = Some (Some e, g')" "graph_ok g'" "graph_edge g e = None"
    "graph_abs g' = (graph_abs g)\<lparr>mg_edges := mg_edges (graph_abs g) @ [(e, s, t, val)]\<rparr>"
    "length (g_edges g') = Suc (length (g_edges g))" "length (g_nodes g') = length (g_nodes g)"
proof -
  note ok = graph_okD [OF g]
  obtain sn tn where n: "slot (g_nodes g) s = Some sn" "slot (g_nodes g) t = Some tn"
    using ends by (auto simp: contains_node_def)
  let ?e = "next_id (g_edges g)"
  let ?ed = "\<lparr>ed_id = ?e, ed_source = s, ed_target = t, ed_value = val,
      ed_next_out = nd_first_out sn, ed_next_in = nd_first_in tn\<rparr>"
  let ?ns1 = "(g_nodes g)[unat s := Some (sn\<lparr>nd_first_out := Some ?e\<rparr>)]"
  obtain tn1 where tn1: "slot ?ns1 t = Some tn1" "nd_first_in tn1 = nd_first_in tn"
    using n slot_Some_less [OF n(1)] by (cases "t = s") (auto simp: slot_update)
  let ?ns2 = "?ns1[unat t := Some (tn1\<lparr>nd_first_in := Some ?e\<rparr>)]"
  let ?es = "g_edges g @ [Some ?ed]"
  have "same nd_first_in (g_nodes g) ?ns1" by (rule same_update [OF n(1)]) simp
  then have in1: "chains_ok ed_target ed_next_in nd_first_in ?ns1 (g_edges g)"
    using chains_ok_same [OF ok(5) same_refl] by blast
  have "chains_ok ed_source ed_next_out nd_first_out ?ns1 ?es"
    using outward.push_chains [OF ok(4) len, of ?ed sn] n by simp
  then have out: "chains_ok ed_source ed_next_out nd_first_out ?ns2 ?es"
    by (rule chains_ok_same [OF _ same_refl same_update [OF tn1(1)]]) simp
  have inn: "chains_ok ed_target ed_next_in nd_first_in ?ns2 ?es"
    using inward.push_chains [OF in1 len, of ?ed tn1] tn1 by simp
  have ids: "same (\<lambda>nd. (nd_id nd, nd_value nd)) (g_nodes g) ?ns2"
    by (rule same_trans [OF same_update [OF n(1)] same_update [OF tn1(1)]]) simp_all
  have "slots_ok ?ns2 (g_edges g)" by (rule slots_ok_same [OF ok(1)]) (use same_proj [OF ids, of fst] in simp_all)
  then have slots: "slots_ok ?ns2 ?es"
    by (rule slots_ok_add_edge [OF _ len]) (use n same_None [OF ids, of s] same_None [OF ids, of t] in simp_all)
  let ?g' = "g\<lparr>g_edges := ?es, g_nodes := ?ns2, g_live_edges := g_live_edges g + 1\<rparr>"
  show thesis
  proof (rule that [of ?e "graph_notify oc (EdgeAdded ?e s t) ?g'"])
    show "add_edge oc s t val g = Some (Some ?e, graph_notify oc (EdgeAdded ?e s t) ?g')"
      using n tn1 by (simp add: add_edge_def graph_node_def set_slot_Some Let_def)
    show "graph_ok (graph_notify oc (EdgeAdded ?e s t) ?g')"
      using out inn slots ok(2,3) same_live [OF ids] by (simp add: graph_ok_def live_push [OF len])
    show "graph_edge g ?e = None" by (simp add: graph_edge_def slot_next_id [OF len])
    have "entries nd_value ?ns2 = entries nd_value (g_nodes g)"
      by (rule entries_same [OF _ ok(6)]) (use same_proj [OF ids, of snd] in simp)
    then show "graph_abs (graph_notify oc (EdgeAdded ?e s t) ?g') =
        (graph_abs g)\<lparr>mg_edges := mg_edges (graph_abs g) @ [(?e, s, t, val)]\<rparr>"
      by (simp add: graph_abs_def entries_push [OF len])
  qed simp_all
qed

section \<open>Graphs built through the interface\<close>

text \<open>
  Every graph the public operations can build, as long as an identifier is left when a node
  or an edge is added, and as long as what is written through the references of \<open>node_mut\<close> and
  \<open>edge_mut\<close> keeps the identifier, the endpoints and the links. These references also expose the
  public fields \<open>id\<close>, \<open>source\<close> and \<open>target\<close>, whose change the invariant does not survive:
  see \<open>endpoint_change_panics\<close>.
\<close>

definition node_write_ok :: "('n gnode \<Rightarrow> 'n gnode) \<Rightarrow> bool" where
  "node_write_ok f \<longleftrightarrow>
     (\<forall>nd. nd_id (f nd) = nd_id nd \<and> nd_first_out (f nd) = nd_first_out nd \<and> nd_first_in (f nd) = nd_first_in nd)"

definition edge_write_ok :: "('e gedge \<Rightarrow> 'e gedge) \<Rightarrow> bool" where
  "edge_write_ok f \<longleftrightarrow>
     (\<forall>ed. ed_id (f ed) = ed_id ed \<and> ed_source (f ed) = ed_source ed \<and> ed_target (f ed) = ed_target ed \<and>
        ed_next_out (f ed) = ed_next_out ed \<and> ed_next_in (f ed) = ed_next_in ed)"

inductive graph_built :: "('n, 'e, 'o) on_change \<Rightarrow> ('n, 'e, 'o) graph \<Rightarrow> bool" for oc where
  built_new: "graph_built oc graph_new"
| built_observe: "graph_built oc g \<Longrightarrow> graph_built oc (graph_observe ob g)"
| built_add_node: "graph_built oc g \<Longrightarrow> length (g_nodes g) < id_bound \<Longrightarrow> graph_built oc (snd (add_node oc val g))"
| built_add_edge: "graph_built oc g \<Longrightarrow> length (g_edges g) < id_bound \<Longrightarrow>
    add_edge oc s t val g = Some (r, g') \<Longrightarrow> graph_built oc g'"
| built_remove_edge: "graph_built oc g \<Longrightarrow> remove_edge oc e g = Some (r, g') \<Longrightarrow> graph_built oc g'"
| built_remove_node: "graph_built oc g \<Longrightarrow> remove_node oc n g = Some (r, g') \<Longrightarrow> graph_built oc g'"
| built_node_mut: "graph_built oc g \<Longrightarrow> node_write_ok f \<Longrightarrow> graph_built oc (snd (node_mut f n g))"
| built_edge_mut: "graph_built oc g \<Longrightarrow> edge_write_ok f' \<Longrightarrow> graph_built oc (snd (edge_mut f' e g))"
| built_node_value: "graph_built oc g \<Longrightarrow> graph_built oc (snd (node_value_mut h n g))"
| built_edge_value: "graph_built oc g \<Longrightarrow> graph_built oc (snd (edge_value_mut h' e g))"

lemma graph_ok_new: "graph_ok graph_new"
  by (simp add: graph_ok_def graph_new_def slots_ok_def chains_ok_def slot_def live_def)

lemma graph_ok_observe: "graph_ok (graph_observe ob g) = graph_ok g"
  by (simp add: graph_ok_def graph_observe_def)

lemma graph_ok_same:
  assumes g: "graph_ok g"
    and ns: "same (\<lambda>nd. (nd_id nd, nd_first_out nd, nd_first_in nd)) (g_nodes g) ns"
    and es: "same (\<lambda>ed. (ed_id ed, ed_source ed, ed_target ed, ed_next_out ed, ed_next_in ed)) (g_edges g) es"
  shows "graph_ok (g\<lparr>g_nodes := ns, g_edges := es\<rparr>)"
proof -
  note ok = graph_okD [OF g]
  have "slots_ok ns es"
    by (rule slots_ok_same [OF ok(1)])
      (use same_proj [OF ns, of fst] same_proj [OF es, of "\<lambda>(i, s, t, _). (i, s, t)"] in simp_all)
  moreover have "chains_ok ed_source ed_next_out nd_first_out ns es"
    by (rule chains_ok_same [OF ok(4)])
      (use same_proj [OF ns, of "\<lambda>(_, a, _). a"] same_proj [OF es, of "\<lambda>(_, s, _, a, _). (s, a)"] in simp_all)
  moreover have "chains_ok ed_target ed_next_in nd_first_in ns es"
    by (rule chains_ok_same [OF ok(5)])
      (use same_proj [OF ns, of "\<lambda>(_, _, a). a"] same_proj [OF es, of "\<lambda>(_, _, t, _, a). (t, a)"] in simp_all)
  ultimately show ?thesis using ok(2,3) same_live [OF ns] same_live [OF es] by (simp add: graph_ok_def)
qed

lemma graph_ok_node_mut:
  assumes "graph_ok g" "node_write_ok f"
  shows "graph_ok (snd (node_mut f n g))"
proof (cases "slot (g_nodes g) n")
  case (Some nd)
  then show ?thesis
    using graph_ok_same [OF assms(1), of "(g_nodes g)[unat n := Some (f nd)]" "g_edges g"] assms(2)
    by (simp add: node_mut_def node_write_ok_def same_update)
qed (simp add: node_mut_def assms)

lemma graph_ok_edge_mut:
  assumes "graph_ok g" "edge_write_ok f"
  shows "graph_ok (snd (edge_mut f e g))"
proof (cases "slot (g_edges g) e")
  case (Some ed)
  then show ?thesis
    using graph_ok_same [OF assms(1), of "g_nodes g" "(g_edges g)[unat e := Some (f ed)]"] assms(2)
    by (simp add: edge_mut_def edge_write_ok_def same_update)
qed (simp add: edge_mut_def assms)

lemma graph_value_writes: "node_write_ok (nd_value_update h)" "edge_write_ok (ed_value_update h')"
  by (simp_all add: node_write_ok_def edge_write_ok_def)

lemma add_edge_refused: "\<not> (contains_node g s \<and> contains_node g t) \<Longrightarrow> add_edge oc s t val g = Some (None, g)"
  by (auto simp: add_edge_def contains_node_def graph_node_def split: option.splits)

lemma remove_node_absent: "graph_node g n = None \<Longrightarrow> remove_node oc n g = Some (None, g)"
  by (simp add: remove_node_def contains_node_def graph_node_def)

lemma graph_built_ok: "graph_built oc g \<Longrightarrow> graph_ok g"
proof (induction rule: graph_built.induct)
  case built_new
  show ?case by (rule graph_ok_new)
next
  case (built_observe g ob)
  then show ?case by (simp add: graph_ok_observe)
next
  case (built_add_node g val)
  with add_node_ok [of g oc val] show ?case by (metis snd_conv)
next
  case (built_add_edge g s t val r g')
  then show ?case
    using add_edge_ok [of g s t oc val] add_edge_refused [of g s t oc val]
    by (cases "contains_node g s \<and> contains_node g t") (metis option.inject prod.inject)+
next
  case (built_remove_edge g e r g')
  then show ?case
    using remove_edge_dead [of g e oc] remove_edge_live [of g e _ oc]
    by (cases "graph_edge g e") (metis option.inject prod.inject)+
next
  case (built_remove_node g n r g')
  then show ?case
    using remove_node_absent [of g n oc] remove_node_live [of g n _ oc]
    by (cases "graph_node g n") (metis option.inject prod.inject)+
next
  case (built_node_mut g f n)
  then show ?case by (simp add: graph_ok_node_mut)
next
  case (built_edge_mut g f' e)
  then show ?case by (simp add: graph_ok_edge_mut)
next
  case (built_node_value g h n)
  then show ?case by (simp add: graph_ok_node_mut node_value_mut_def graph_value_writes)
next
  case (built_edge_value g h' e)
  then show ?case by (simp add: graph_ok_edge_mut edge_value_mut_def graph_value_writes)
qed

text \<open>The view the graph algorithms run on.\<close>

interpretation stored: view_provider graph_ok graph_nodes view_successors
proof
  fix g :: "('n, 'e, 'o) graph" and n
  assume g: "graph_ok g"
  show "distinct (graph_nodes g)" by (simp add: graph_nodes_def distinct_live graph_okD [OF g])
  show "set (view_successors g n) \<subseteq> set (graph_nodes g)"
    using slots_ok_edge [OF graph_okD(1) [OF g]]
    by (auto simp: view_successors_def graph_successors_eq [OF g] mg_out_def graph_abs_def
        entries_iff graph_okD [OF g] graph_nodes_def live_iff)
qed

section \<open>Properties\<close>

text \<open>A graph used as a concrete input: two nodes, an edge each way and a loop, with a recording observer.\<close>

definition record_event :: "(nat, nat, graph_event list) on_change" where
  "record_event = (\<lambda>log _ event. log @ [event])"

definition with_edge :: "node_id \<Rightarrow> node_id \<Rightarrow> nat \<Rightarrow> (nat, nat, graph_event list) graph \<Rightarrow> (nat, nat, graph_event list) graph" where
  "with_edge s t val g = (case add_edge record_event s t val g of None \<Rightarrow> g | Some (_, g') \<Rightarrow> g')"

definition sample_graph :: "(nat, nat, graph_event list) graph" where
  "sample_graph = with_edge 1 0 9 (with_edge 1 1 8 (with_edge 0 1 7
     (snd (add_node record_event 20 (snd (add_node record_event 10 (graph_observe [] graph_new)))))))"

lemma built_with_edge:
  "graph_built record_event g \<Longrightarrow> length (g_edges g) < id_bound \<Longrightarrow> graph_built record_event (with_edge s t val g)"
  by (auto simp: with_edge_def intro: built_add_edge split: option.splits)

lemma sample_graph_built: "graph_built record_event sample_graph"
proof -
  let ?g = "snd (add_node record_event 20 (snd (add_node record_event 10 (graph_observe [] graph_new))))"
  have small: "n \<le> 2 \<Longrightarrow> n < id_bound" for n by (simp add: id_bound_def)
  have "length (g_nodes (snd (add_node record_event 10 (graph_observe [] graph_new)))) \<le> 2"
    "length (g_nodes (graph_observe [] graph_new :: (nat, nat, graph_event list) graph)) \<le> 2" by code_simp+
  then have "graph_built record_event ?g" by (intro built_add_node built_observe built_new small)
  moreover have "length (g_edges ?g) \<le> 2" "length (g_edges (with_edge 0 1 7 ?g)) \<le> 2"
    "length (g_edges (with_edge 1 1 8 (with_edge 0 1 7 ?g))) \<le> 2" by code_simp+
  ultimately show ?thesis unfolding sample_graph_def by (intro built_with_edge small)
qed

lemma add_edge_total: "add_edge oc s t val g \<noteq> None"
proof (cases "contains_node g s \<and> contains_node g t")
  case True
  then obtain sn tn where n: "slot (g_nodes g) s = Some sn" "slot (g_nodes g) t = Some tn"
    by (auto simp: contains_node_def)
  then obtain tn1 where
    "slot ((g_nodes g)[unat s := Some (sn\<lparr>nd_first_out := Some (next_id (g_edges g))\<rparr>)]) t = Some tn1"
    by (cases "t = s") (auto simp: slot_update slot_Some_less)
  with n show ?thesis by (simp add: add_edge_def graph_node_def Let_def set_slot_Some)
qed (simp add: add_edge_refused)

lemma graph_ok_remove_edge:
  assumes "graph_ok g"
  shows "\<exists>g'. remove_edge oc e g = Some (graph_edge g e, g') \<and> graph_ok g' \<and>
           graph_abs g' = mg_remove_edge e (graph_abs g)"
proof (cases "graph_edge g e")
  case None
  then have "map_of (mg_edges (graph_abs g)) e = None" using edge_lookup [OF assms, of e] by simp
  with None show ?thesis using assms by (simp add: remove_edge_dead mg_remove_edge_absent)
next
  case (Some ed)
  from remove_edge_live [OF assms Some, of oc] show ?thesis unfolding Some by blast
qed

lemma mg_remove_node_absent:
  assumes g: "graph_ok g" and n: "graph_node g n = None"
  shows "mg_remove_node n (graph_abs g) = graph_abs g"
proof -
  have nodes: "\<forall>(x, _)\<in>set (mg_nodes (graph_abs g)). x \<noteq> n"
    using n by (auto simp: graph_abs_def entries_iff graph_okD [OF g] graph_node_def)
  have edges: "\<forall>(_, s, t, _)\<in>set (mg_edges (graph_abs g)). s \<noteq> n \<and> t \<noteq> n"
    using n by (auto simp: graph_abs_def entries_iff graph_okD [OF g] graph_node_def
        dest!: slots_ok_edge [OF graph_okD(1) [OF g]])
  show ?thesis
    by (rule multigraph.equality) (use nodes edges in \<open>auto simp: mg_remove_node_def filter_id_conv\<close>)
qed

lemma graph_ok_remove_node:
  assumes "graph_ok g"
  shows "\<exists>r g'. remove_node oc n g = Some (r, g') \<and> graph_ok g' \<and>
           map_option (\<lambda>nd. (nd_id nd, nd_value nd)) r = map_option (Pair n) (node_value g n) \<and>
           graph_abs g' = mg_remove_node n (graph_abs g)"
proof (cases "graph_node g n")
  case None
  with assms show ?thesis
    by (intro exI [of _ None] exI [of _ g])
      (simp add: remove_node_absent node_value_def mg_remove_node_absent)
next
  case (Some nd)
  from remove_node_live [OF assms Some, of oc] obtain g' nd' where "remove_node oc n g = Some (Some nd', g')"
    "nd_id nd' = n" "nd_value nd' = nd_value nd" "graph_ok g'" "graph_abs g' = mg_remove_node n (graph_abs g)" .
  with Some show ?thesis by (simp add: node_value_def)
qed

text \<open>
  C4: on every graph built through the interface no operation panics or runs forever. The
  graph satisfies the invariant: identifiers match slots, edges join live nodes, the counters
  are right, and the two lists of every node hold exactly its incident edges. Built through the
  interface means: by \<open>new\<close>, \<open>observe\<close>, \<open>add_node\<close>, \<open>add_edge\<close>, \<open>remove_edge\<close>, \<open>remove_node\<close> and the four
  mutable accessors, with at most \<open>2 ^ 32\<close> slots for nodes and for edges, and without changing
  identifiers, endpoints or links through \<open>node_mut\<close> and \<open>edge_mut\<close>.
\<close>

theorem graph_interface_safe:
  assumes "graph_built oc g"
  shows "graph_ok g \<and> (\<forall>s t val. add_edge oc s t val g \<noteq> None) \<and> (\<forall>e. remove_edge oc e g \<noteq> None) \<and>
         (\<forall>n. remove_node oc n g \<noteq> None) \<and>
         (\<forall>n. outgoing_edges g n \<noteq> None \<and> incoming_edges g n \<noteq> None) \<and>
         (\<forall>n. graph_successors g n \<noteq> None \<and> graph_predecessors g n \<noteq> None)"
proof -
  have ok: "graph_ok g" by (rule graph_built_ok [OF assms])
  have "remove_edge oc e g \<noteq> None" for e using graph_ok_remove_edge [OF ok, of oc e] by auto
  moreover have "remove_node oc n g \<noteq> None" for n using graph_ok_remove_node [OF ok, of oc n] by auto
  ultimately show ?thesis
    using ok by (simp add: add_edge_total graph_successors_eq graph_predecessors_eq outgoing_edges_eq incoming_edges_eq)
qed

theorem graph_interface_safe_witness:
  "graph_ok sample_graph \<and> remove_node record_event 1 sample_graph \<noteq> None"
  using graph_interface_safe [OF sample_graph_built] by simp

text \<open>
  What the restriction on \<open>edge_mut\<close> excludes: once the public field \<open>source\<close> of an edge names a slot
  that does not exist, removing the edge panics.
\<close>

lemma endpoint_change_panics:
  "remove_edge record_event 0 (snd (edge_mut (\<lambda>ed. ed\<lparr>ed_source := 7\<rparr>) 0 sample_graph)) = None"
  by code_simp

text \<open>
  C22: removing an edge returns the edge and leaves the multigraph without it, every other edge
  and every node as before; removing an edge that is not there changes nothing.
\<close>

theorem remove_edge_refines:
  assumes "graph_ok g"
  shows "\<exists>g'. remove_edge oc e g = Some (graph_edge g e, g') \<and> graph_ok g' \<and>
           graph_abs g' = mg_remove_edge e (graph_abs g)"
  by (rule graph_ok_remove_edge [OF assms])

theorem remove_edge_refines_witness:
  "\<exists>g'. remove_edge record_event 1 sample_graph = Some (graph_edge sample_graph 1, g') \<and> graph_ok g' \<and>
     mg_edges (graph_abs g') = [(0, 0, 1, 7), (2, 1, 0, 9)]"
proof -
  have "mg_edges (mg_remove_edge 1 (graph_abs sample_graph)) = [(0, 0, 1, 7), (2, 1, 0, 9)]" by code_simp
  with remove_edge_refines [OF graph_built_ok [OF sample_graph_built], of record_event 1] show ?thesis by auto
qed

text \<open>
  C10: removing a node returns its value and leaves the multigraph without it and without its
  incident edges. An observer is told of the node first, then of each incident edge that is
  still there, outgoing ones before incoming ones, before and after its removal, and last of
  the node again.
\<close>

theorem remove_node_refines:
  assumes "graph_ok g" "graph_node g n = Some nd"
  shows "\<exists>nd' g'. remove_node (\<lambda>ob _ ev. f ob ev) n g = Some (Some nd', g') \<and> graph_ok g' \<and>
           nd_id nd' = n \<and> nd_value nd' = nd_value nd \<and>
           graph_abs g' = mg_remove_node n (graph_abs g) \<and>
           g_observers g' = map (\<lambda>ob. foldl f ob (NodeRemoving n #
             removal_events (graph_abs g) (incident_edges n (graph_abs g)) @ [NodeRemoved n])) (g_observers g)"
  using remove_node_live [OF assms, where oc = "\<lambda>ob _ ev. f ob ev"] by blast

theorem remove_node_refines_witness:
  "\<exists>nd' g'. remove_node (\<lambda>log _ ev. log @ [ev]) 1 sample_graph = Some (Some nd', g') \<and> graph_ok g' \<and>
     nd_value nd' = 20 \<and> mg_edges (graph_abs g') = [] \<and>
     map (drop 5) (g_observers g') = [[NodeRemoving 1, EdgeRemoving 2 1 0, EdgeRemoved 2 1 0, EdgeRemoving 1 1 1,
       EdgeRemoved 1 1 1, EdgeRemoving 0 0 1, EdgeRemoved 0 0 1, NodeRemoved 1]]"
proof -
  let ?events = "NodeRemoving 1 # removal_events (graph_abs sample_graph)
    (incident_edges 1 (graph_abs sample_graph)) @ [NodeRemoved 1]"
  have "node_value sample_graph 1 = Some 20" by code_simp
  then obtain nd where nd: "graph_node sample_graph 1 = Some nd" "nd_value nd = 20"
    by (auto simp: node_value_def)
  have after: "mg_edges (mg_remove_node 1 (graph_abs sample_graph)) = []"
    "map (drop 5) (map (\<lambda>log. foldl (\<lambda>log ev. log @ [ev]) log ?events) (g_observers sample_graph)) =
     [[NodeRemoving 1, EdgeRemoving 2 1 0, EdgeRemoved 2 1 0, EdgeRemoving 1 1 1,
       EdgeRemoved 1 1 1, EdgeRemoving 0 0 1, EdgeRemoved 0 0 1, NodeRemoved 1]]"
    by code_simp+
  obtain nd' g' where run: "remove_node (\<lambda>log _ ev. log @ [ev]) 1 sample_graph = Some (Some nd', g')"
    "graph_ok g'" "nd_value nd' = nd_value nd" "graph_abs g' = mg_remove_node 1 (graph_abs sample_graph)"
    "g_observers g' = map (\<lambda>log. foldl (\<lambda>log ev. log @ [ev]) log ?events) (g_observers sample_graph)"
    using remove_node_refines [OF graph_built_ok [OF sample_graph_built] nd(1), of "\<lambda>log ev. log @ [ev]"] by blast
  show ?thesis
    by (intro exI [of _ nd'] exI [of _ g'] conjI) (simp_all only: run nd(2) after)
qed

text \<open>
  adding a node or an edge returns an identifier not in use and appends one entry to the
  multigraph; an edge whose source or target is not a live node is refused.
\<close>

lemma add_refines:
  assumes "graph_ok g" "length (g_nodes g) < id_bound" "length (g_edges g) < id_bound"
  shows "(\<exists>n g'. add_node oc val g = (n, g') \<and> graph_ok g' \<and> graph_node g n = None \<and>
            graph_abs g' = (graph_abs g)\<lparr>mg_nodes := mg_nodes (graph_abs g) @ [(n, val)]\<rparr>) \<and>
         (if contains_node g s \<and> contains_node g t
          then \<exists>e g'. add_edge oc s t w g = Some (Some e, g') \<and> graph_ok g' \<and> graph_edge g e = None \<and>
                 graph_abs g' = (graph_abs g)\<lparr>mg_edges := mg_edges (graph_abs g) @ [(e, s, t, w)]\<rparr>
          else add_edge oc s t w g = Some (None, g))"
proof (rule conjI)
  from add_node_ok [OF assms(1,2), of oc val]
  show "\<exists>n g'. add_node oc val g = (n, g') \<and> graph_ok g' \<and> graph_node g n = None \<and>
            graph_abs g' = (graph_abs g)\<lparr>mg_nodes := mg_nodes (graph_abs g) @ [(n, val)]\<rparr>" by blast
next
  show "if contains_node g s \<and> contains_node g t
          then \<exists>e g'. add_edge oc s t w g = Some (Some e, g') \<and> graph_ok g' \<and> graph_edge g e = None \<and>
                 graph_abs g' = (graph_abs g)\<lparr>mg_edges := mg_edges (graph_abs g) @ [(e, s, t, w)]\<rparr>
          else add_edge oc s t w g = Some (None, g)"
  proof (cases "contains_node g s \<and> contains_node g t")
    case True
    then have "contains_node g s" "contains_node g t" by simp_all
    from add_edge_ok [OF assms(1,3) this, of oc w] True show ?thesis unfolding if_P [OF True] by blast
  next
    case False
    then show ?thesis unfolding if_not_P [OF False] by (rule add_edge_refused)
  qed
qed

theorem add_refines_witness:
  "(\<exists>n g'. add_node record_event 5 sample_graph = (n, g') \<and> graph_ok g' \<and>
      mg_nodes (graph_abs g') = [(0, 10), (1, 20), (n, 5)]) \<and>
   add_edge record_event 0 3 6 sample_graph = Some (None, sample_graph)"
proof -
  have "graph_ok sample_graph" by (rule graph_built_ok [OF sample_graph_built])
  moreover have "length (g_nodes sample_graph) = 2" "length (g_edges sample_graph) = 3"
    "mg_nodes (graph_abs sample_graph) = [(0, 10), (1, 20)]" "\<not> contains_node sample_graph 3" by code_simp+
  moreover have "2 < id_bound" "3 < id_bound" by (simp_all add: id_bound_def)
  ultimately show ?thesis using add_refines [of sample_graph record_event 5 0 3 6] by auto
qed

text \<open>
  C23: on a graph that satisfies the invariant the read-only methods of \<open>Graph\<close> read the multigraph: the
  nodes and edges in order of insertion, what is stored under an identifier (with the identifier, the
  value and, for an edge, the endpoints), whether there is anything, the counters and emptiness,
  and for each node its outgoing and incoming edges, newest first, with the nodes at their other ends.
\<close>

theorem graph_queries:
  assumes "graph_ok g"
  shows "graph_nodes g = map fst (mg_nodes (graph_abs g)) \<and> graph_edges g = map fst (mg_edges (graph_abs g)) \<and>
         node_count g = length (mg_nodes (graph_abs g)) \<and> edge_count g = length (mg_edges (graph_abs g)) \<and>
         (graph_is_empty g \<longleftrightarrow> mg_nodes (graph_abs g) = []) \<and>
         (contains_node g n \<longleftrightarrow> n \<in> fst ` set (mg_nodes (graph_abs g))) \<and>
         (contains_edge g e \<longleftrightarrow> e \<in> fst ` set (mg_edges (graph_abs g))) \<and>
         map_option (\<lambda>nd. (nd_id nd, nd_value nd)) (graph_node g n) =
           map_option (Pair n) (map_of (mg_nodes (graph_abs g)) n) \<and>
         map_option (\<lambda>ed. (ed_id ed, ed_source ed, ed_target ed, ed_value ed)) (graph_edge g e) =
           map_option (Pair e) (map_of (mg_edges (graph_abs g)) e) \<and>
         node_value g n = map_of (mg_nodes (graph_abs g)) n \<and>
         edge_value g e = map_option (\<lambda>(_, _, val). val) (map_of (mg_edges (graph_abs g)) e) \<and>
         endpoints g e = map_option (\<lambda>(s, t, _). (s, t)) (map_of (mg_edges (graph_abs g)) e) \<and>
         outgoing_edges g n = Some (map fst (mg_out n (graph_abs g))) \<and>
         incoming_edges g n = Some (map fst (mg_in n (graph_abs g))) \<and>
         graph_successors g n = Some (map (\<lambda>(_, _, t, _). t) (mg_out n (graph_abs g))) \<and>
         graph_predecessors g n = Some (map (\<lambda>(_, s, _, _). s) (mg_in n (graph_abs g)))"
proof -
  note ok = graph_okD [OF assms]
  have "graph_nodes g = map fst (mg_nodes (graph_abs g))" "graph_edges g = map fst (mg_edges (graph_abs g))"
    by (simp_all add: graph_nodes_def graph_edges_def graph_abs_def fst_entries)
  moreover from this have "node_count g = length (mg_nodes (graph_abs g))" "edge_count g = length (mg_edges (graph_abs g))"
    using ok by (metis node_count_def graph_nodes_def length_map, metis edge_count_def graph_edges_def length_map)
  moreover from this(1) have "graph_is_empty g \<longleftrightarrow> mg_nodes (graph_abs g) = []"
    by (simp add: graph_is_empty_def node_count_def)
  moreover have "contains_node g n \<longleftrightarrow> n \<in> fst ` set (mg_nodes (graph_abs g))"
    using node_lookup [OF assms, of n] map_of_eq_None_iff [of "mg_nodes (graph_abs g)" n]
    by (auto simp: contains_node_def node_value_def graph_node_def)
  moreover have "contains_edge g e \<longleftrightarrow> e \<in> fst ` set (mg_edges (graph_abs g))"
    using edge_lookup [OF assms, of e] map_of_eq_None_iff [of "mg_edges (graph_abs g)" e]
    by (auto simp: contains_edge_def graph_edge_def)
  moreover have "map_option (\<lambda>nd. (nd_id nd, nd_value nd)) (graph_node g n) = map_option (Pair n) (node_value g n)"
    using slots_ok_node [OF ok(1)] by (cases "graph_node g n") (auto simp: node_value_def graph_node_def)
  moreover have "map_option (\<lambda>ed. (ed_id ed, ed_source ed, ed_target ed, ed_value ed)) (graph_edge g e) =
      map_option (Pair e) (map_of (mg_edges (graph_abs g)) e)"
    using slots_ok_edge [OF ok(1)] by (cases "graph_edge g e") (auto simp: edge_lookup [OF assms] graph_edge_def)
  moreover have "edge_value g e = map_option (\<lambda>(_, _, val). val) (map_of (mg_edges (graph_abs g)) e)"
    "endpoints g e = map_option (\<lambda>(s, t, _). (s, t)) (map_of (mg_edges (graph_abs g)) e)"
    by (simp_all add: edge_lookup [OF assms] edge_value_def endpoints_def option.map_comp o_def)
  ultimately show ?thesis
    using assms by (simp add: node_lookup outgoing_edges_eq incoming_edges_eq graph_successors_eq graph_predecessors_eq)
qed

theorem graph_queries_witness:
  "graph_successors sample_graph 1 = Some [0, 1] \<and> graph_predecessors sample_graph 1 = Some [1, 0]"
proof -
  have "mg_out 1 (graph_abs sample_graph) = [(2, 1, 0, 9), (1, 1, 1, 8)]"
    "mg_in 1 (graph_abs sample_graph) = [(1, 1, 1, 8), (0, 0, 1, 7)]" by code_simp+
  with graph_queries [OF graph_built_ok [OF sample_graph_built], of 1] show ?thesis by simp
qed

end
