(* ===== verification/UseList.thy ===== *)
theory UseList
  imports Chains
begin

text \<open>
  \<open>etas_utils/src/graph/use_list.rs\<close>: which user uses which operand. The uses of an operand
  form a doubly linked list threaded through the uses, the most recently attached use first;
  a user holds its uses in numbered slots. The methods return \<open>Option\<close> and leave through \<open>?\<close>
  wherever a record is missing, keeping the changes made so far: \<open>and_then\<close> is that sequencing.
  The outer \<open>option\<close> of the removing methods is \<open>None\<close> when a counter would drop below zero
  (a panic), that of the walks when a list is cyclic; the number of use slots bounds a walk.
\<close>

section \<open>The data\<close>

type_synonym operand_id = u32
type_synonym user_id = u32
type_synonym use_id = u32

record 'o operand =
  op_id :: operand_id
  op_value :: 'o
  op_first_use :: "use_id option"

record 'u user =
  us_id :: user_id
  us_value :: 'u
  us_operand_slots :: "use_id option list"

record use_rec =
  u_id :: use_id
  u_user :: user_id
  u_operand_index :: nat
  u_operand :: operand_id
  u_prev_use :: "use_id option"
  u_next_use :: "use_id option"

record ('u, 'o) use_list =
  ul_users :: "'u user option list"
  ul_operands :: "'o operand option list"
  ul_uses :: "use_rec option list"
  ul_live_users :: nat
  ul_live_operands :: nat
  ul_live_uses :: nat

definition use_list_new :: "('u, 'o) use_list" where
  "use_list_new = \<lparr>ul_users = [], ul_operands = [], ul_uses = [],
     ul_live_users = 0, ul_live_operands = 0, ul_live_uses = 0\<rparr>"

section \<open>Queries\<close>

definition operand_slot_count :: "'u user \<Rightarrow> nat" where
  "operand_slot_count us = length (us_operand_slots us)"

definition use_at :: "'u user \<Rightarrow> nat \<Rightarrow> use_id option" where
  "use_at us index = (if index < length (us_operand_slots us) then us_operand_slots us ! index else None)"

definition ul_user :: "('u, 'o) use_list \<Rightarrow> user_id \<Rightarrow> 'u user option" where
  "ul_user s user = slot (ul_users s) user"

definition ul_operand :: "('u, 'o) use_list \<Rightarrow> operand_id \<Rightarrow> 'o operand option" where
  "ul_operand s operand = slot (ul_operands s) operand"

definition ul_use :: "('u, 'o) use_list \<Rightarrow> use_id \<Rightarrow> use_rec option" where
  "ul_use s use_id = slot (ul_uses s) use_id"

definition contains_user :: "('u, 'o) use_list \<Rightarrow> user_id \<Rightarrow> bool" where
  "contains_user s user \<longleftrightarrow> slot (ul_users s) user \<noteq> None"

definition contains_operand :: "('u, 'o) use_list \<Rightarrow> operand_id \<Rightarrow> bool" where
  "contains_operand s operand \<longleftrightarrow> slot (ul_operands s) operand \<noteq> None"

definition contains_use :: "('u, 'o) use_list \<Rightarrow> use_id \<Rightarrow> bool" where
  "contains_use s use_id \<longleftrightarrow> slot (ul_uses s) use_id \<noteq> None"

definition user_value :: "('u, 'o) use_list \<Rightarrow> user_id \<Rightarrow> 'u option" where
  "user_value s user = map_option us_value (ul_user s user)"

definition operand_value :: "('u, 'o) use_list \<Rightarrow> operand_id \<Rightarrow> 'o option" where
  "operand_value s operand = map_option op_value (ul_operand s operand)"

definition user_count :: "('u, 'o) use_list \<Rightarrow> nat" where
  "user_count s = ul_live_users s"

definition operand_count :: "('u, 'o) use_list \<Rightarrow> nat" where
  "operand_count s = ul_live_operands s"

definition use_count :: "('u, 'o) use_list \<Rightarrow> nat" where
  "use_count s = ul_live_uses s"

text \<open>The walk along the uses of an operand; a link to a missing use returns \<open>None\<close>.\<close>

fun uses_walk :: "nat \<Rightarrow> use_rec option list \<Rightarrow> use_id option \<Rightarrow> use_id list option option" where
  "uses_walk fuel us None = Some (Some [])"
| "uses_walk 0 us (Some x) = None"
| "uses_walk (Suc fuel) us (Some x) =
     (case slot us x of
        None \<Rightarrow> Some None
      | Some u \<Rightarrow> map_option (map_option (Cons x)) (uses_walk fuel us (u_next_use u)))"

definition operand_uses :: "('u, 'o) use_list \<Rightarrow> operand_id \<Rightarrow> use_id list option option" where
  "operand_uses s operand =
     (case ul_operand s operand of
        None \<Rightarrow> Some None
      | Some od \<Rightarrow> uses_walk (Suc (length (ul_uses s))) (ul_uses s) (op_first_use od))"

definition user_uses :: "('u, 'o) use_list \<Rightarrow> user_id \<Rightarrow> use_id list option" where
  "user_uses s user = map_option (\<lambda>us. List.map_filter id (us_operand_slots us)) (ul_user s user)"

text \<open>Collecting an iterator of options into an optional vector.\<close>

fun collect_options :: "'a option list \<Rightarrow> 'a list option" where
  "collect_options [] = Some []"
| "collect_options (x # xs) =
     (case x of None \<Rightarrow> None | Some a \<Rightarrow> map_option (Cons a) (collect_options xs))"

definition user_operands :: "('u, 'o) use_list \<Rightarrow> user_id \<Rightarrow> operand_id list option" where
  "user_operands s user =
     (case user_uses s user of
        None \<Rightarrow> None
      | Some uses \<Rightarrow> collect_options (map (\<lambda>use_id. map_option u_operand (ul_use s use_id)) uses))"

section \<open>Changes\<close>

definition and_then :: "'a option \<times> 's \<Rightarrow> ('a \<Rightarrow> 's \<Rightarrow> 'b option \<times> 's) \<Rightarrow> 'b option \<times> 's" where
  "and_then r f = (case r of (None, s) \<Rightarrow> (None, s) | (Some a, s) \<Rightarrow> f a s)"

text \<open>
  \<open>user_mut\<close>, \<open>operand_mut\<close> and \<open>use_mut\<close> hand out a reference; the change made through it is
  the argument \<open>f\<close>.
\<close>

definition user_mut :: "('u user \<Rightarrow> 'u user) \<Rightarrow> user_id \<Rightarrow> ('u, 'o) use_list \<Rightarrow> unit option \<times> ('u, 'o) use_list" where
  "user_mut f user s =
     (case slot (ul_users s) user of
        None \<Rightarrow> (None, s)
      | Some us \<Rightarrow> (Some (), s\<lparr>ul_users := (ul_users s)[unat user := Some (f us)]\<rparr>))"

definition operand_mut :: "('o operand \<Rightarrow> 'o operand) \<Rightarrow> operand_id \<Rightarrow> ('u, 'o) use_list \<Rightarrow> unit option \<times> ('u, 'o) use_list" where
  "operand_mut f operand s =
     (case slot (ul_operands s) operand of
        None \<Rightarrow> (None, s)
      | Some od \<Rightarrow> (Some (), s\<lparr>ul_operands := (ul_operands s)[unat operand := Some (f od)]\<rparr>))"

definition use_mut :: "(use_rec \<Rightarrow> use_rec) \<Rightarrow> use_id \<Rightarrow> ('u, 'o) use_list \<Rightarrow> unit option \<times> ('u, 'o) use_list" where
  "use_mut f use_id s =
     (case slot (ul_uses s) use_id of
        None \<Rightarrow> (None, s)
      | Some u \<Rightarrow> (Some (), s\<lparr>ul_uses := (ul_uses s)[unat use_id := Some (f u)]\<rparr>))"

definition user_value_mut :: "('u \<Rightarrow> 'u) \<Rightarrow> user_id \<Rightarrow> ('u, 'o) use_list \<Rightarrow> unit option \<times> ('u, 'o) use_list" where
  "user_value_mut f = user_mut (us_value_update f)"

definition operand_value_mut :: "('o \<Rightarrow> 'o) \<Rightarrow> operand_id \<Rightarrow> ('u, 'o) use_list \<Rightarrow> unit option \<times> ('u, 'o) use_list" where
  "operand_value_mut f = operand_mut (op_value_update f)"

definition add_operand :: "'o \<Rightarrow> ('u, 'o) use_list \<Rightarrow> operand_id \<times> ('u, 'o) use_list" where
  "add_operand val s =
     (let operand = next_id (ul_operands s)
      in (operand, s\<lparr>ul_operands := ul_operands s @ [Some \<lparr>op_id = operand, op_value = val, op_first_use = None\<rparr>],
                     ul_live_operands := ul_live_operands s + 1\<rparr>))"

definition add_user :: "'u \<Rightarrow> ('u, 'o) use_list \<Rightarrow> user_id \<times> ('u, 'o) use_list" where
  "add_user val s =
     (let user = next_id (ul_users s)
      in (user, s\<lparr>ul_users := ul_users s @ [Some \<lparr>us_id = user, us_value = val, us_operand_slots = []\<rparr>],
                  ul_live_users := ul_live_users s + 1\<rparr>))"

text \<open>\<open>if let Some(x) = link { self.use_mut(x)?.field = v; }\<close>\<close>

definition if_linked :: "use_id option \<Rightarrow> (use_rec \<Rightarrow> use_rec) \<Rightarrow> ('u, 'o) use_list \<Rightarrow> unit option \<times> ('u, 'o) use_list" where
  "if_linked link f s = (case link of None \<Rightarrow> (Some (), s) | Some x \<Rightarrow> use_mut f x s)"

definition append_use :: "user_id \<Rightarrow> operand_id \<Rightarrow> ('u, 'o) use_list \<Rightarrow> use_id option \<times> ('u, 'o) use_list" where
  "append_use user operand s =
     (case (ul_user s user, ul_operand s operand) of
        (Some us, Some od) \<Rightarrow>
          (let new = next_id (ul_uses s); next_use = op_first_use od;
               s = s\<lparr>ul_uses := ul_uses s @ [Some \<lparr>u_id = new, u_user = user,
                       u_operand_index = operand_slot_count us, u_operand = operand,
                       u_prev_use = None, u_next_use = next_use\<rparr>]\<rparr>
           in and_then (if_linked next_use (u_prev_use_update (\<lambda>_. Some new)) s) (\<lambda>_ s.
              and_then (operand_mut (op_first_use_update (\<lambda>_. Some new)) operand s) (\<lambda>_ s.
              and_then (user_mut (\<lambda>us. us\<lparr>us_operand_slots := us_operand_slots us @ [Some new]\<rparr>) user s) (\<lambda>_ s.
              (Some new, s\<lparr>ul_live_uses := ul_live_uses s + 1\<rparr>)))))
      | _ \<Rightarrow> (None, s))"

definition detach_use_from_operand :: "use_id \<Rightarrow> ('u, 'o) use_list \<Rightarrow> operand_id option \<times> ('u, 'o) use_list" where
  "detach_use_from_operand use_id s =
     (case ul_use s use_id of
        None \<Rightarrow> (None, s)
      | Some u \<Rightarrow>
          and_then (case u_prev_use u of
                      Some prev_use \<Rightarrow> use_mut (u_next_use_update (\<lambda>_. u_next_use u)) prev_use s
                    | None \<Rightarrow> operand_mut (op_first_use_update (\<lambda>_. u_next_use u)) (u_operand u) s) (\<lambda>_ s.
          and_then (if_linked (u_next_use u) (u_prev_use_update (\<lambda>_. u_prev_use u)) s) (\<lambda>_ s.
          and_then (use_mut (\<lambda>r. r\<lparr>u_prev_use := None, u_next_use := None\<rparr>) use_id s) (\<lambda>_ s.
          (Some (u_operand u), s)))))"

definition attach_use_to_operand :: "use_id \<Rightarrow> operand_id \<Rightarrow> ('u, 'o) use_list \<Rightarrow> unit option \<times> ('u, 'o) use_list" where
  "attach_use_to_operand use_id operand s =
     (case ul_operand s operand of
        None \<Rightarrow> (None, s)
      | Some od \<Rightarrow>
          and_then (use_mut (\<lambda>r. r\<lparr>u_operand := operand, u_prev_use := None, u_next_use := op_first_use od\<rparr>) use_id s) (\<lambda>_ s.
          and_then (if_linked (op_first_use od) (u_prev_use_update (\<lambda>_. Some use_id)) s) (\<lambda>_ s.
          operand_mut (op_first_use_update (\<lambda>_. Some use_id)) operand s)))"

definition set_use_operand :: "use_id \<Rightarrow> operand_id \<Rightarrow> ('u, 'o) use_list \<Rightarrow> operand_id option \<times> ('u, 'o) use_list" where
  "set_use_operand use_id operand s =
     (if \<not> contains_use s use_id \<or> \<not> contains_operand s operand then (None, s)
      else case ul_use s use_id of
        None \<Rightarrow> (None, s)
      | Some u \<Rightarrow>
          if u_operand u = operand then (Some (u_operand u), s)
          else and_then (detach_use_from_operand use_id s) (\<lambda>_ s.
               and_then (attach_use_to_operand use_id operand s) (\<lambda>_ s.
               (Some (u_operand u), s))))"

definition set_user_operand :: "user_id \<Rightarrow> nat \<Rightarrow> operand_id \<Rightarrow> ('u, 'o) use_list \<Rightarrow> operand_id option \<times> ('u, 'o) use_list" where
  "set_user_operand user operand_index operand s =
     (case Option.bind (ul_user s user) (\<lambda>us. use_at us operand_index) of
        None \<Rightarrow> (None, s)
      | Some use_id \<Rightarrow> set_use_operand use_id operand s)"

text \<open>The loop of \<open>replace_all_uses_with\<close>; the outer \<open>None\<close> is the loop not ending.\<close>

fun replace_loop :: "nat \<Rightarrow> operand_id \<Rightarrow> operand_id \<Rightarrow> nat \<Rightarrow> ('u, 'o) use_list \<Rightarrow> (nat option \<times> ('u, 'o) use_list) option" where
  "replace_loop fuel from_op to_op replaced s =
     (case ul_operand s from_op of
        None \<Rightarrow> Some (None, s)
      | Some od \<Rightarrow>
          (case op_first_use od of
             None \<Rightarrow> Some (Some replaced, s)
           | Some use_id \<Rightarrow>
               (case fuel of
                  0 \<Rightarrow> None
                | Suc fuel \<Rightarrow>
                    (case set_use_operand use_id to_op s of
                       (None, s) \<Rightarrow> Some (None, s)
                     | (Some _, s) \<Rightarrow> replace_loop fuel from_op to_op (replaced + 1) s))))"

definition replace_all_uses_with :: "operand_id \<Rightarrow> operand_id \<Rightarrow> ('u, 'o) use_list \<Rightarrow> (nat option \<times> ('u, 'o) use_list) option" where
  "replace_all_uses_with from_op to_op s =
     (if from_op = to_op then Some (Some 0, s)
      else if \<not> contains_operand s from_op \<or> \<not> contains_operand s to_op then Some (None, s)
      else replace_loop (Suc (length (ul_uses s))) from_op to_op 0 s)"

text \<open>\<open>if let Some(slot) = user.operand_slots.get_mut(index) { *slot = None; }\<close>\<close>

definition clear_slot :: "nat \<Rightarrow> 'u user \<Rightarrow> 'u user" where
  "clear_slot index us = us\<lparr>us_operand_slots := (us_operand_slots us)[index := None]\<rparr>"

definition remove_use :: "use_id \<Rightarrow> ('u, 'o) use_list \<Rightarrow> (use_rec option \<times> ('u, 'o) use_list) option" where
  "remove_use use_id s =
     (case ul_use s use_id of
        None \<Rightarrow> Some (None, s)
      | Some u \<Rightarrow>
          (case and_then (detach_use_from_operand use_id s) (\<lambda>_ s.
                  user_mut (clear_slot (u_operand_index u)) (u_user u) s) of
             (None, s) \<Rightarrow> Some (None, s)
           | (Some _, s) \<Rightarrow>
               if ul_live_uses s = 0 then None
               else Some (slot (ul_uses s) use_id,
                          s\<lparr>ul_live_uses := ul_live_uses s - 1, ul_uses := (ul_uses s)[unat use_id := None]\<rparr>)))"

definition remove_user :: "user_id \<Rightarrow> ('u, 'o) use_list \<Rightarrow> ('u user option \<times> ('u, 'o) use_list) option" where
  "remove_user user s =
     (case user_uses s user of
        None \<Rightarrow> Some (None, s)
      | Some uses \<Rightarrow> do {
          s \<leftarrow> for_each (\<lambda>use_id s. map_option snd (remove_use use_id s)) uses s;
          case slot (ul_users s) user of
            None \<Rightarrow> Some (None, s)
          | Some removed \<Rightarrow>
              if ul_live_users s = 0 then None
              else Some (Some removed, s\<lparr>ul_users := (ul_users s)[unat user := None], ul_live_users := ul_live_users s - 1\<rparr>)
        })"

definition remove_operand :: "operand_id \<Rightarrow> ('u, 'o) use_list \<Rightarrow> ('o operand option \<times> ('u, 'o) use_list) option" where
  "remove_operand operand s =
     (case ul_operand s operand of
        None \<Rightarrow> Some (None, s)
      | Some od \<Rightarrow>
          if op_first_use od \<noteq> None then Some (None, s)
          else if ul_live_operands s = 0 then None
          else Some (Some od, s\<lparr>ul_operands := (ul_operands s)[unat operand := None],
                                ul_live_operands := ul_live_operands s - 1\<rparr>))"

declare replace_loop.simps [simp del]

section \<open>Doubly linked lists of uses\<close>

text \<open>
  The list of an operand read forwards through the next links and backwards through the
  previous ones.
\<close>

definition dlist :: "use_rec option list \<Rightarrow> use_id option \<Rightarrow> use_id list \<Rightarrow> bool" where
  "dlist us c l \<longleftrightarrow> chain u_next_use us c l \<and> (\<exists>t. chain u_prev_use us t (rev l))"

lemma dlist_cong:
  assumes "\<And>x. x \<in> set l \<Longrightarrow> map_option (\<lambda>u. (u_prev_use u, u_next_use u)) (slot us' x) =
                             map_option (\<lambda>u. (u_prev_use u, u_next_use u)) (slot us x)"
  shows "dlist us' c l = dlist us c l"
proof -
  have eq: "map_option u_next_use (slot us' x) = map_option u_next_use (slot us x) \<and>
      map_option u_prev_use (slot us' x) = map_option u_prev_use (slot us x)" if "x \<in> set l" for x
    using assms [OF that] by (cases "slot us' x"; cases "slot us x") auto
  have "chain u_next_use us' c l = chain u_next_use us c l" by (rule chain_cong) (simp add: eq)
  moreover have "chain u_prev_use us' t (rev l) = chain u_prev_use us t (rev l)" for t
    by (rule chain_cong) (simp add: eq)
  ultimately show ?thesis by (simp add: dlist_def)
qed

lemma dlist_neighbours:
  assumes "dlist us c (p @ x # l)" "slot us x = Some u"
  shows "u_next_use u = (if l = [] then None else Some (hd l))"
    "u_prev_use u = (if p = [] then None else Some (last p))"
    "p = [] \<Longrightarrow> c = Some x"
proof -
  have fwd: "chain u_next_use us c (p @ x # l)" using assms(1) by (simp add: dlist_def)
  obtain t where "chain u_prev_use us t (rev l @ x # rev p)" using assms(1) by (auto simp: dlist_def)
  then have "chain u_prev_use us (u_prev_use u) (rev p)" using assms(2) by (rule chain_behind)
  then show "u_prev_use u = (if p = [] then None else Some (last p))"
    using chain_start [of u_prev_use us "u_prev_use u" "rev p"]
    by (cases p rule: rev_cases) auto
  have "chain u_next_use us (u_next_use u) l" using fwd assms(2) by (rule chain_behind)
  then show "u_next_use u = (if l = [] then None else Some (hd l))"
    using chain_start [of u_next_use us "u_next_use u" l] by (cases l) auto
  show "p = [] \<Longrightarrow> c = Some x" using fwd by simp
qed

lemma dlist_live: "dlist us c l \<Longrightarrow> x \<in> set l \<Longrightarrow> slot us x \<noteq> None"
  unfolding dlist_def using chain_live by blast

text \<open>The slots after \<open>detach_use_from_operand\<close>: the neighbours are joined, the use is loose.\<close>

definition link_next :: "use_id option \<Rightarrow> use_id option \<Rightarrow> use_rec option list \<Rightarrow> use_rec option list" where
  "link_next p v us = (case p of None \<Rightarrow> us | Some x \<Rightarrow> us[unat x := map_option (u_next_use_update (\<lambda>_. v)) (slot us x)])"

definition link_prev :: "use_id option \<Rightarrow> use_id option \<Rightarrow> use_rec option list \<Rightarrow> use_rec option list" where
  "link_prev p v us = (case p of None \<Rightarrow> us | Some x \<Rightarrow> us[unat x := map_option (u_prev_use_update (\<lambda>_. v)) (slot us x)])"

lemma slot_link_next: "slot (link_next p v us) x =
    (if p = Some x then map_option (u_next_use_update (\<lambda>_. v)) (slot us x) else slot us x)"
  by (cases p) (auto simp: link_next_def slot_update slot_out)

lemma slot_link_prev: "slot (link_prev p v us) x =
    (if p = Some x then map_option (u_prev_use_update (\<lambda>_. v)) (slot us x) else slot us x)"
  by (cases p) (auto simp: link_prev_def slot_update slot_out)

lemma length_link [simp]: "length (link_next p v us) = length us" "length (link_prev p v us) = length us"
  by (simp_all add: link_next_def link_prev_def split: option.splits)

lemma chain_same_slots: "(\<And>x. x \<in> set l \<Longrightarrow> map_option nx (slot es' x) = map_option nx (slot es x)) \<Longrightarrow>
    chain nx es c l \<Longrightarrow> chain nx es' c l"
  using chain_cong by blast

lemma dlist_detach:
  assumes d: "dlist us c (p @ x # l)" and dist: "distinct (p @ x # l)" and u: "slot us x = Some u"
  defines "us' \<equiv> (link_prev (u_next_use u) (u_prev_use u) (link_next (u_prev_use u) (u_next_use u) us))
                    [unat x := Some (u\<lparr>u_prev_use := None, u_next_use := None\<rparr>)]"
  shows "dlist us' (if p = [] then u_next_use u else c) (p @ l)"
proof -
  note nb = dlist_neighbours [OF d u]
  have slot': "slot us' y = slot (link_prev (u_next_use u) (u_prev_use u) (link_next (u_prev_use u) (u_next_use u) us)) y"
    if "y \<noteq> x" for y using that by (simp add: us'_def slot_update)
  have other: "y \<noteq> x" if "y \<in> set (p @ l)" for y using that dist by auto
  have fwd: "chain u_next_use us c (p @ x # l)" using d by (simp add: dlist_def)
  obtain t where bwd: "chain u_prev_use us t (rev l @ x # rev p)" using d by (auto simp: dlist_def)
  note slots = slot' slot_link_prev slot_link_next slot_update option.map_comp o_def
  have "chain u_next_use us' (if p = [] then u_next_use u else c) (p @ l)"
  proof (cases "p = []")
    case True
    have "map_option u_next_use (slot us' y) = map_option u_next_use (slot us y)" if "y \<in> set l" for y
      using other [of y] that nb(2) True by (simp add: slots)
    moreover have "chain u_next_use us (u_next_use u) l" using True fwd u by simp
    ultimately have "chain u_next_use us' (u_next_use u) l" by (rule chain_same_slots)
    with True show ?thesis by simp
  next
    case False
    obtain y where y: "slot us (last p) = Some y" using dlist_live [OF d, of "last p"] False by auto
    let ?us = "us[unat (last p) := Some (y\<lparr>u_next_use := u_next_use u\<rparr>)]"
    have "map_option u_next_use (slot us' z) = map_option u_next_use (slot ?us z)" if "z \<in> set (p @ l)" for z
      using other [OF that] nb(2) False y slot_Some_less [OF y] by (simp add: slots)
    moreover have "chain u_next_use ?us c (p @ l)" by (rule chain_skip [OF fwd dist False u y]) simp
    ultimately have "chain u_next_use us' c (p @ l)" by (rule chain_same_slots)
    with False show ?thesis by simp
  qed
  moreover have "\<exists>t. chain u_prev_use us' t (rev l @ rev p)"
  proof (cases "l = []")
    case True
    have "map_option u_prev_use (slot us' y) = map_option u_prev_use (slot us y)" if "y \<in> set (rev p)" for y
      using other [of y] that nb(1) True by (simp add: slots)
    moreover have "chain u_prev_use us (u_prev_use u) (rev p)" using True bwd u by simp
    ultimately have "chain u_prev_use us' (u_prev_use u) (rev p)" by (rule chain_same_slots)
    with True show ?thesis by auto
  next
    case False
    obtain y where y: "slot us (hd l) = Some y" using dlist_live [OF d, of "hd l"] False by auto
    let ?us = "us[unat (hd l) := Some (y\<lparr>u_prev_use := u_prev_use u\<rparr>)]"
    have "chain u_prev_use (us[unat (last (rev l)) := Some (y\<lparr>u_prev_use := u_prev_use u\<rparr>)]) t (rev l @ rev p)"
      by (rule chain_skip [OF bwd _ _ u]) (use False dist y in \<open>auto simp: last_rev\<close>)
    then have skip: "chain u_prev_use ?us t (rev l @ rev p)" using False by (simp add: last_rev)
    have "map_option u_prev_use (slot us' z) = map_option u_prev_use (slot ?us z)"
      if "z \<in> set (rev l @ rev p)" for z
    proof -
      have "z \<noteq> x" using other [of z] that by auto
      then show ?thesis using nb(1) False y slot_Some_less [OF y] by (auto simp: slots)
    qed
    then have "chain u_prev_use us' t (rev l @ rev p)" using skip by (rule chain_same_slots)
    then show ?thesis ..
  qed
  ultimately show ?thesis by (simp add: dlist_def)
qed

text \<open>Putting a loose use in front of a list, as \<open>attach_use_to_operand\<close> and \<open>append_use\<close> do.\<close>

lemma dlist_attach:
  assumes d: "dlist us c l" and dist: "distinct l" and x: "x \<notin> set l" "slot us x = Some u"
    and u: "u_prev_use u = None" "u_next_use u = c"
  shows "dlist (link_prev c (Some x) us) (Some x) (x # l)"
proof -
  have c: "c = (case l of [] \<Rightarrow> None | e # _ \<Rightarrow> Some e)"
    using d chain_start by (auto simp: dlist_def)
  have "chain u_next_use (link_prev c (Some x) us) c l"
    by (rule chain_same_slots [of _ _ _ us]) (use d in \<open>auto simp: dlist_def slot_link_prev option.map_comp o_def\<close>)
  moreover have xs: "slot (link_prev c (Some x) us) x = Some u"
    using x c by (auto simp: slot_link_prev split: list.splits)
  moreover have "\<exists>t. chain u_prev_use (link_prev c (Some x) us) t (rev l @ [x])"
  proof (cases "l = []")
    case True
    then show ?thesis using xs u by (intro exI [of _ "Some x"]) simp
  next
    case False
    obtain t where t: "chain u_prev_use us t (rev l)" using d by (auto simp: dlist_def)
    obtain y where y: "slot us (hd l) = Some y" using dlist_live [OF d, of "hd l"] False by auto
    have "chain u_prev_use (us[unat (last (rev l)) := Some (y\<lparr>u_prev_use := Some x\<rparr>)]) t (rev l @ [x])"
      by (rule chain_extend [OF t _ _ _ _ _ x(2) u(1)]) (use False dist x y in \<open>auto simp: last_rev\<close>)
    moreover have "link_prev c (Some x) us = us[unat (last (rev l)) := Some (y\<lparr>u_prev_use := Some x\<rparr>)]"
      using c y False by (cases l) (auto simp: link_prev_def)
    ultimately show ?thesis by auto
  qed
  ultimately show ?thesis using u(2) by (simp add: dlist_def)
qed

section \<open>The invariant\<close>

text \<open>
  \<open>links_ok us ops F L\<close>: the list of every operand \<open>n\<close> is \<open>L n\<close>, which holds the uses of \<open>n\<close>
  except the loose ones in \<open>F\<close>.
\<close>

definition links_ok :: "use_rec option list \<Rightarrow> 'o operand option list \<Rightarrow> use_id set \<Rightarrow> (operand_id \<Rightarrow> use_id list) \<Rightarrow> bool" where
  "links_ok us ops F L \<longleftrightarrow> (\<forall>n.
     (case slot ops n of None \<Rightarrow> L n = [] | Some od \<Rightarrow> dlist us (op_first_use od) (L n)) \<and> distinct (L n) \<and>
     (\<forall>x. x \<in> set (L n) \<longleftrightarrow> x \<notin> F \<and> map_option u_operand (slot us x) = Some n))"

text \<open>Uses and the slots of their users name each other.\<close>

definition users_ok :: "'u user option list \<Rightarrow> use_rec option list \<Rightarrow> bool" where
  "users_ok users us \<longleftrightarrow>
     (\<forall>n usr i x. slot users n = Some usr \<and> use_at usr i = Some x \<longrightarrow>
        (\<exists>u. slot us x = Some u \<and> u_user u = n \<and> u_operand_index u = i)) \<and>
     (\<forall>x u. slot us x = Some u \<longrightarrow>
        (\<exists>usr. slot users (u_user u) = Some usr \<and> use_at usr (u_operand_index u) = Some x))"

definition ids_ok :: "('u, 'o) use_list \<Rightarrow> bool" where
  "ids_ok s \<longleftrightarrow> length (ul_users s) \<le> id_bound \<and> length (ul_operands s) \<le> id_bound \<and>
     length (ul_uses s) \<le> id_bound \<and>
     (\<forall>n usr. slot (ul_users s) n = Some usr \<longrightarrow> us_id usr = n) \<and>
     (\<forall>n od. slot (ul_operands s) n = Some od \<longrightarrow> op_id od = n) \<and>
     (\<forall>x u. slot (ul_uses s) x = Some u \<longrightarrow> u_id u = x \<and> slot (ul_operands s) (u_operand u) \<noteq> None)"

definition counts_ok :: "('u, 'o) use_list \<Rightarrow> bool" where
  "counts_ok s \<longleftrightarrow> ul_live_users s = length (live (ul_users s)) \<and>
     ul_live_operands s = length (live (ul_operands s)) \<and> ul_live_uses s = length (live (ul_uses s))"

text \<open>The state represents the lists \<open>L\<close> of uses per operand.\<close>

definition use_list_rep :: "('u, 'o) use_list \<Rightarrow> (operand_id \<Rightarrow> use_id list) \<Rightarrow> bool" where
  "use_list_rep s L \<longleftrightarrow> ids_ok s \<and> counts_ok s \<and> users_ok (ul_users s) (ul_uses s) \<and>
     links_ok (ul_uses s) (ul_operands s) {} L"

lemma links_okD:
  assumes "links_ok us ops F L" "slot ops n = Some od"
  shows "dlist us (op_first_use od) (L n)" "distinct (L n)"
  using assms(1) assms(2) unfolding links_ok_def by (auto dest!: spec [of _ n])

lemma links_ok_dead: "links_ok us ops F L \<Longrightarrow> slot ops n = None \<Longrightarrow> L n = []"
  unfolding links_ok_def by (drule spec [of _ n]) simp

lemma links_ok_mem: "links_ok us ops F L \<Longrightarrow> x \<in> set (L n) \<longleftrightarrow> x \<notin> F \<and> map_option u_operand (slot us x) = Some n"
  unfolding links_ok_def by blast

lemma links_ok_distinct: "links_ok us ops F L \<Longrightarrow> distinct (L n)"
  unfolding links_ok_def by blast

text \<open>Replacing the list of one operand.\<close>

lemma links_ok_change:
  assumes ok: "links_ok us ops F L" and od: "slot ops' n = Some od"
    and l: "dlist us' (op_first_use od) l" "distinct l"
      "\<And>x. x \<in> set l \<longleftrightarrow> x \<notin> F' \<and> map_option u_operand (slot us' x) = Some n"
    and heads: "\<And>m. m \<noteq> n \<Longrightarrow> map_option op_first_use (slot ops' m) = map_option op_first_use (slot ops m)"
    and mem: "\<And>m x. m \<noteq> n \<Longrightarrow> x \<notin> F' \<and> map_option u_operand (slot us' x) = Some m \<longleftrightarrow> x \<in> set (L m)"
    and frame: "\<And>m x. m \<noteq> n \<Longrightarrow> x \<in> set (L m) \<Longrightarrow>
      map_option (\<lambda>u. (u_prev_use u, u_next_use u)) (slot us' x) =
      map_option (\<lambda>u. (u_prev_use u, u_next_use u)) (slot us x)"
  shows "links_ok us' ops' F' (L(n := l))"
  unfolding links_ok_def
proof (intro allI)
  fix m
  show "(case slot ops' m of None \<Rightarrow> (L(n := l)) m = []
         | Some od \<Rightarrow> dlist us' (op_first_use od) ((L(n := l)) m)) \<and> distinct ((L(n := l)) m) \<and>
     (\<forall>x. x \<in> set ((L(n := l)) m) \<longleftrightarrow> x \<notin> F' \<and> map_option u_operand (slot us' x) = Some m)"
  proof (cases "m = n")
    case True
    show ?thesis unfolding True fun_upd_same od option.case using l by blast
  next
    case False
    have "case slot ops' m of None \<Rightarrow> L m = [] | Some od \<Rightarrow> dlist us' (op_first_use od) (L m)"
    proof (cases "slot ops' m")
      case None
      with heads [OF False] have "slot ops m = None" by simp
      with None links_ok_dead [OF ok] show ?thesis by simp
    next
      case (Some od')
      with heads [OF False] obtain od0 where od0: "slot ops m = Some od0" "op_first_use od0 = op_first_use od'"
        by (cases "slot ops m") auto
      have "dlist us' (op_first_use od0) (L m) = dlist us (op_first_use od0) (L m)"
        by (rule dlist_cong) (rule frame [OF False])
      with Some od0 links_okD(1) [OF ok od0(1)] show ?thesis by simp
    qed
    then show ?thesis
      unfolding fun_upd_other [OF False] using links_ok_distinct [OF ok, of m] mem [OF False] by blast
  qed
qed

lemma use_mut_live:
  "slot (ul_uses s) x = Some u \<Longrightarrow> use_mut f x s = (Some (), s\<lparr>ul_uses := (ul_uses s)[unat x := Some (f u)]\<rparr>)"
  by (simp add: use_mut_def)

lemma operand_mut_live: "slot (ul_operands s) n = Some od \<Longrightarrow>
    operand_mut f n s = (Some (), s\<lparr>ul_operands := (ul_operands s)[unat n := Some (f od)]\<rparr>)"
  by (simp add: operand_mut_def)

lemma user_mut_live: "slot (ul_users s) n = Some us \<Longrightarrow>
    user_mut f n s = (Some (), s\<lparr>ul_users := (ul_users s)[unat n := Some (f us)]\<rparr>)"
  by (simp add: user_mut_def)

lemma if_linked_prev:
  "(\<And>y. c = Some y \<Longrightarrow> slot (ul_uses s) y \<noteq> None) \<Longrightarrow>
    if_linked c (u_prev_use_update (\<lambda>_. v)) s = (Some (), s\<lparr>ul_uses := link_prev c v (ul_uses s)\<rparr>)"
  by (cases c) (auto simp: if_linked_def link_prev_def use_mut_live)

lemma and_then_simps [simp]: "and_then (Some a, s) f = f a s" "and_then (None, s) f = (None, s)"
  by (simp_all add: and_then_def)

lemma same_link_next: "(\<And>v u. p (u\<lparr>u_next_use := v\<rparr>) = p u) \<Longrightarrow> same p us (link_next c v us)"
  by (cases c) (simp_all add: link_next_def same_update_map)

lemma same_link_prev: "(\<And>v u. p (u\<lparr>u_prev_use := v\<rparr>) = p u) \<Longrightarrow> same p us (link_prev c v us)"
  by (cases c) (simp_all add: link_prev_def same_update_map)

lemma detach_ok:
  assumes ok: "links_ok (ul_uses s) (ul_operands s) {} L" and u: "slot (ul_uses s) x = Some u"
    and od: "slot (ul_operands s) (u_operand u) = Some od"
  obtains us' ops' where
    "detach_use_from_operand x s = (Some (u_operand u), s\<lparr>ul_uses := us', ul_operands := ops'\<rparr>)"
    "slot us' x = Some (u\<lparr>u_prev_use := None, u_next_use := None\<rparr>)"
    "same (\<lambda>u. (u_id u, u_user u, u_operand_index u, u_operand u)) (ul_uses s) us'"
    "same (\<lambda>od. (op_id od, op_value od)) (ul_operands s) ops'"
    "links_ok us' ops' {x} (L(u_operand u := remove1 x (L (u_operand u))))"
proof -
  let ?n = "u_operand u" and ?us = "ul_uses s" and ?ops = "ul_operands s"
  let ?nx = "u_next_use u" and ?pv = "u_prev_use u"
  have in_L: "x \<in> set (L ?n)" using links_ok_mem [OF ok] u by simp
  then obtain p l where split: "L ?n = p @ x # l" by (meson split_list)
  have d: "dlist ?us (op_first_use od) (p @ x # l)" and dist: "distinct (p @ x # l)"
    using links_okD [OF ok od] by (simp_all add: split)
  note nb = dlist_neighbours [OF d u]
  let ?us1 = "link_next ?pv ?nx ?us"
  let ?us2 = "link_prev ?nx ?pv ?us1"
  let ?us' = "?us2[unat x := Some (u\<lparr>u_prev_use := None, u_next_use := None\<rparr>)]"
  let ?ops' = "if p = [] then ?ops[unat ?n := Some (od\<lparr>op_first_use := ?nx\<rparr>)] else ?ops"
  have live_nx: "slot ?us y \<noteq> None" if "?nx = Some y" for y
    using that nb(1) dlist_live [OF d, of y] by (auto split: if_splits)
  have live_pv: "slot ?us y \<noteq> None" if "?pv = Some y" for y
    using that nb(2) dlist_live [OF d, of y] by (auto split: if_splits)
  have loose: "?pv \<noteq> Some x" "?nx \<noteq> Some x" using nb(1,2) dist by (auto split: if_splits)
  have x2: "slot ?us2 x = Some u" using loose u by (simp add: slot_link_prev slot_link_next)
  have step1: "(case ?pv of Some y \<Rightarrow> use_mut (u_next_use_update (\<lambda>_. ?nx)) y s
      | None \<Rightarrow> operand_mut (op_first_use_update (\<lambda>_. ?nx)) ?n s) = (Some (), s\<lparr>ul_uses := ?us1, ul_operands := ?ops'\<rparr>)"
    using nb(2) od live_pv by (auto simp: link_next_def use_mut_live operand_mut_live split: if_splits)
  have step2: "if_linked ?nx (u_prev_use_update (\<lambda>_. ?pv)) (s\<lparr>ul_uses := ?us1, ul_operands := ?ops'\<rparr>) =
      (Some (), s\<lparr>ul_uses := ?us2, ul_operands := ?ops'\<rparr>)"
    using if_linked_prev [of ?nx "s\<lparr>ul_uses := ?us1, ul_operands := ?ops'\<rparr>" ?pv] live_nx
    by (simp add: slot_link_next)
  have keep: "same (\<lambda>u. (u_id u, u_user u, u_operand_index u, u_operand u)) ?us ?us2"
    by (rule same_trans [OF same_link_next same_link_prev]) simp_all
  show thesis
  proof (rule that)
    show "detach_use_from_operand x s = (Some ?n, s\<lparr>ul_uses := ?us', ul_operands := ?ops'\<rparr>)"
      using u step1 step2 x2 by (simp add: detach_use_from_operand_def ul_use_def use_mut_live)
    show slot_x: "slot ?us' x = Some (u\<lparr>u_prev_use := None, u_next_use := None\<rparr>)"
      using slot_Some_less [OF u] by (simp add: slot_update)
    show keep': "same (\<lambda>u. (u_id u, u_user u, u_operand_index u, u_operand u)) ?us ?us'"
      by (rule same_trans [OF keep same_update [OF x2]]) simp
    show "same (\<lambda>od. (op_id od, op_value od)) ?ops ?ops'" by (simp add: same_update [OF od])
    have oper: "map_option u_operand (slot ?us' y) = map_option u_operand (slot ?us y)" for y
      using same_slot [OF same_proj [OF keep', of "\<lambda>(_, _, _, a). a"], of y] by simp
    have rem: "remove1 x (L ?n) = p @ l" using dist by (simp add: split remove1_append)
    obtain od' where od': "slot ?ops' ?n = Some od'" "op_first_use od' = (if p = [] then ?nx else op_first_use od)"
      using od slot_Some_less [OF od] by (cases "p = []") (auto simp: slot_update)
    have "links_ok ?us' ?ops' {x} (L(?n := p @ l))"
    proof (rule links_ok_change [OF ok od'(1)])
      show "dlist ?us' (op_first_use od') (p @ l)" unfolding od'(2) by (rule dlist_detach [OF d dist u])
      show "distinct (p @ l)" using dist by simp
      show "y \<in> set (p @ l) \<longleftrightarrow> y \<notin> {x} \<and> map_option u_operand (slot ?us' y) = Some ?n" for y
        using links_ok_mem [OF ok, of y ?n] dist unfolding oper by (auto simp: split)
      show "map_option op_first_use (slot ?ops' m) = map_option op_first_use (slot ?ops m)" if "m \<noteq> ?n" for m
        using that by (simp add: slot_update)
      show "y \<notin> {x} \<and> map_option u_operand (slot ?us' y) = Some m \<longleftrightarrow> y \<in> set (L m)" if "m \<noteq> ?n" for m y
        using links_ok_mem [OF ok, of y m] that u unfolding oper by auto
      show "map_option (\<lambda>u. (u_prev_use u, u_next_use u)) (slot ?us' y) =
            map_option (\<lambda>u. (u_prev_use u, u_next_use u)) (slot ?us y)" if "m \<noteq> ?n" "y \<in> set (L m)" for m y
      proof -
        have "y \<notin> set (L ?n)" using that links_ok_mem [OF ok, of y m] links_ok_mem [OF ok, of y ?n] by auto
        then have "y \<noteq> x" "?pv \<noteq> Some y" "?nx \<noteq> Some y"
          using nb(1,2) by (auto simp: split split: if_splits)
        then show ?thesis by (simp add: slot_update slot_link_prev slot_link_next)
      qed
    qed
    then show "links_ok ?us' ?ops' {x} (L(?n := remove1 x (L ?n)))" by (simp add: rem)
  qed
qed

text \<open>Records outside all lists may change or appear.\<close>

lemma links_ok_frame:
  assumes ok: "links_ok us ops F L"
    and mem: "\<And>y n. y \<notin> F' \<and> map_option u_operand (slot us' y) = Some n \<longleftrightarrow> y \<notin> F \<and> map_option u_operand (slot us y) = Some n"
    and eq: "\<And>y n. y \<in> set (L n) \<Longrightarrow> slot us' y = slot us y"
  shows "links_ok us' ops F' L"
  unfolding links_ok_def
proof (intro allI)
  fix n
  have "dlist us' c (L n) = dlist us c (L n)" for c by (rule dlist_cong) (simp add: eq)
  then show "(case slot ops n of None \<Rightarrow> L n = [] | Some od \<Rightarrow> dlist us' (op_first_use od) (L n)) \<and> distinct (L n) \<and>
     (\<forall>x. x \<in> set (L n) \<longleftrightarrow> x \<notin> F' \<and> map_option u_operand (slot us' x) = Some n)"
    using ok unfolding links_ok_def mem by (auto split: option.splits dest!: spec [of _ n])
qed

lemma links_front:
  assumes ok: "links_ok us ops {x} L" and u: "slot us x = Some u" "u_operand u = n"
    and od: "slot ops n = Some od" and lk: "u_prev_use u = None" "u_next_use u = op_first_use od"
  shows "links_ok (link_prev (op_first_use od) (Some x) us) (ops[unat n := Some (od\<lparr>op_first_use := Some x\<rparr>)]) {} (L(n := x # L n))"
proof (rule links_ok_change [OF ok])
  let ?us' = "link_prev (op_first_use od) (Some x) us"
  let ?ops' = "ops[unat n := Some (od\<lparr>op_first_use := Some x\<rparr>)]"
  have oper: "map_option u_operand (slot ?us' y) = map_option u_operand (slot us y)" for y
    by (simp add: slot_link_prev option.map_comp o_def)
  have out: "x \<notin> set (L m)" for m using links_ok_mem [OF ok, of x m] by simp
  show "slot ?ops' n = Some (od\<lparr>op_first_use := Some x\<rparr>)" using slot_Some_less [OF od] by (simp add: slot_update)
  show "dlist ?us' (op_first_use (od\<lparr>op_first_use := Some x\<rparr>)) (x # L n)"
    using dlist_attach [OF links_okD [OF ok od] out u(1) lk] by simp
  show "distinct (x # L n)" using links_ok_distinct [OF ok] out by simp
  show "y \<in> set (x # L n) \<longleftrightarrow> y \<notin> {} \<and> map_option u_operand (slot ?us' y) = Some n" for y
    using links_ok_mem [OF ok, of y n] u unfolding oper by auto
  show "map_option op_first_use (slot ?ops' m) = map_option op_first_use (slot ops m)" if "m \<noteq> n" for m
    using that by (simp add: slot_update)
  show "y \<notin> {} \<and> map_option u_operand (slot ?us' y) = Some m \<longleftrightarrow> y \<in> set (L m)" if "m \<noteq> n" for m y
    using links_ok_mem [OF ok, of y m] that u unfolding oper by auto
  show "map_option (\<lambda>u. (u_prev_use u, u_next_use u)) (slot ?us' y) =
        map_option (\<lambda>u. (u_prev_use u, u_next_use u)) (slot us y)" if "m \<noteq> n" "y \<in> set (L m)" for m y
  proof -
    have "op_first_use od = (case L n of [] \<Rightarrow> None | e # _ \<Rightarrow> Some e)"
      using links_okD(1) [OF ok od] chain_start by (auto simp: dlist_def)
    moreover have "y \<notin> set (L n)" using that links_ok_mem [OF ok, of y m] links_ok_mem [OF ok, of y n] by auto
    ultimately have "op_first_use od \<noteq> Some y" by (auto split: list.splits)
    then show ?thesis by (simp add: slot_link_prev)
  qed
qed

lemma first_use_live:
  assumes "links_ok us ops F L" "slot ops n = Some od" "op_first_use od = Some y"
  shows "slot us y \<noteq> None" "y \<notin> F"
proof -
  have "y \<in> set (L n)"
    using links_okD(1) [OF assms(1,2)] assms(3) chain_start by (cases "L n") (auto simp: dlist_def)
  then show "slot us y \<noteq> None" "y \<notin> F" using links_ok_mem [OF assms(1), of y n] by auto
qed

lemma attach_ok:
  assumes ok: "links_ok (ul_uses s) (ul_operands s) {x} L" and u: "slot (ul_uses s) x = Some u"
    and od: "slot (ul_operands s) n = Some od"
  obtains us' ops' where "attach_use_to_operand x n s = (Some (), s\<lparr>ul_uses := us', ul_operands := ops'\<rparr>)"
    "same (\<lambda>u. (u_id u, u_user u, u_operand_index u)) (ul_uses s) us'"
    "\<forall>y. map_option u_operand (slot us' y) = (if y = x then Some n else map_option u_operand (slot (ul_uses s) y))"
    "same (\<lambda>od. (op_id od, op_value od)) (ul_operands s) ops'" "links_ok us' ops' {} (L(n := x # L n))"
proof -
  let ?u = "u\<lparr>u_operand := n, u_prev_use := None, u_next_use := op_first_use od\<rparr>"
  let ?us1 = "(ul_uses s)[unat x := Some ?u]"
  let ?us' = "link_prev (op_first_use od) (Some x) ?us1"
  let ?ops' = "(ul_operands s)[unat n := Some (od\<lparr>op_first_use := Some x\<rparr>)]"
  have x1: "slot ?us1 x = Some ?u" using slot_Some_less [OF u] by (simp add: slot_update)
  have ok1: "links_ok ?us1 (ul_operands s) {x} L"
    by (rule links_ok_frame [OF ok]) (auto simp: slot_update links_ok_mem [OF ok])
  have live1: "slot ?us1 y \<noteq> None" if "op_first_use od = Some y" for y by (rule first_use_live(1) [OF ok1 od that])
  show thesis
  proof (rule that)
    show "attach_use_to_operand x n s = (Some (), s\<lparr>ul_uses := ?us', ul_operands := ?ops'\<rparr>)"
      using od u if_linked_prev [of "op_first_use od" "s\<lparr>ul_uses := ?us1\<rparr>" "Some x"] live1
      by (simp add: attach_use_to_operand_def ul_operand_def use_mut_live operand_mut_live)
    show "same (\<lambda>u. (u_id u, u_user u, u_operand_index u)) (ul_uses s) ?us'"
      by (rule same_trans [OF same_update [OF u] same_link_prev]) simp_all
    show "\<forall>y. map_option u_operand (slot ?us' y) = (if y = x then Some n else map_option u_operand (slot (ul_uses s) y))"
      using slot_Some_less [OF u] by (simp add: slot_link_prev slot_update option.map_comp o_def)
    show "same (\<lambda>od. (op_id od, op_value od)) (ul_operands s) ?ops'" by (rule same_update [OF od]) simp
    show "links_ok ?us' ?ops' {} (L(n := x # L n))" by (rule links_front [OF ok1 x1 _ od]) simp_all
  qed
qed

section \<open>The operations on represented lists\<close>

lemma users_ok_same:
  assumes ok: "users_ok users us" and us: "same (\<lambda>u. (u_user u, u_operand_index u)) us us'"
  shows "users_ok users us'"
  unfolding users_ok_def
proof (intro conjI allI impI)
  fix n usr i x assume "slot users n = Some usr \<and> use_at usr i = Some x"
  then obtain u where "slot us x = Some u" "u_user u = n" "u_operand_index u = i"
    using ok unfolding users_ok_def by blast
  with same_slot_Some [OF us this(1)] show "\<exists>u. slot us' x = Some u \<and> u_user u = n \<and> u_operand_index u = i" by auto
next
  fix x u assume "slot us' x = Some u"
  then obtain v where "slot us x = Some v" "u_user v = u_user u" "u_operand_index v = u_operand_index u"
    using same_slot_Some [OF same_sym [OF us]] by fastforce
  then show "\<exists>usr. slot users (u_user u) = Some usr \<and> use_at usr (u_operand_index u) = Some x"
    using ok unfolding users_ok_def by metis
qed

lemma use_list_repD:
  assumes "use_list_rep s L"
  shows "ids_ok s" "counts_ok s" "users_ok (ul_users s) (ul_uses s)" "links_ok (ul_uses s) (ul_operands s) {} L"
    "length (ul_users s) \<le> id_bound" "length (ul_operands s) \<le> id_bound" "length (ul_uses s) \<le> id_bound"
  using assms by (simp_all add: use_list_rep_def ids_ok_def)

lemma ids_ok_use: "ids_ok s \<Longrightarrow> slot (ul_uses s) x = Some u \<Longrightarrow> u_id u = x \<and> slot (ul_operands s) (u_operand u) \<noteq> None"
  by (simp add: ids_ok_def)

lemma ids_ok_operand: "ids_ok s \<Longrightarrow> slot (ul_operands s) n = Some od \<Longrightarrow> op_id od = n"
  by (simp add: ids_ok_def)

lemma use_list_rep_relink:
  assumes rep: "use_list_rep s L"
    and us: "same (\<lambda>u. (u_id u, u_user u, u_operand_index u)) (ul_uses s) us'"
    and ops: "same (\<lambda>od. (op_id od, op_value od)) (ul_operands s) ops'"
    and oper: "\<And>x u. slot us' x = Some u \<Longrightarrow> slot (ul_operands s) (u_operand u) \<noteq> None"
    and links: "links_ok us' ops' {} L'"
  shows "use_list_rep (s\<lparr>ul_uses := us', ul_operands := ops'\<rparr>) L'"
proof -
  note r = use_list_repD [OF rep]
  have "op_id od = n" if od: "slot ops' n = Some od" for n od
    using same_slot_Some [OF same_sym [OF ops] od] ids_ok_operand [OF r(1), of n] by fastforce
  moreover have "u_id u = x \<and> slot ops' (u_operand u) \<noteq> None" if u: "slot us' x = Some u" for x u
    using same_slot_Some [OF same_sym [OF us] u] ids_ok_use [OF r(1), of x] oper [OF u] same_None [OF ops, of "u_operand u"]
    by fastforce
  ultimately have "ids_ok (s\<lparr>ul_uses := us', ul_operands := ops'\<rparr>)"
    using r(1) same_length [OF us] same_length [OF ops] unfolding ids_ok_def by simp
  moreover have "counts_ok (s\<lparr>ul_uses := us', ul_operands := ops'\<rparr>)"
    using r(2) same_live [OF us] same_live [OF ops] by (simp add: counts_ok_def)
  moreover have "users_ok (ul_users s) us'"
    by (rule users_ok_same [OF r(3)]) (use same_proj [OF us, of snd] in simp)
  ultimately show ?thesis using links by (simp add: use_list_rep_def)
qed

lemma filter_other_lists:
  assumes "links_ok us ops {} L" "slot us x = Some u"
  shows "L(u_operand u := remove1 x (L (u_operand u))) = (\<lambda>n. filter (\<lambda>y. y \<noteq> x) (L n))"
proof
  fix n
  have "x \<in> set (L n) \<longleftrightarrow> n = u_operand u" using links_ok_mem [OF assms(1), of x n] assms(2) by auto
  then show "(L(u_operand u := remove1 x (L (u_operand u)))) n = filter (\<lambda>y. y \<noteq> x) (L n)"
    using links_ok_distinct [OF assms(1), of n] by (auto simp: distinct_remove1_removeAll removeAll_filter_not_eq filter_neq_id intro: filter_cong)
qed

lemma set_use_operand_ok:
  assumes rep: "use_list_rep s L" and u: "ul_use s x = Some u" and n: "contains_operand s n"
    and diff: "u_operand u \<noteq> n"
  obtains s' where "set_use_operand x n s = (Some (u_operand u), s')"
    "use_list_rep s' ((\<lambda>m. filter (\<lambda>y. y \<noteq> x) (L m))(n := x # L n))"
    "ul_users s' = ul_users s" "same (\<lambda>od. (op_id od, op_value od)) (ul_operands s) (ul_operands s')"
    "length (ul_uses s') = length (ul_uses s)"
proof -
  note r = use_list_repD [OF rep]
  have u': "slot (ul_uses s) x = Some u" using u by (simp add: ul_use_def)
  obtain od where od: "slot (ul_operands s) (u_operand u) = Some od" using ids_ok_use [OF r(1) u'] by auto
  obtain us1 ops1 where 1:
    "detach_use_from_operand x s = (Some (u_operand u), s\<lparr>ul_uses := us1, ul_operands := ops1\<rparr>)" (is "_ = (_, ?s1)")
    "slot us1 x = Some (u\<lparr>u_prev_use := None, u_next_use := None\<rparr>)"
    "same (\<lambda>u. (u_id u, u_user u, u_operand_index u, u_operand u)) (ul_uses s) us1"
    "same (\<lambda>od. (op_id od, op_value od)) (ul_operands s) ops1"
    "links_ok us1 ops1 {x} (L(u_operand u := remove1 x (L (u_operand u))))"
    by (rule detach_ok [OF r(4) u' od])
  let ?L = "\<lambda>m. filter (\<lambda>y. y \<noteq> x) (L m)"
  have links1: "links_ok (ul_uses ?s1) (ul_operands ?s1) {x} ?L" using 1(5) filter_other_lists [OF r(4) u'] by simp
  have "slot ops1 n \<noteq> None" using same_None [OF 1(4), of n] n by (simp add: contains_operand_def)
  then obtain od1 where od1: "slot (ul_operands ?s1) n = Some od1" by auto
  have x1: "slot (ul_uses ?s1) x = Some (u\<lparr>u_prev_use := None, u_next_use := None\<rparr>)" using 1(2) by simp
  obtain us2 ops2 where 2: "attach_use_to_operand x n ?s1 = (Some (), ?s1\<lparr>ul_uses := us2, ul_operands := ops2\<rparr>)"
    "same (\<lambda>u. (u_id u, u_user u, u_operand_index u)) (ul_uses ?s1) us2"
    "\<forall>y. map_option u_operand (slot us2 y) = (if y = x then Some n else map_option u_operand (slot (ul_uses ?s1) y))"
    "same (\<lambda>od. (op_id od, op_value od)) (ul_operands ?s1) ops2" "links_ok us2 ops2 {} (?L(n := x # ?L n))"
    by (rule attach_ok [OF links1 x1 od1])
  have us: "same (\<lambda>u. (u_id u, u_user u, u_operand_index u)) (ul_uses s) us2"
    using same_trans [OF same_proj [OF 1(3), of "\<lambda>(a, b, c, d). (a, b, c)"], of us2] 2(2) by simp
  have ops: "same (\<lambda>od. (op_id od, op_value od)) (ul_operands s) ops2" using same_trans [OF 1(4)] 2(4) by simp
  have oper: "slot (ul_operands s) (u_operand v) \<noteq> None" if v: "slot us2 y = Some v" for y v
  proof (cases "y = x")
    case True
    with 2(3) [rule_format, of y] v n show ?thesis by (auto simp: contains_operand_def)
  next
    case False
    then obtain w where "slot us1 y = Some w" "u_operand w = u_operand v" using 2(3) [rule_format, of y] v by (cases "slot us1 y") auto
    moreover from this(1) obtain z where "slot (ul_uses s) y = Some z" "u_operand z = u_operand w"
      using same_slot_Some [OF same_sym [OF 1(3)]] by fastforce
    ultimately show ?thesis using ids_ok_use [OF r(1), of y z] by simp
  qed
  have L: "x # ?L n = x # L n"
    using links_ok_mem [OF r(4), of x n] u' diff by (simp add: filter_neq_id)
  let ?s' = "s\<lparr>ul_uses := us2, ul_operands := ops2\<rparr>"
  show thesis
  proof (rule that [of ?s'])
    show "set_use_operand x n s = (Some (u_operand u), ?s')"
      using 1(1) 2(1) u u' n diff by (simp add: set_use_operand_def contains_use_def)
    show "use_list_rep ?s' (?L(n := x # L n))"
      using use_list_rep_relink [OF rep us ops oper 2(5)] by (simp only: L)
  qed (use ops same_length [OF us] in auto)
qed

lemma rep_first_use:
  assumes "use_list_rep s L" "slot (ul_operands s) n = Some od"
  shows "op_first_use od = (case L n of [] \<Rightarrow> None | x # _ \<Rightarrow> Some x)"
  using links_okD(1) [OF use_list_repD(4) [OF assms(1)] assms(2)] chain_start by (auto simp: dlist_def)

lemma rep_length:
  assumes "use_list_rep s L"
  shows "length (L n) \<le> length (ul_uses s)"
proof -
  note r = use_list_repD [OF assms]
  have "set (L n) \<subseteq> set (live (ul_uses s))"
    using links_ok_mem [OF r(4)] by (auto simp: live_iff [OF r(7)])
  then have "length (L n) \<le> length (live (ul_uses s))"
    using links_ok_distinct [OF r(4), of n] by (metis List.finite_set card_mono card_length distinct_card order_trans)
  also have "\<dots> \<le> length (ul_uses s)" by (rule length_live)
  finally show ?thesis .
qed

lemma rep_use:
  assumes "use_list_rep s L" "x \<in> set (L n)"
  obtains u where "ul_use s x = Some u" "u_operand u = n"
  using links_ok_mem [OF use_list_repD(4) [OF assms(1)], of x n] assms(2) by (auto simp: ul_use_def)

lemma replace_loop_ok:
  assumes "use_list_rep s L" "a \<noteq> b" "contains_operand s a" "contains_operand s b" "length (L a) \<le> fuel"
  shows "\<exists>s'. replace_loop fuel a b k s = Some (Some (k + length (L a)), s') \<and>
           use_list_rep s' (L(a := [], b := rev (L a) @ L b)) \<and> ul_users s' = ul_users s \<and>
           same (\<lambda>od. (op_id od, op_value od)) (ul_operands s) (ul_operands s')"
  using assms
proof (induction fuel arbitrary: s L k)
  case 0
  then obtain od where "slot (ul_operands s) a = Some od" by (auto simp: contains_operand_def)
  with rep_first_use [OF 0(1) this] 0 show ?case
    by (subst replace_loop.simps) (auto simp: ul_operand_def fun_upd_idem)
next
  case (Suc fuel)
  obtain od where od: "slot (ul_operands s) a = Some od" using Suc.prems by (auto simp: contains_operand_def)
  note first = rep_first_use [OF Suc.prems(1) od]
  show ?case
  proof (cases "L a")
    case Nil
    with first od Suc.prems show ?thesis by (subst replace_loop.simps) (auto simp: ul_operand_def fun_upd_idem)
  next
    case (Cons x l)
    obtain u where u: "ul_use s x = Some u" "u_operand u = a" using rep_use [OF Suc.prems(1), of x a] Cons by auto
    note r = use_list_repD [OF Suc.prems(1)]
    obtain s1 where s1: "set_use_operand x b s = (Some a, s1)"
      "use_list_rep s1 ((\<lambda>m. filter (\<lambda>y. y \<noteq> x) (L m))(b := x # L b))"
      "ul_users s1 = ul_users s" "same (\<lambda>od. (op_id od, op_value od)) (ul_operands s) (ul_operands s1)"
      by (rule set_use_operand_ok [OF Suc.prems(1) u(1) Suc.prems(4)]) (simp_all add: u(2) Suc.prems(2))
    have "(\<lambda>m. filter (\<lambda>y. y \<noteq> x) (L m))(b := x # L b) = L(a := l, b := x # L b)"
    proof
      fix m
      have "x \<in> set (L m) \<longleftrightarrow> m = a" using links_ok_mem [OF r(4), of x m] u by (auto simp: ul_use_def)
      moreover have "x \<notin> set l" using links_ok_distinct [OF r(4), of a] Cons by simp
      ultimately show "((\<lambda>m. filter (\<lambda>y. y \<noteq> x) (L m))(b := x # L b)) m = (L(a := l, b := x # L b)) m"
        using Cons by (auto simp: filter_neq_id)
    qed
    moreover define L1 where "L1 = L(a := l, b := x # L b)"
    ultimately have rep1: "use_list_rep s1 L1" using s1(2) by simp
    have L1: "L1 a = l" "L1 b = x # L b" "L1(a := [], b := rev l @ x # L b) = L(a := [], b := rev l @ x # L b)"
      using Suc.prems(2) by (auto simp: L1_def)
    have live1: "contains_operand s1 a" "contains_operand s1 b"
      using Suc.prems(3,4) same_None [OF s1(4)] by (simp_all add: contains_operand_def)
    have "length (L1 a) \<le> fuel" using Suc.prems(5) Cons L1(1) by simp
    from Suc.IH [OF rep1 Suc.prems(2) live1 this, of "Suc k"] obtain s2 where
      s2: "replace_loop fuel a b (Suc k) s1 = Some (Some (Suc k + length l), s2)"
      "use_list_rep s2 (L(a := [], b := rev l @ x # L b))" "ul_users s2 = ul_users s1"
      "same (\<lambda>od. (op_id od, op_value od)) (ul_operands s1) (ul_operands s2)"
      unfolding L1 by blast
    have "replace_loop (Suc fuel) a b k s = Some (Some (k + length (L a)), s2)"
      using od first s1(1) s2(1) Cons by (subst replace_loop.simps) (simp add: ul_operand_def)
    moreover have "use_list_rep s2 (L(a := [], b := rev (L a) @ L b))" using s2(2) Cons by simp
    moreover have "ul_users s2 = ul_users s" using s2(3) s1(3) by simp
    ultimately show ?thesis using same_trans [OF s1(4) s2(4)] by blast
  qed
qed

lemma append_use_ok:
  assumes rep: "use_list_rep s L" and usr: "ul_user s m = Some usr" and n: "contains_operand s n"
    and len: "length (ul_uses s) < id_bound"
  obtains x s' where "append_use m n s = (Some x, s')" "use_list_rep s' (L(n := x # L n))"
    "ul_use s x = None" "ul_user s' m = Some (usr\<lparr>us_operand_slots := us_operand_slots usr @ [Some x]\<rparr>)"
    "\<And>k. k \<noteq> m \<Longrightarrow> ul_user s' k = ul_user s k"
proof -
  note r = use_list_repD [OF rep]
  let ?us = "ul_uses s" and ?ops = "ul_operands s"
  let ?x = "next_id ?us"
  obtain od where od: "slot ?ops n = Some od" using n by (auto simp: contains_operand_def)
  have usr': "slot (ul_users s) m = Some usr" using usr by (simp add: ul_user_def)
  let ?u = "\<lparr>u_id = ?x, u_user = m, u_operand_index = operand_slot_count usr, u_operand = n,
      u_prev_use = None, u_next_use = op_first_use od\<rparr>"
  let ?us1 = "?us @ [Some ?u]"
  let ?us' = "link_prev (op_first_use od) (Some ?x) ?us1"
  let ?ops' = "?ops[unat n := Some (od\<lparr>op_first_use := Some ?x\<rparr>)]"
  let ?users' = "(ul_users s)[unat m := Some (usr\<lparr>us_operand_slots := us_operand_slots usr @ [Some ?x]\<rparr>)]"
  let ?s' = "s\<lparr>ul_users := ?users', ul_operands := ?ops', ul_uses := ?us', ul_live_uses := ul_live_uses s + 1\<rparr>"
  have fresh: "slot ?us ?x = None" by (rule slot_next_id [OF len])
  have push: "slot ?us1 y = (if y = ?x then Some ?u else slot ?us y)" for y by (rule slot_push [OF len])
  have ok1: "links_ok ?us1 ?ops {?x} L"
    by (rule links_ok_frame [OF r(4)]) (use fresh links_ok_mem [OF r(4)] in \<open>auto simp: push\<close>)
  have links: "links_ok ?us' ?ops' {} (L(n := ?x # L n))"
    by (rule links_front [OF ok1 _ _ od, where u = ?u]) (simp_all add: push)
  have live1: "slot ?us1 y \<noteq> None" if "op_first_use od = Some y" for y by (rule first_use_live(1) [OF ok1 od that])
  have us: "same (\<lambda>u. (u_id u, u_user u, u_operand_index u, u_operand u)) ?us1 ?us'" by (rule same_link_prev) simp
  have ops: "same (\<lambda>od. (op_id od, op_value od)) ?ops ?ops'" by (rule same_update [OF od]) simp
  have slot': "\<exists>v. slot ?us1 y = Some v \<and> u_id v = u_id u \<and> u_user v = u_user u \<and>
      u_operand_index v = u_operand_index u \<and> u_operand v = u_operand u" if "slot ?us' y = Some u" for y u
    using same_slot_Some [OF same_sym [OF us] that] by auto
  have ids: "ids_ok ?s'"
    unfolding ids_ok_def
  proof (intro conjI allI impI)
    fix k k' od' u' y
    show "us_id k' = k" if "slot (ul_users ?s') k = Some k'" for k k'
      using that usr' r(1) by (auto simp: slot_update ids_ok_def split: if_splits)
    show "op_id od' = k" if "slot (ul_operands ?s') k = Some od'" for k od'
      using that od ids_ok_operand [OF r(1)] by (auto simp: slot_update split: if_splits)
    show "u_id u' = y" "slot (ul_operands ?s') (u_operand u') \<noteq> None" if "slot (ul_uses ?s') y = Some u'" for y u'
      using slot' [of y u'] that ids_ok_use [OF r(1), of y] od same_None [OF ops]
      by (auto simp: push split: if_splits)
  qed (use r(5-7) len in simp_all)
  have counts: "counts_ok ?s'"
    using r(2) live_update [OF usr'] live_update [OF od]
    by (simp add: counts_ok_def same_live [OF us, symmetric] live_push [OF len])
  have users: "users_ok ?users' ?us1"
    unfolding users_ok_def
  proof (intro conjI allI impI)
    fix k k' i y assume "slot ?users' k = Some k' \<and> use_at k' i = Some y"
    then have k: "slot ?users' k = Some k'" "use_at k' i = Some y" by auto
    show "\<exists>u. slot ?us1 y = Some u \<and> u_user u = k \<and> u_operand_index u = i"
    proof (cases "k = m \<and> i = length (us_operand_slots usr)")
      case True
      with k usr' have "y = ?x" by (auto simp: slot_update slot_Some_less use_at_def)
      with True push [of ?x] show ?thesis by (simp add: operand_slot_count_def)
    next
      case False
      with k usr' obtain k0 where "slot (ul_users s) k = Some k0" "use_at k0 i = Some y"
        by (auto simp: slot_update use_at_def nth_append slot_Some_less split: if_splits)
      then obtain u where "slot ?us y = Some u" "u_user u = k" "u_operand_index u = i"
        using r(3) unfolding users_ok_def by blast
      with fresh show ?thesis by (auto simp: push)
    qed
  next
    fix y u assume y: "slot ?us1 y = Some u"
    show "\<exists>k'. slot ?users' (u_user u) = Some k' \<and> use_at k' (u_operand_index u) = Some y"
    proof (cases "y = ?x")
      case True
      with y push [of y] have "u = ?u" by simp
      with True usr' show ?thesis by (simp add: slot_update slot_Some_less use_at_def operand_slot_count_def)
    next
      case False
      with y push [of y] have "slot ?us y = Some u" by simp
      then obtain k0 where "slot (ul_users s) (u_user u) = Some k0" "use_at k0 (u_operand_index u) = Some y"
        using r(3) unfolding users_ok_def by blast
      with usr' show ?thesis
        by (auto simp: slot_update use_at_def nth_append slot_Some_less split: if_splits)
    qed
  qed
  have users': "users_ok ?users' ?us'"
    by (rule users_ok_same [OF users]) (use same_proj [OF us, of "\<lambda>(a, b, c, d). (b, c)"] in simp)
  show thesis
  proof (rule that [of ?x ?s'])
    show "append_use m n s = (Some ?x, ?s')"
      using usr usr' od if_linked_prev [of "op_first_use od" "s\<lparr>ul_uses := ?us1\<rparr>" "Some ?x"] live1
      by (simp add: append_use_def ul_operand_def Let_def operand_mut_live user_mut_live)
    show "use_list_rep ?s' (L(n := ?x # L n))"
      using ids counts users' links by (simp add: use_list_rep_def)
  qed (use fresh usr' in \<open>auto simp: ul_use_def ul_user_def slot_update slot_Some_less\<close>)
qed

lemma users_ok_remove:
  assumes ok: "users_ok users us" and u: "slot us x = Some u" and usr: "slot users (u_user u) = Some usr"
  shows "users_ok (users[unat (u_user u) := Some (clear_slot (u_operand_index u) usr)]) (us[unat x := None])"
    (is "users_ok ?users' ?us'")
  unfolding users_ok_def
proof (intro conjI allI impI)
  fix k k' i y assume "slot ?users' k = Some k' \<and> use_at k' i = Some y"
  then have k: "slot ?users' k = Some k'" "use_at k' i = Some y" by auto
  have "\<not> (k = u_user u \<and> i = u_operand_index u)"
    using k usr by (auto simp: slot_update slot_Some_less clear_slot_def use_at_def split: if_splits)
  moreover obtain k0 where "slot users k = Some k0" "use_at k0 i = Some y"
    using k usr calculation
    by (cases "k = u_user u") (auto simp: slot_update slot_Some_less clear_slot_def use_at_def nth_list_update split: if_splits)
  then obtain v where v: "slot us y = Some v" "u_user v = k" "u_operand_index v = i"
    using ok unfolding users_ok_def by blast
  ultimately have "y \<noteq> x" using u by auto
  with v show "\<exists>u. slot ?us' y = Some u \<and> u_user u = k \<and> u_operand_index u = i" by (simp add: slot_update)
next
  fix y v assume y: "slot ?us' y = Some v"
  then have v: "y \<noteq> x" "slot us y = Some v" by (auto simp: slot_update slot_Some_less [OF u] split: if_splits)
  obtain k0 where k0: "slot users (u_user v) = Some k0" "use_at k0 (u_operand_index v) = Some y"
    using ok v(2) unfolding users_ok_def by blast
  have "use_at usr (u_operand_index u) = Some x" using ok u usr unfolding users_ok_def by (metis option.inject)
  with k0 v(1) usr have "\<not> (u_user v = u_user u \<and> u_operand_index v = u_operand_index u)" by auto
  with k0 usr show "\<exists>k'. slot ?users' (u_user v) = Some k' \<and> use_at k' (u_operand_index v) = Some y"
    by (cases "u_user v = u_user u") (auto simp: slot_update slot_Some_less clear_slot_def use_at_def split: if_splits)
qed

lemma remove_use_ok:
  assumes rep: "use_list_rep s L" and u: "ul_use s x = Some u"
  obtains usr s' where "remove_use x s = Some (Some (u\<lparr>u_prev_use := None, u_next_use := None\<rparr>), s')"
    "use_list_rep s' (\<lambda>n. filter (\<lambda>y. y \<noteq> x) (L n))"
    "ul_user s (u_user u) = Some usr"
    "ul_users s' = (ul_users s)[unat (u_user u) := Some (clear_slot (u_operand_index u) usr)]"
    "same (\<lambda>od. (op_id od, op_value od)) (ul_operands s) (ul_operands s')"
proof -
  note r = use_list_repD [OF rep]
  have u': "slot (ul_uses s) x = Some u" using u by (simp add: ul_use_def)
  obtain od where od: "slot (ul_operands s) (u_operand u) = Some od" using ids_ok_use [OF r(1) u'] by auto
  obtain usr where usr: "slot (ul_users s) (u_user u) = Some usr" using r(3) u' unfolding users_ok_def by blast
  let ?loose = "u\<lparr>u_prev_use := None, u_next_use := None\<rparr>" and ?L = "\<lambda>m. filter (\<lambda>y. y \<noteq> x) (L m)"
  obtain us1 ops1 where 1:
    "detach_use_from_operand x s = (Some (u_operand u), s\<lparr>ul_uses := us1, ul_operands := ops1\<rparr>)"
    "slot us1 x = Some ?loose"
    "same (\<lambda>u. (u_id u, u_user u, u_operand_index u, u_operand u)) (ul_uses s) us1"
    "same (\<lambda>od. (op_id od, op_value od)) (ul_operands s) ops1"
    "links_ok us1 ops1 {x} (L(u_operand u := remove1 x (L (u_operand u))))"
    by (rule detach_ok [OF r(4) u' od])
  let ?users' = "(ul_users s)[unat (u_user u) := Some (clear_slot (u_operand_index u) usr)]"
  let ?us' = "us1[unat x := None]"
  let ?s' = "s\<lparr>ul_users := ?users', ul_operands := ops1, ul_uses := ?us', ul_live_uses := ul_live_uses s - 1\<rparr>"
  have len1: "length us1 \<le> id_bound" using same_length [OF 1(3)] r(7) by simp
  have mem: "x \<in> set (live (ul_uses s))" by (rule live_Some [OF r(7) u'])
  then have pos: "ul_live_uses s \<noteq> 0" using r(2) by (auto simp: counts_ok_def)
  have slot1: "\<exists>v. slot (ul_uses s) y = Some v \<and> u_id v = u_id w \<and> u_operand v = u_operand w"
    if "slot ?us' y = Some w" for y w
    using same_slot_Some [OF same_sym [OF 1(3)], of y w] that by (auto simp: slot_update split: if_splits)
  have ids: "ids_ok ?s'"
    unfolding ids_ok_def
  proof (intro conjI allI impI)
    show "us_id k' = k" if "slot (ul_users ?s') k = Some k'" for k k'
      using that usr r(1) by (auto simp: slot_update ids_ok_def clear_slot_def split: if_splits)
    show "op_id od' = k" if "slot (ul_operands ?s') k = Some od'" for k od'
      using same_slot_Some [OF same_sym [OF 1(4)], of k od'] that ids_ok_operand [OF r(1), of k] by auto
    show "u_id w = y" "slot (ul_operands ?s') (u_operand w) \<noteq> None" if "slot (ul_uses ?s') y = Some w" for y w
      using slot1 [of y w] that ids_ok_use [OF r(1), of y] same_None [OF 1(4)] by auto
  qed (use r(5,6) len1 same_length [OF 1(4)] in simp_all)
  have counts: "counts_ok ?s'"
    using r(2) length_filter_neq [OF distinct_live [OF r(7)] mem] live_update [OF usr] same_live [OF 1(4)]
    by (simp add: counts_ok_def live_remove [OF len1] same_live [OF 1(3), symmetric])
  have "users_ok (ul_users s) us1"
    by (rule users_ok_same [OF r(3)]) (use same_proj [OF 1(3), of "\<lambda>(a, b, c, d). (b, c)"] in simp)
  from users_ok_remove [OF this 1(2)] usr have users: "users_ok ?users' ?us'" by simp
  have "links_ok us1 ops1 {x} ?L" using 1(5) filter_other_lists [OF r(4) u'] by simp
  then have links: "links_ok ?us' ops1 {} ?L"
    by (rule links_ok_frame) (use slot_Some_less [OF 1(2)] in \<open>auto simp: slot_update split: if_splits\<close>)
  show thesis
  proof (rule that [of ?s' usr])
    show "remove_use x s = Some (Some ?loose, ?s')"
      using u 1(1,2) usr pos by (simp add: remove_use_def user_mut_live)
    show "use_list_rep ?s' ?L" using ids counts users links by (simp add: use_list_rep_def)
  qed (use usr 1(4) in \<open>auto simp: ul_user_def\<close>)
qed

lemma rep_slot_use:
  assumes "use_list_rep s L" "ul_user s m = Some usr" "use_at usr i = Some x"
  obtains u where "ul_use s x = Some u" "u_user u = m" "u_operand_index u = i"
  using use_list_repD(3) [OF assms(1)] assms(2,3) unfolding users_ok_def ul_user_def ul_use_def by blast

lemma rep_live_listed:
  assumes "use_list_rep s L" "ul_use s x = Some u"
  shows "x \<in> set (L (u_operand u))"
  using links_ok_mem [OF use_list_repD(4) [OF assms(1)], of x] assms(2) by (simp add: ul_use_def)

text \<open>The loop of \<open>remove_user\<close>: the uses handled so far are gone from all lists and from the user's slots.\<close>

definition cleared :: "user_id \<Rightarrow> 'u user \<Rightarrow> use_id set \<Rightarrow> ('u, 'o) use_list \<Rightarrow> bool" where
  "cleared m usr X s \<longleftrightarrow> (\<exists>usr'. ul_user s m = Some usr' \<and> us_value usr' = us_value usr \<and>
     (\<forall>i. use_at usr' i = (case use_at usr i of None \<Rightarrow> None | Some x \<Rightarrow> if x \<in> X then None else Some x)))"

lemma remove_user_use:
  assumes rep: "use_list_rep s L" and cl: "cleared m usr X s" and x: "use_at usr i = Some x"
    and gone: "\<And>n. set (L n) \<inter> X = {}"
  shows "\<exists>s'. map_option snd (remove_use x s) = Some s' \<and>
           use_list_rep s' (\<lambda>n. filter (\<lambda>y. y \<noteq> x) (L n)) \<and> cleared m usr (insert x X) s'"
proof (cases "ul_use s x")
  case None
  obtain usr' where usr': "ul_user s m = Some usr'" "us_value usr' = us_value usr"
    "\<forall>i. use_at usr' i = (case use_at usr i of None \<Rightarrow> None | Some x \<Rightarrow> if x \<in> X then None else Some x)"
    using cl unfolding cleared_def by blast
  have nx: "use_at usr' j \<noteq> Some x" for j
    using rep_slot_use [OF rep usr'(1), of j x] None by auto
  have "use_at usr' j = (case use_at usr j of None \<Rightarrow> None | Some y \<Rightarrow> if y \<in> insert x X then None else Some y)" for j
    using usr'(3) [rule_format, of j] nx [of j] by (cases "use_at usr j") (auto split: if_splits)
  then have "cleared m usr (insert x X) s" unfolding cleared_def using usr'(1,2) by blast
  moreover have "x \<notin> set (L n)" for n using rep_use [OF rep, of x n] None by auto
  then have "(\<lambda>n. filter (\<lambda>y. y \<noteq> x) (L n)) = L" by (auto simp: filter_neq_id)
  ultimately show ?thesis using rep None by (simp add: remove_use_def)
next
  case (Some u)
  have fresh: "x \<notin> X" using rep_live_listed [OF rep Some] gone by blast
  obtain usr' where usr': "ul_user s m = Some usr'" "us_value usr' = us_value usr"
    "\<forall>i. use_at usr' i = (case use_at usr i of None \<Rightarrow> None | Some x \<Rightarrow> if x \<in> X then None else Some x)"
    using cl unfolding cleared_def by blast
  have "use_at usr' i = Some x" using usr'(3) x fresh by simp
  then have u: "u_user u = m" "u_operand_index u = i"
    using rep_slot_use [OF rep usr'(1), of i x] Some by auto
  obtain usr0 s' where s': "remove_use x s = Some (Some (u\<lparr>u_prev_use := None, u_next_use := None\<rparr>), s')"
    "use_list_rep s' (\<lambda>n. filter (\<lambda>y. y \<noteq> x) (L n))" "ul_user s (u_user u) = Some usr0"
    "ul_users s' = (ul_users s)[unat (u_user u) := Some (clear_slot (u_operand_index u) usr0)]"
    by (rule remove_use_ok [OF rep Some])
  have usr0: "usr0 = usr'" using s'(3) usr'(1) u(1) by simp
  have only: "j = i" if "use_at usr' j = Some x" for j
    using rep_slot_use [OF rep usr'(1) that] Some u(2) by auto
  have "ul_user s' m = Some (clear_slot i usr')"
    using s'(4) usr'(1) u slot_Some_less [of "ul_users s" m] by (simp add: ul_user_def slot_update usr0)
  moreover have "use_at (clear_slot i usr') j = (case use_at usr j of None \<Rightarrow> None | Some y \<Rightarrow> if y \<in> insert x X then None else Some y)" for j
  proof -
    have "use_at (clear_slot i usr') j = (if j = i then None else use_at usr' j)"
      by (auto simp: clear_slot_def use_at_def)
    then show ?thesis using usr'(3) [rule_format, of j] only [of j] x
      by (cases "use_at usr j") (auto split: if_splits)
  qed
  ultimately have "cleared m usr (insert x X) s'"
    unfolding cleared_def using usr'(2) by (intro exI [of _ "clear_slot i usr'"]) (simp add: clear_slot_def)
  with s'(1,2) show ?thesis by simp
qed

lemma use_at_mem: "x \<in> set (List.map_filter id (us_operand_slots usr)) \<longleftrightarrow> (\<exists>i. use_at usr i = Some x)"
  by (force simp: List.map_filter_def use_at_def in_set_conv_nth)

lemma use_list_rep_drop_user:
  assumes rep: "use_list_rep s L" and m: "ul_user s m = Some usr" and none: "\<And>i. use_at usr i = None"
  shows "ul_live_users s \<noteq> 0"
    "use_list_rep (s\<lparr>ul_users := (ul_users s)[unat m := None], ul_live_users := ul_live_users s - 1\<rparr>) L"
proof -
  note r = use_list_repD [OF rep]
  have m': "slot (ul_users s) m = Some usr" using m by (simp add: ul_user_def)
  have mem: "m \<in> set (live (ul_users s))" by (rule live_Some [OF r(5) m'])
  then show "ul_live_users s \<noteq> 0" using r(2) by (auto simp: counts_ok_def)
  let ?s = "s\<lparr>ul_users := (ul_users s)[unat m := None], ul_live_users := ul_live_users s - 1\<rparr>"
  have "ids_ok ?s" using r(1) by (auto simp: ids_ok_def slot_update split: if_splits)
  moreover have "counts_ok ?s"
    using r(2) length_filter_neq [OF distinct_live [OF r(5)] mem] by (simp add: counts_ok_def live_remove [OF r(5)])
  moreover have "users_ok ((ul_users s)[unat m := None]) (ul_uses s)"
    unfolding users_ok_def
  proof (intro conjI allI impI)
    show "\<exists>u. slot (ul_uses s) x = Some u \<and> u_user u = n \<and> u_operand_index u = i"
      if "slot ((ul_users s)[unat m := None]) n = Some k \<and> use_at k i = Some x" for n k i x
      using r(3) that unfolding users_ok_def by (auto simp: slot_update split: if_splits)
    show "\<exists>k. slot ((ul_users s)[unat m := None]) (u_user u) = Some k \<and> use_at k (u_operand_index u) = Some x"
      if u: "slot (ul_uses s) x = Some u" for x u
    proof -
      obtain k where k: "slot (ul_users s) (u_user u) = Some k" "use_at k (u_operand_index u) = Some x"
        using r(3) u unfolding users_ok_def by blast
      then have "u_user u \<noteq> m" using none m' by auto
      with k show ?thesis by (simp add: slot_update)
    qed
  qed
  ultimately show "use_list_rep ?s L" using r(4) by (simp add: use_list_rep_def)
qed

lemma remove_user_ok:
  assumes rep: "use_list_rep s L" and m: "ul_user s m = Some usr"
  defines "X \<equiv> set (List.map_filter id (us_operand_slots usr))"
  obtains usr' s' where "remove_user m s = Some (Some usr', s')" "us_id usr' = m" "us_value usr' = us_value usr"
    "use_list_rep s' (\<lambda>n. filter (\<lambda>y. y \<notin> X) (L n))" "ul_user s' m = None"
proof -
  let ?xs = "List.map_filter id (us_operand_slots usr)"
  let ?I = "\<lambda>ys s'. use_list_rep s' (\<lambda>n. filter (\<lambda>y. y \<notin> set ys) (L n)) \<and> cleared m usr (set ys) s'"
  have "\<exists>s'. for_each (\<lambda>use_id s. map_option snd (remove_use use_id s)) ?xs s = Some s' \<and> ?I ?xs s'"
  proof (rule for_each_rule [where I = ?I])
    show "?I [] s" using rep m by (auto simp: cleared_def split: option.splits)
  next
    fix ys x zs s' assume split: "?xs = ys @ x # zs" and I: "?I ys s'"
    have "x \<in> set ?xs" by (simp add: split)
    then obtain i where i: "use_at usr i = Some x" unfolding use_at_mem by blast
    have "set (filter (\<lambda>y. y \<notin> set ys) (L n)) \<inter> set ys = {}" for n by auto
    from remove_user_use [OF conjunct1 [OF I] conjunct2 [OF I] i this] obtain s'' where
      "map_option snd (remove_use x s') = Some s''"
      "use_list_rep s'' (\<lambda>n. filter (\<lambda>y. y \<noteq> x) (filter (\<lambda>y. y \<notin> set ys) (L n)))"
      "cleared m usr (insert x (set ys)) s''" by blast
    then show "\<exists>s''. map_option snd (remove_use x s') = Some s'' \<and> ?I (ys @ [x]) s''"
      by (intro exI [of _ s'']) (simp add: conj_commute)
  qed
  then obtain s1 where s1: "for_each (\<lambda>use_id s. map_option snd (remove_use use_id s)) ?xs s = Some s1"
    "use_list_rep s1 (\<lambda>n. filter (\<lambda>y. y \<notin> X) (L n))" "cleared m usr X s1" unfolding X_def by blast
  obtain usr' where usr': "ul_user s1 m = Some usr'" "us_value usr' = us_value usr"
    "\<forall>i. use_at usr' i = (case use_at usr i of None \<Rightarrow> None | Some x \<Rightarrow> if x \<in> X then None else Some x)"
    using s1(3) unfolding cleared_def by blast
  have none: "use_at usr' i = None" for i
  proof (cases "use_at usr i")
    case (Some x)
    then have "x \<in> X" unfolding X_def use_at_mem by blast
    with Some usr'(3) show ?thesis by simp
  qed (use usr'(3) in simp)
  note drop = use_list_rep_drop_user [OF s1(2) usr'(1) none]
  let ?s' = "s1\<lparr>ul_users := (ul_users s1)[unat m := None], ul_live_users := ul_live_users s1 - 1\<rparr>"
  have idx: "slot (ul_users s1) m = Some usr'" using usr'(1) by (simp add: ul_user_def)
  show thesis
  proof (rule that [of usr' ?s'])
    show "remove_user m s = Some (Some usr', ?s')"
      using m s1(1) idx drop(1) by (simp add: remove_user_def user_uses_def)
    show "us_id usr' = m" using use_list_repD(1) [OF s1(2)] idx by (simp add: ids_ok_def)
    show "ul_user ?s' m = None" using slot_Some_less [OF idx] by (simp add: ul_user_def slot_update)
  qed (use usr'(2) drop(2) in simp_all)
qed

lemma add_operand_ok:
  assumes rep: "use_list_rep s L" and len: "length (ul_operands s) < id_bound"
  shows "use_list_rep (snd (add_operand val s)) L" "ul_operand s (fst (add_operand val s)) = None"
    "ul_operand (snd (add_operand val s)) (fst (add_operand val s)) =
       Some \<lparr>op_id = fst (add_operand val s), op_value = val, op_first_use = None\<rparr>"
proof -
  note r = use_list_repD [OF rep]
  let ?n = "next_id (ul_operands s)" and ?s' = "snd (add_operand val s)"
  let ?od = "\<lparr>op_id = ?n, op_value = val, op_first_use = None\<rparr>"
  have push: "slot (ul_operands s @ [Some ?od]) k = (if k = ?n then Some ?od else slot (ul_operands s) k)" for k
    by (rule slot_push [OF len])
  have "L ?n = []" by (rule links_ok_dead [OF r(4) slot_next_id [OF len]])
  moreover have "dlist us None []" for us by (simp add: dlist_def)
  ultimately have "links_ok (ul_uses s) (ul_operands s @ [Some ?od]) {} L"
    using r(4) unfolding links_ok_def push by simp
  moreover have "ids_ok ?s'"
    using r(1) len unfolding ids_ok_def add_operand_def Let_def by (simp add: push)
  moreover have "counts_ok ?s'" using r(2) by (simp add: counts_ok_def add_operand_def Let_def live_push [OF len])
  ultimately show "use_list_rep ?s' L" using r(3) by (simp add: use_list_rep_def add_operand_def Let_def)
  show "ul_operand s (fst (add_operand val s)) = None"
    "ul_operand ?s' (fst (add_operand val s)) = Some \<lparr>op_id = fst (add_operand val s), op_value = val, op_first_use = None\<rparr>"
    by (simp_all add: add_operand_def ul_operand_def Let_def push slot_next_id [OF len])
qed

lemma add_user_ok:
  assumes rep: "use_list_rep s L" and len: "length (ul_users s) < id_bound"
  shows "use_list_rep (snd (add_user val s)) L" "ul_user s (fst (add_user val s)) = None"
    "ul_user (snd (add_user val s)) (fst (add_user val s)) =
       Some \<lparr>us_id = fst (add_user val s), us_value = val, us_operand_slots = []\<rparr>"
proof -
  note r = use_list_repD [OF rep]
  let ?n = "next_id (ul_users s)" and ?s' = "snd (add_user val s)"
  let ?us = "\<lparr>us_id = ?n, us_value = val, us_operand_slots = []\<rparr>"
  have push: "slot (ul_users s @ [Some ?us]) k = (if k = ?n then Some ?us else slot (ul_users s) k)" for k
    by (rule slot_push [OF len])
  have fresh: "slot (ul_users s) ?n = None" by (rule slot_next_id [OF len])
  have "users_ok (ul_users s @ [Some ?us]) (ul_uses s)"
    unfolding users_ok_def
  proof (intro conjI allI impI)
    show "\<exists>u. slot (ul_uses s) x = Some u \<and> u_user u = n \<and> u_operand_index u = i"
      if "slot (ul_users s @ [Some ?us]) n = Some k \<and> use_at k i = Some x" for n k i x
    proof -
      have "n \<noteq> ?n" using that unfolding push by (auto simp: use_at_def)
      with that have "slot (ul_users s) n = Some k" "use_at k i = Some x" unfolding push by simp_all
      with r(3) show ?thesis unfolding users_ok_def by blast
    qed
    show "\<exists>k. slot (ul_users s @ [Some ?us]) (u_user u) = Some k \<and> use_at k (u_operand_index u) = Some x"
      if u: "slot (ul_uses s) x = Some u" for x u
    proof -
      obtain k where "slot (ul_users s) (u_user u) = Some k" "use_at k (u_operand_index u) = Some x"
        using r(3) u unfolding users_ok_def by blast
      with fresh show ?thesis unfolding push by auto
    qed
  qed
  moreover have "ids_ok ?s'" using r(1) len unfolding ids_ok_def add_user_def Let_def by (simp add: push)
  moreover have "counts_ok ?s'" using r(2) by (simp add: counts_ok_def add_user_def Let_def live_push [OF len])
  ultimately show "use_list_rep ?s' L" using r(4) by (simp add: use_list_rep_def add_user_def Let_def)
  show "ul_user s (fst (add_user val s)) = None"
    "ul_user ?s' (fst (add_user val s)) = Some \<lparr>us_id = fst (add_user val s), us_value = val, us_operand_slots = []\<rparr>"
    by (simp_all add: add_user_def ul_user_def Let_def push fresh)
qed

lemma remove_operand_ok:
  assumes rep: "use_list_rep s L" and n: "ul_operand s n = Some od" and unused: "L n = []"
  obtains s' where "remove_operand n s = Some (Some od, s')" "use_list_rep s' L" "ul_operand s' n = None"
proof -
  note r = use_list_repD [OF rep]
  have n': "slot (ul_operands s) n = Some od" using n by (simp add: ul_operand_def)
  have mem: "n \<in> set (live (ul_operands s))" by (rule live_Some [OF r(6) n'])
  then have pos: "ul_live_operands s \<noteq> 0" using r(2) by (auto simp: counts_ok_def)
  let ?ops = "(ul_operands s)[unat n := None]"
  let ?s' = "s\<lparr>ul_operands := ?ops, ul_live_operands := ul_live_operands s - 1\<rparr>"
  have upd: "slot ?ops k = (if k = n then None else slot (ul_operands s) k)" for k
    using slot_Some_less [OF n'] by (simp add: slot_update)
  have "u_operand u \<noteq> n" if "slot (ul_uses s) x = Some u" for x u
    using links_ok_mem [OF r(4), of x n] that unused by auto
  then have "ids_ok ?s'" using r(1) unfolding ids_ok_def by (auto simp: upd split: if_splits)
  moreover have "counts_ok ?s'"
    using r(2) length_filter_neq [OF distinct_live [OF r(6)] mem] by (simp add: counts_ok_def live_remove [OF r(6)])
  moreover have "links_ok (ul_uses s) ?ops {} L"
    using r(4) unused unfolding links_ok_def upd by simp
  ultimately have "use_list_rep ?s' L" using r(3) by (simp add: use_list_rep_def)
  moreover have "remove_operand n s = Some (Some od, ?s')"
    using n rep_first_use [OF rep n'] unused pos by (simp add: remove_operand_def)
  ultimately show thesis using that [of ?s'] by (simp add: ul_operand_def upd)
qed

lemma users_ok_values:
  assumes ok: "users_ok users us" and eq: "same us_operand_slots users users'"
  shows "users_ok users' us"
proof -
  have at: "use_at a = use_at b" if "us_operand_slots a = us_operand_slots b" for a b :: "'u user"
    using that by (auto simp: use_at_def)
  show ?thesis
    unfolding users_ok_def
  proof (intro conjI allI impI)
    fix n k i x assume k: "slot users' n = Some k \<and> use_at k i = Some x"
    then obtain k0 where "slot users n = Some k0" "use_at k0 i = Some x"
      using same_slot_Some [OF same_sym [OF eq], of n k] at [of _ k] by metis
    with ok show "\<exists>u. slot us x = Some u \<and> u_user u = n \<and> u_operand_index u = i" unfolding users_ok_def by blast
  next
    fix x u assume "slot us x = Some u"
    then obtain k0 where "slot users (u_user u) = Some k0" "use_at k0 (u_operand_index u) = Some x"
      using ok unfolding users_ok_def by blast
    then show "\<exists>k. slot users' (u_user u) = Some k \<and> use_at k (u_operand_index u) = Some x"
      using same_slot_Some [OF eq, of "u_user u" k0] at [of _ k0] by metis
  qed
qed

text \<open>Writes through \<open>user_mut\<close> and \<open>operand_mut\<close> that keep the identifier and the private links.\<close>

definition user_write_ok :: "('u user \<Rightarrow> 'u user) \<Rightarrow> bool" where
  "user_write_ok f \<longleftrightarrow> (\<forall>us. us_id (f us) = us_id us \<and> us_operand_slots (f us) = us_operand_slots us)"

definition operand_write_ok :: "('o operand \<Rightarrow> 'o operand) \<Rightarrow> bool" where
  "operand_write_ok f \<longleftrightarrow> (\<forall>od. op_id (f od) = op_id od \<and> op_first_use (f od) = op_first_use od)"

lemma use_value_writes: "user_write_ok (us_value_update h)" "operand_write_ok (op_value_update h')"
  by (simp_all add: user_write_ok_def operand_write_ok_def)

lemma use_list_rep_user_mut:
  assumes rep: "use_list_rep s L" and f: "user_write_ok f"
  shows "use_list_rep (snd (user_mut f m s)) L"
proof (cases "slot (ul_users s) m")
  case (Some us)
  note r = use_list_repD [OF rep]
  let ?users = "(ul_users s)[unat m := Some (f us)]"
  have upd: "slot ?users k = (if k = m then Some (f us) else slot (ul_users s) k)" for k
    using slot_Some_less [OF Some] by (simp add: slot_update)
  have "users_ok ?users (ul_uses s)"
    by (rule users_ok_values [OF r(3)]) (rule same_update [OF Some], use f in \<open>simp add: user_write_ok_def\<close>)
  moreover have "ids_ok (s\<lparr>ul_users := ?users\<rparr>)"
    using r(1) Some f unfolding ids_ok_def by (simp add: upd user_write_ok_def)
  moreover have "counts_ok (s\<lparr>ul_users := ?users\<rparr>)" using r(2) live_update [OF Some] by (simp add: counts_ok_def)
  ultimately show ?thesis using r(4) Some by (simp add: use_list_rep_def user_mut_def)
qed (simp add: user_mut_def rep)

lemma use_list_rep_operand_mut:
  assumes rep: "use_list_rep s L" and f: "operand_write_ok f"
  shows "use_list_rep (snd (operand_mut f n s)) L"
proof (cases "slot (ul_operands s) n")
  case (Some od)
  note r = use_list_repD [OF rep]
  let ?ops = "(ul_operands s)[unat n := Some (f od)]"
  have upd: "slot ?ops k = (if k = n then Some (f od) else slot (ul_operands s) k)" for k
    using slot_Some_less [OF Some] by (simp add: slot_update)
  have "links_ok (ul_uses s) ?ops {} L"
    using r(4) links_okD(1) [OF r(4) Some] f unfolding links_ok_def upd by (simp add: operand_write_ok_def)
  moreover have "ids_ok (s\<lparr>ul_operands := ?ops\<rparr>)"
    using r(1) Some f unfolding ids_ok_def by (simp add: upd operand_write_ok_def)
  moreover have "counts_ok (s\<lparr>ul_operands := ?ops\<rparr>)" using r(2) live_update [OF Some] by (simp add: counts_ok_def)
  ultimately show ?thesis using r(3) Some by (simp add: use_list_rep_def operand_mut_def)
qed (simp add: operand_mut_def rep)

section \<open>Use lists built through the interface\<close>

text \<open>
  Every use list the public operations can build, as long as an identifier is left when something is
  added, and as long as what is written through \<open>user_mut\<close> and \<open>operand_mut\<close> keeps the identifier and
  the links. Nothing may be written through \<open>use_mut\<close>: every public field of a use (\<open>id\<close>, \<open>user\<close>,
  \<open>operand_index\<close>, \<open>operand\<close>) is part of the structure. See \<open>operand_change_loops\<close> for what a write does.
\<close>

inductive use_list_built :: "('u, 'o) use_list \<Rightarrow> bool" where
  ul_new: "use_list_built use_list_new"
| ul_add_operand: "use_list_built s \<Longrightarrow> length (ul_operands s) < id_bound \<Longrightarrow> use_list_built (snd (add_operand a s))"
| ul_add_user: "use_list_built s \<Longrightarrow> length (ul_users s) < id_bound \<Longrightarrow> use_list_built (snd (add_user b s))"
| ul_append: "use_list_built s \<Longrightarrow> length (ul_uses s) < id_bound \<Longrightarrow> use_list_built (snd (append_use m n s))"
| ul_set: "use_list_built s \<Longrightarrow> use_list_built (snd (set_use_operand x n s))"
| ul_set_user: "use_list_built s \<Longrightarrow> use_list_built (snd (set_user_operand m i n s))"
| ul_replace: "use_list_built s \<Longrightarrow> replace_all_uses_with a b s = Some (r, s') \<Longrightarrow> use_list_built s'"
| ul_remove_use: "use_list_built s \<Longrightarrow> remove_use x s = Some (r, s') \<Longrightarrow> use_list_built s'"
| ul_remove_user: "use_list_built s \<Longrightarrow> remove_user m s = Some (r, s') \<Longrightarrow> use_list_built s'"
| ul_remove_operand: "use_list_built s \<Longrightarrow> remove_operand n s = Some (r, s') \<Longrightarrow> use_list_built s'"
| ul_user_mut: "use_list_built s \<Longrightarrow> user_write_ok f' \<Longrightarrow> use_list_built (snd (user_mut f' m s))"
| ul_operand_mut: "use_list_built s \<Longrightarrow> operand_write_ok h' \<Longrightarrow> use_list_built (snd (operand_mut h' n s))"
| ul_user_value: "use_list_built s \<Longrightarrow> use_list_built (snd (user_value_mut f m s))"
| ul_operand_value: "use_list_built s \<Longrightarrow> use_list_built (snd (operand_value_mut h n s))"

lemma use_list_rep_new: "use_list_rep use_list_new (\<lambda>_. [])"
  by (simp add: use_list_rep_def use_list_new_def ids_ok_def counts_ok_def users_ok_def links_ok_def slot_def live_def)

lemma append_use_refused: "ul_user s m = None \<or> \<not> contains_operand s n \<Longrightarrow> append_use m n s = (None, s)"
  by (auto simp: append_use_def contains_operand_def ul_operand_def split: option.splits)

lemma rep_append_use:
  assumes "use_list_rep s L" "length (ul_uses s) < id_bound"
  shows "\<exists>L'. use_list_rep (snd (append_use m n s)) L'"
proof (cases "ul_user s m")
  case None
  with assms append_use_refused [of s m n] show ?thesis by auto
next
  case (Some usr)
  show ?thesis
  proof (cases "contains_operand s n")
    case True
    show ?thesis by (rule append_use_ok [OF assms(1) Some True assms(2)]) auto
  next
    case False
    with assms append_use_refused [of s m n] show ?thesis by auto
  qed
qed

lemma set_use_operand_same:
  assumes "ul_use s x = Some u" "contains_operand s n" "u_operand u = n"
  shows "set_use_operand x n s = (Some n, s)"
  using assms by (simp add: set_use_operand_def contains_use_def ul_use_def)

lemma set_use_operand_refused: "ul_use s x = None \<or> \<not> contains_operand s n \<Longrightarrow> set_use_operand x n s = (None, s)"
  by (auto simp: set_use_operand_def contains_use_def ul_use_def)

lemma rep_set_use_operand:
  assumes "use_list_rep s L"
  shows "\<exists>L'. use_list_rep (snd (set_use_operand x n s)) L'"
proof (cases "ul_use s x")
  case None
  with assms set_use_operand_refused [of s x n] show ?thesis by auto
next
  case (Some u)
  show ?thesis
  proof (cases "contains_operand s n")
    case True
    show ?thesis
    proof (cases "u_operand u = n")
      case True
      with set_use_operand_same [OF Some \<open>contains_operand s n\<close>] assms show ?thesis by auto
    next
      case False
      show ?thesis by (rule set_use_operand_ok [OF assms Some \<open>contains_operand s n\<close> False]) auto
    qed
  next
    case False
    with assms set_use_operand_refused [of s x n] show ?thesis by auto
  qed
qed

lemma replace_all_uses_with_ok:
  assumes "use_list_rep s L" "a \<noteq> b" "contains_operand s a" "contains_operand s b"
  shows "\<exists>s'. replace_all_uses_with a b s = Some (Some (length (L a)), s') \<and>
           use_list_rep s' (L(a := [], b := rev (L a) @ L b)) \<and> ul_users s' = ul_users s \<and>
           same (\<lambda>od. (op_id od, op_value od)) (ul_operands s) (ul_operands s')"
proof -
  have "length (L a) \<le> Suc (length (ul_uses s))" using rep_length [OF assms(1), of a] by simp
  moreover have "replace_all_uses_with a b s = replace_loop (Suc (length (ul_uses s))) a b 0 s"
    using assms(2-4) by (simp add: replace_all_uses_with_def)
  ultimately show ?thesis using replace_loop_ok [OF assms, of "Suc (length (ul_uses s))" 0] by simp
qed

lemma rep_replace:
  assumes "use_list_rep s L"
  shows "\<exists>r s' L'. replace_all_uses_with a b s = Some (r, s') \<and> use_list_rep s' L'"
proof (cases "a \<noteq> b \<and> contains_operand s a \<and> contains_operand s b")
  case True
  with replace_all_uses_with_ok [OF assms, of a b] show ?thesis by blast
qed (use assms in \<open>auto simp: replace_all_uses_with_def\<close>)

lemma rep_remove_use:
  assumes "use_list_rep s L"
  shows "\<exists>r s' L'. remove_use x s = Some (r, s') \<and> use_list_rep s' L'"
proof (cases "ul_use s x")
  case None
  with assms show ?thesis by (auto simp: remove_use_def)
next
  case (Some u)
  show ?thesis by (rule remove_use_ok [OF assms Some]) auto
qed

lemma rep_remove_user:
  assumes "use_list_rep s L"
  shows "\<exists>r s' L'. remove_user m s = Some (r, s') \<and> use_list_rep s' L'"
proof (cases "ul_user s m")
  case None
  with assms show ?thesis by (auto simp: remove_user_def user_uses_def)
next
  case (Some usr)
  show ?thesis by (rule remove_user_ok [OF assms Some]) auto
qed

lemma rep_remove_operand:
  assumes "use_list_rep s L"
  shows "\<exists>r s' L'. remove_operand n s = Some (r, s') \<and> use_list_rep s' L'"
proof (cases "ul_operand s n")
  case None
  with assms show ?thesis by (auto simp: remove_operand_def)
next
  case (Some od)
  show ?thesis
  proof (cases "L n")
    case Nil
    show ?thesis by (rule remove_operand_ok [OF assms Some Nil]) auto
  next
    case (Cons x l)
    then have "op_first_use od \<noteq> None"
      using rep_first_use [OF assms, of n od] Some by (simp add: ul_operand_def)
    with Some assms show ?thesis by (auto simp: remove_operand_def)
  qed
qed

lemma use_list_built_rep: "use_list_built s \<Longrightarrow> \<exists>L. use_list_rep s L"
proof (induction rule: use_list_built.induct)
  case (ul_set_user s m i n)
  then obtain L where "use_list_rep s L" by blast
  then show ?case using rep_set_use_operand [of s L _ n] by (auto simp: set_user_operand_def split: option.splits)
next
  case (ul_replace s a b r s')
  then obtain L where "use_list_rep s L" by blast
  from rep_replace [OF this, of a b] ul_replace(2) show ?case by auto
next
  case (ul_remove_use s x r s')
  then obtain L where "use_list_rep s L" by blast
  from rep_remove_use [OF this, of x] ul_remove_use(2) show ?case by auto
next
  case (ul_remove_user s m r s')
  then obtain L where "use_list_rep s L" by blast
  from rep_remove_user [OF this, of m] ul_remove_user(2) show ?case by auto
next
  case (ul_remove_operand s n r s')
  then obtain L where "use_list_rep s L" by blast
  from rep_remove_operand [OF this, of n] ul_remove_operand(2) show ?case by auto
next
  case ul_new
  show ?case using use_list_rep_new by blast
next
  case (ul_add_operand s a)
  then obtain L where "use_list_rep s L" by blast
  from add_operand_ok(1) [OF this ul_add_operand(2), of a] show ?case by (intro exI [where x = L])
next
  case (ul_add_user s b)
  then obtain L where "use_list_rep s L" by blast
  from add_user_ok(1) [OF this ul_add_user(2), of b] show ?case by (intro exI [where x = L])
next
  case (ul_append s m n)
  then obtain L where "use_list_rep s L" by blast
  from rep_append_use [OF this ul_append(2), of m n] show ?case .
next
  case (ul_set s x n)
  then obtain L where "use_list_rep s L" by blast
  from rep_set_use_operand [OF this, of x n] show ?case .
next
  case (ul_user_mut s f' m)
  then obtain L where "use_list_rep s L" by blast
  from use_list_rep_user_mut [OF this ul_user_mut(2), of m] show ?case by (intro exI [where x = L])
next
  case (ul_operand_mut s h' n)
  then obtain L where "use_list_rep s L" by blast
  from use_list_rep_operand_mut [OF this ul_operand_mut(2), of n] show ?case by (intro exI [where x = L])
next
  case (ul_user_value s f m)
  then obtain L where "use_list_rep s L" by blast
  from use_list_rep_user_mut [OF this use_value_writes(1), of f m] show ?case
    by (intro exI [where x = L]) (simp add: user_value_mut_def)
next
  case (ul_operand_value s h n)
  then obtain L where "use_list_rep s L" by blast
  from use_list_rep_operand_mut [OF this use_value_writes(2), of h n] show ?case
    by (intro exI [where x = L]) (simp add: operand_value_mut_def)
qed

lemma uses_walk_eq: "chain u_next_use us c l \<Longrightarrow> length l \<le> fuel \<Longrightarrow> uses_walk fuel us c = Some (Some l)"
proof (induction l arbitrary: c fuel)
  case (Cons e l)
  then obtain k where "fuel = Suc k" by (cases fuel) auto
  with Cons show ?case by (auto split: option.splits)
qed simp

lemma operand_uses_eq:
  assumes "use_list_rep s L"
  shows "operand_uses s n = Some (if contains_operand s n then Some (L n) else None)"
proof (cases "slot (ul_operands s) n")
  case (Some od)
  then have "chain u_next_use (ul_uses s) (op_first_use od) (L n)"
    using links_okD(1) [OF use_list_repD(4) [OF assms] Some] by (simp add: dlist_def)
  with uses_walk_eq rep_length [OF assms, of n] Some show ?thesis
    by (simp add: operand_uses_def ul_operand_def contains_operand_def)
qed (simp add: operand_uses_def ul_operand_def contains_operand_def)

section \<open>Properties\<close>

text \<open>A use list used as a concrete input: two operands, two users, three uses of the first operand.\<close>

definition sample_uses :: "(nat, nat) use_list" where
  "sample_uses = snd (append_use 0 0 (snd (append_use 1 0 (snd (append_use 0 0
     (snd (add_user 4 (snd (add_user 3 (snd (add_operand 2 (snd (add_operand 1 use_list_new)))))))))))))"

lemma sample_uses_built: "use_list_built sample_uses"
proof -
  let ?s1 = "snd (add_operand 1 use_list_new) :: (nat, nat) use_list"
  let ?s2 = "snd (add_operand 2 ?s1)" let ?s3 = "snd (add_user 3 ?s2)" let ?s4 = "snd (add_user 4 ?s3)"
  let ?s5 = "snd (append_use 0 0 ?s4)" let ?s6 = "snd (append_use 1 0 ?s5)"
  have small: "k \<le> 3 \<Longrightarrow> k < id_bound" for k by (simp add: id_bound_def)
  have "length (ul_operands (use_list_new :: (nat, nat) use_list)) \<le> 3" "length (ul_operands ?s1) \<le> 3"
    "length (ul_users ?s2) \<le> 3" "length (ul_users ?s3) \<le> 3" "length (ul_uses ?s4) \<le> 3"
    "length (ul_uses ?s5) \<le> 3" "length (ul_uses ?s6) \<le> 3" by code_simp+
  then show ?thesis unfolding sample_uses_def
    by (intro ul_append ul_add_user ul_add_operand ul_new small)
qed

text \<open>
  C24: on every use list built through the interface no operation panics or runs forever. There
  is one list of uses per operand; \<open>operand_uses\<close> reads it, and a use is in the list of an
  operand exactly when the use names that operand. Built through the interface means: by the operations
  that add, redirect and remove, and by writes through the mutable accessors of users and operands that keep
  identifiers and links, with at most \<open>2 ^ 32\<close> slots of each kind; nothing is written through \<open>use_mut\<close>.
\<close>

theorem use_list_interface_safe:
  assumes "use_list_built s"
  shows "(\<forall>x. remove_use x s \<noteq> None) \<and> (\<forall>m. remove_user m s \<noteq> None) \<and> (\<forall>n. remove_operand n s \<noteq> None) \<and>
         (\<forall>a b. replace_all_uses_with a b s \<noteq> None) \<and>
         (\<exists>L. use_list_rep s L \<and>
            (\<forall>n. operand_uses s n = Some (if contains_operand s n then Some (L n) else None)) \<and>
            (\<forall>x n. x \<in> set (L n) \<longleftrightarrow> map_option u_operand (ul_use s x) = Some n))"
proof -
  obtain L where L: "use_list_rep s L" using use_list_built_rep [OF assms] by blast
  have "remove_use x s \<noteq> None" for x using rep_remove_use [OF L, of x] by auto
  moreover have "remove_user m s \<noteq> None" for m using rep_remove_user [OF L, of m] by auto
  moreover have "remove_operand n s \<noteq> None" for n using rep_remove_operand [OF L, of n] by auto
  moreover have "replace_all_uses_with a b s \<noteq> None" for a b using rep_replace [OF L, of a b] by auto
  moreover have "x \<in> set (L n) \<longleftrightarrow> map_option u_operand (ul_use s x) = Some n" for x n
    using links_ok_mem [OF use_list_repD(4) [OF L], of x n] by (simp add: ul_use_def)
  ultimately show ?thesis using L operand_uses_eq [OF L] by blast
qed

theorem use_list_interface_safe_witness:
  "remove_user 0 sample_uses \<noteq> None \<and> operand_uses sample_uses 0 = Some (Some [2, 1, 0])"
proof
  show "remove_user 0 sample_uses \<noteq> None" using use_list_interface_safe [OF sample_uses_built] by blast
  show "operand_uses sample_uses 0 = Some (Some [2, 1, 0])" by code_simp
qed

text \<open>
  What the restriction on \<open>use_mut\<close> excludes: once the public field \<open>operand\<close> of the first use of an
  operand names another operand, replacing the uses of the one by the other goes round forever.
\<close>

lemma operand_change_loops:
  "replace_loop fuel 0 1 k (snd (use_mut (\<lambda>u. u\<lparr>u_operand := 1\<rparr>) 2 sample_uses)) = None"
proof (induction fuel arbitrary: k)
  let ?s = "snd (use_mut (\<lambda>u. u\<lparr>u_operand := 1\<rparr>) 2 sample_uses)"
  have first: "ul_operand ?s 0 = Some \<lparr>op_id = 0, op_value = 1, op_first_use = Some 2\<rparr>"
    and stays: "set_use_operand 2 1 ?s = (Some 1, ?s)" by code_simp+
  case 0
  show ?case by (simp add: replace_loop.simps [of 0] first)
  case (Suc fuel)
  then show ?case by (simp add: replace_loop.simps [of "Suc fuel"] first stays)
qed

text \<open>
  C11: \<open>replace_all_uses_with\<close> moves every use of one operand to another, in reverse order to the
  front of the other's list, returns their number, and changes neither the users' slots nor
  any operand's value or any other operand's list.
\<close>

theorem replace_all_uses_with_correct:
  assumes "use_list_rep s L" "a \<noteq> b" "contains_operand s a" "contains_operand s b"
  shows "\<exists>s'. replace_all_uses_with a b s = Some (Some (length (L a)), s') \<and>
           use_list_rep s' (L(a := [], b := rev (L a) @ L b)) \<and> ul_users s' = ul_users s \<and>
           (\<forall>n. operand_value s' n = operand_value s n)"
proof -
  obtain s' where s': "replace_all_uses_with a b s = Some (Some (length (L a)), s')"
    "use_list_rep s' (L(a := [], b := rev (L a) @ L b))" "ul_users s' = ul_users s"
    "same (\<lambda>od. (op_id od, op_value od)) (ul_operands s) (ul_operands s')"
    using replace_all_uses_with_ok [OF assms] by blast
  have "operand_value s' n = operand_value s n" for n
    using same_slot [OF same_proj [OF s'(4), of snd], of n] by (simp add: operand_value_def ul_operand_def)
  with s' show ?thesis by blast
qed

theorem replace_all_uses_with_correct_witness:
  "\<exists>s'. replace_all_uses_with 0 1 sample_uses = Some (Some 3, s') \<and>
     operand_uses s' 1 = Some (Some [0, 1, 2]) \<and> operand_value s' 1 = Some 2"
proof -
  obtain L where L: "use_list_rep sample_uses L" using use_list_built_rep [OF sample_uses_built] by blast
  have live: "contains_operand sample_uses 0" "contains_operand sample_uses 1" by code_simp+
  have reads: "operand_uses sample_uses 0 = Some (Some [2, 1, 0])" "operand_uses sample_uses 1 = Some (Some [])"
    "operand_value sample_uses 1 = Some 2" by code_simp+
  then have L01: "L 0 = [2, 1, 0]" "L 1 = []" using operand_uses_eq [OF L] live by simp_all
  obtain s' where s': "replace_all_uses_with 0 1 sample_uses = Some (Some (length (L 0)), s')"
    "use_list_rep s' (L(0 := [], 1 := rev (L 0) @ L 1))" "operand_value s' 1 = operand_value sample_uses 1"
    using replace_all_uses_with_correct [OF L _ live] by auto
  have "contains_operand s' 1" using s'(3) reads(3) by (auto simp: operand_value_def ul_operand_def contains_operand_def)
  with operand_uses_eq [OF s'(2), of 1] s' reads(3) L01 show ?thesis by simp
qed

text \<open>
  Redirecting a use returns its old operand and moves it to the front of the new operand's
  list; appending a use gives its user a new slot and puts it in front of the operand's list.
\<close>

theorem use_list_attach:
  assumes "use_list_rep s L" "contains_operand s n"
  shows "(\<forall>x u. ul_use s x = Some u \<and> u_operand u \<noteq> n \<longrightarrow>
            (\<exists>s'. set_use_operand x n s = (Some (u_operand u), s') \<and> ul_users s' = ul_users s \<and>
               use_list_rep s' ((\<lambda>m. filter (\<lambda>y. y \<noteq> x) (L m))(n := x # L n)))) \<and>
         (\<forall>m usr. ul_user s m = Some usr \<and> length (ul_uses s) < id_bound \<longrightarrow>
            (\<exists>x s'. append_use m n s = (Some x, s') \<and> ul_use s x = None \<and>
               ul_user s' m = Some (usr\<lparr>us_operand_slots := us_operand_slots usr @ [Some x]\<rparr>) \<and>
               use_list_rep s' (L(n := x # L n))))"
proof (intro conjI allI impI; elim conjE)
  fix x u assume "ul_use s x = Some u" "u_operand u \<noteq> n"
  then show "\<exists>s'. set_use_operand x n s = (Some (u_operand u), s') \<and> ul_users s' = ul_users s \<and>
      use_list_rep s' ((\<lambda>m. filter (\<lambda>y. y \<noteq> x) (L m))(n := x # L n))"
    using set_use_operand_ok [OF assms(1) _ assms(2)] by blast
next
  fix m usr assume "ul_user s m = Some usr" "length (ul_uses s) < id_bound"
  then show "\<exists>x s'. append_use m n s = (Some x, s') \<and> ul_use s x = None \<and>
      ul_user s' m = Some (usr\<lparr>us_operand_slots := us_operand_slots usr @ [Some x]\<rparr>) \<and>
      use_list_rep s' (L(n := x # L n))"
    using append_use_ok [OF assms(1) _ assms(2)] by blast
qed

theorem use_list_attach_witness:
  "\<exists>s'. set_use_operand 1 1 sample_uses = (Some 0, s') \<and> operand_uses s' 0 = Some (Some [2, 0])"
proof -
  obtain L where L: "use_list_rep sample_uses L" using use_list_built_rep [OF sample_uses_built] by blast
  have live: "contains_operand sample_uses 0" "contains_operand sample_uses 1" by code_simp+
  have reads: "operand_uses sample_uses 0 = Some (Some [2, 1, 0])" "map_option u_operand (ul_use sample_uses 1) = Some 0"
    by code_simp+
  then obtain u where u: "ul_use sample_uses 1 = Some u" "u_operand u = 0" by auto
  with use_list_attach [OF L live(2)] obtain s' where s': "set_use_operand 1 1 sample_uses = (Some 0, s')"
    "use_list_rep s' ((\<lambda>m. filter (\<lambda>y. y \<noteq> 1) (L m))(1 := 1 # L 1))" by force
  have "contains_operand (snd (set_use_operand 1 1 sample_uses)) 0" by code_simp
  moreover have "L 0 = [2, 1, 0]" using operand_uses_eq [OF L, of 0] reads(1) live by simp
  ultimately show ?thesis using operand_uses_eq [OF s'(2), of 0] s'(1) by simp
qed

end
