(* ===== verification/LatticeOps.thy ===== *)
theory LatticeOps
  imports Prelude "HOL-Library.FSet"
begin

text \<open>
  \<open>etas_utils/src/fixpoint/lattice.rs\<close>: the traits \<open>PartialOrder\<close>, \<open>JoinSemiLattice\<close> and
  \<open>MeetSemiLattice\<close> with their implementations for \<open>bool\<close> and \<open>BTreeSet\<close>. A method taking
  \<open>&mut self\<close> returns its result with the new value of \<open>self\<close>; a \<open>BTreeSet\<close> is a finite set.
\<close>

section \<open>The implementations\<close>

definition equivalent :: "('a \<Rightarrow> 'a \<Rightarrow> bool) \<Rightarrow> 'a \<Rightarrow> 'a \<Rightarrow> bool" where
  "equivalent less_equal a b \<longleftrightarrow> less_equal a b \<and> less_equal b a"

definition bool_less_equal :: "bool \<Rightarrow> bool \<Rightarrow> bool" where
  "bool_less_equal self other \<longleftrightarrow> \<not> self \<or> other"

definition bool_bottom :: bool where
  "bool_bottom = False"

definition bool_join_assign :: "bool \<Rightarrow> bool \<Rightarrow> bool \<times> bool" where
  "bool_join_assign self other = (let new = self \<or> other; changed = (new \<noteq> self) in (changed, new))"

definition bool_top :: bool where
  "bool_top = True"

definition bool_meet_assign :: "bool \<Rightarrow> bool \<Rightarrow> bool \<times> bool" where
  "bool_meet_assign self other = (let new = self \<and> other; changed = (new \<noteq> self) in (changed, new))"

definition set_less_equal :: "'a fset \<Rightarrow> 'a fset \<Rightarrow> bool" where
  "set_less_equal self other \<longleftrightarrow> self |\<subseteq>| other"

definition set_bottom :: "'a fset" where
  "set_bottom = {||}"

definition set_join_assign :: "'a fset \<Rightarrow> 'a fset \<Rightarrow> bool \<times> 'a fset" where
  "set_join_assign self other =
     (let old_len = fcard self; new = self |\<union>| other in (fcard new \<noteq> old_len, new))"

text \<open>Joining a list of values into one, as a transfer function does.\<close>

fun join_all :: "('a \<Rightarrow> 'a \<Rightarrow> bool \<times> 'a) \<Rightarrow> 'a list \<Rightarrow> 'a \<Rightarrow> bool \<times> 'a" where
  "join_all join [] a = (False, a)"
| "join_all join (b # bs) a =
     (fst (join a b) \<or> fst (join_all join bs (snd (join a b))), snd (join_all join bs (snd (join a b))))"

section \<open>The contracts\<close>

locale partial_order_laws =
  fixes less_equal :: "'a \<Rightarrow> 'a \<Rightarrow> bool"
  assumes le_refl: "less_equal a a"
    and le_trans: "less_equal a b \<Longrightarrow> less_equal b c \<Longrightarrow> less_equal a c"
    and le_antisym: "less_equal a b \<Longrightarrow> less_equal b a \<Longrightarrow> a = b"
begin

lemma equivalent_iff: "equivalent less_equal a b \<longleftrightarrow> a = b"
  using le_refl le_antisym by (auto simp: equivalent_def)

end

text \<open>\<open>join_assign\<close> stores the least upper bound and reports whether that changed the value.\<close>

locale join_semilattice_laws = partial_order_laws +
  fixes bottom :: 'a and join_assign :: "'a \<Rightarrow> 'a \<Rightarrow> bool \<times> 'a"
  assumes bottom_least: "less_equal bottom a"
    and join_upper: "less_equal a (snd (join_assign a b))" "less_equal b (snd (join_assign a b))"
    and join_least: "less_equal a c \<Longrightarrow> less_equal b c \<Longrightarrow> less_equal (snd (join_assign a b)) c"
    and join_changed: "fst (join_assign a b) \<longleftrightarrow> snd (join_assign a b) \<noteq> a"
begin

lemma join_unchanged: "\<not> fst (join_assign a b) \<longleftrightarrow> less_equal b a"
  using join_changed join_upper join_least le_refl le_antisym by metis

lemma join_all_upper: "less_equal a (snd (join_all join_assign bs a))" "b \<in> set bs \<Longrightarrow> less_equal b (snd (join_all join_assign bs a))"
proof (induction bs arbitrary: a)
  case (Cons c bs)
  { case 1 show ?case using Cons.IH(1) [of "snd (join_assign a c)"] join_upper le_trans by (simp, blast) }
  { case 2 then show ?case
      using Cons.IH(1) [of "snd (join_assign a c)"] Cons.IH(2) [of "snd (join_assign a c)"] join_upper(2) [of c a] le_trans
      by (simp, blast) }
qed (simp_all add: le_refl)

lemma join_all_least: "less_equal a c \<Longrightarrow> \<forall>b\<in>set bs. less_equal b c \<Longrightarrow> less_equal (snd (join_all join_assign bs a)) c"
  by (induction bs arbitrary: a) (auto simp: join_least)

lemma join_all_changed: "fst (join_all join_assign bs a) \<longleftrightarrow> (\<exists>b\<in>set bs. \<not> less_equal b a)"
proof (induction bs arbitrary: a)
  case (Cons b bs)
  show ?case
  proof (cases "less_equal b a")
    case True
    then have "\<not> fst (join_assign a b)" by (simp add: join_unchanged)
    then have "snd (join_assign a b) = a" using join_changed by blast
    with True Cons.IH [of a] \<open>\<not> fst (join_assign a b)\<close> show ?thesis by simp
  next
    case False
    then show ?thesis using join_unchanged [of a b] by simp
  qed
qed simp

end

locale meet_semilattice_laws = partial_order_laws +
  fixes top :: 'a and meet_assign :: "'a \<Rightarrow> 'a \<Rightarrow> bool \<times> 'a"
  assumes top_greatest: "less_equal a top"
    and meet_lower: "less_equal (snd (meet_assign a b)) a" "less_equal (snd (meet_assign a b)) b"
    and meet_greatest: "less_equal c a \<Longrightarrow> less_equal c b \<Longrightarrow> less_equal c (snd (meet_assign a b))"
    and meet_changed: "fst (meet_assign a b) \<longleftrightarrow> snd (meet_assign a b) \<noteq> a"

text \<open>\<open>trait Lattice: JoinSemiLattice + MeetSemiLattice\<close>\<close>

locale lattice_laws =
  join_semilattice_laws less_equal bottom join_assign + meet_semilattice_laws less_equal top meet_assign
  for less_equal :: "'a \<Rightarrow> 'a \<Rightarrow> bool" and bottom join_assign top meet_assign
begin

lemma absorption:
  "snd (join_assign a (snd (meet_assign a b))) = a" "snd (meet_assign a (snd (join_assign a b))) = a"
  using join_upper join_least meet_lower meet_greatest le_refl le_antisym by metis+

end

interpretation bool_lattice: lattice_laws bool_less_equal bool_bottom bool_join_assign bool_top bool_meet_assign
  by unfold_locales
    (auto simp: bool_less_equal_def bool_bottom_def bool_join_assign_def bool_top_def bool_meet_assign_def Let_def)

lemma set_join_unchanged: "fcard (a |\<union>| b) \<noteq> fcard a \<longleftrightarrow> a |\<union>| b \<noteq> a"
proof -
  have "fcard (a |\<union>| b) = fcard a \<Longrightarrow> a |\<union>| b = a"
    by (metis fcard_seteq le_refl sup_ge1)
  then show ?thesis by auto
qed

interpretation set_semilattice: join_semilattice_laws set_less_equal set_bottom set_join_assign
  by unfold_locales
    (auto simp: set_less_equal_def set_bottom_def set_join_assign_def Let_def set_join_unchanged)

section \<open>Properties\<close>

text \<open>
  the implementations keep the contracts of their traits: \<open>bool\<close> is a lattice and
  \<open>BTreeSet\<close> a join semilattice whose order is inclusion; \<open>join_assign\<close> and \<open>meet_assign\<close> store
  the bound and report a change exactly when the stored value differs.
\<close>

lemma lattice_implementations:
  "lattice_laws bool_less_equal bool_bottom bool_join_assign bool_top bool_meet_assign \<and>
   join_semilattice_laws set_less_equal set_bottom (set_join_assign :: 'a fset \<Rightarrow> 'a fset \<Rightarrow> bool \<times> 'a fset) \<and>
   (\<forall>bs (a :: 'a fset). fst (join_all set_join_assign bs a) = list_ex (\<lambda>b. \<not> b |\<subseteq>| a) bs)"
proof (intro conjI allI)
  fix bs :: "'a fset list" and a
  show "fst (join_all set_join_assign bs a) = list_ex (\<lambda>b. \<not> b |\<subseteq>| a) bs"
    by (simp add: set_semilattice.join_all_changed set_less_equal_def list_ex_iff)
qed unfold_locales

end
