(* ===== verification/Fixpoint.thy ===== *)
theory Fixpoint
  imports LatticeOps
begin

text \<open>
  \<open>etas_utils/src/fixpoint\<close>: \<open>worklist.rs\<close>, \<open>iteration.rs\<close>, \<open>transfer.rs\<close> and \<open>solver.rs\<close>. A
  closure \<open>FnMut(&mut State) -> bool\<close> is a function that returns its result with the new
  state; what a closure captures and changes is part of that state. An error is an \<open>Inl\<close>.
  The iteration limit makes every loop total.
\<close>

section \<open>The worklist\<close>

record 'n worklist =
  wl_queue :: "'n list"
  wl_queued :: "'n set"

definition wl_new :: "'n worklist" where
  "wl_new = \<lparr>wl_queue = [], wl_queued = {}\<rparr>"

definition wl_push :: "'n \<Rightarrow> 'n worklist \<Rightarrow> bool \<times> 'n worklist" where
  "wl_push node w =
     (if node \<in> wl_queued w then (False, w)
      else (True, w\<lparr>wl_queued := insert node (wl_queued w), wl_queue := wl_queue w @ [node]\<rparr>))"

fun wl_extend :: "'n list \<Rightarrow> 'n worklist \<Rightarrow> 'n worklist" where
  "wl_extend [] w = w"
| "wl_extend (node # nodes) w = wl_extend nodes (snd (wl_push node w))"

definition wl_pop :: "'n worklist \<Rightarrow> 'n option \<times> 'n worklist" where
  "wl_pop w =
     (case wl_queue w of
        [] \<Rightarrow> (None, w)
      | node # queue \<Rightarrow> (Some node, w\<lparr>wl_queue := queue, wl_queued := wl_queued w - {node}\<rparr>))"

definition wl_contains :: "'n worklist \<Rightarrow> 'n \<Rightarrow> bool" where
  "wl_contains w node \<longleftrightarrow> node \<in> wl_queued w"

definition wl_clear :: "'n worklist \<Rightarrow> 'n worklist" where
  "wl_clear w = w\<lparr>wl_queue := [], wl_queued := {}\<rparr>"

definition wl_is_empty :: "'n worklist \<Rightarrow> bool" where
  "wl_is_empty w \<longleftrightarrow> wl_queue w = []"

definition wl_len :: "'n worklist \<Rightarrow> nat" where
  "wl_len w = length (wl_queue w)"

definition wl_from_iter :: "'n list \<Rightarrow> 'n worklist" where
  "wl_from_iter nodes = wl_extend nodes wl_new"

section \<open>Limits and results\<close>

datatype iteration_limit = IterationLimit (max_iterations: nat)

definition limit_default :: iteration_limit where
  "limit_default = IterationLimit 10000"

datatype convergence_status = Converged | IterationLimitReached

record fixpoint_stats =
  fs_iterations :: nat
  fs_changes :: nat

definition stats_default :: fixpoint_stats where
  "stats_default = \<lparr>fs_iterations = 0, fs_changes = 0\<rparr>"

record 's fixpoint_result =
  fr_value :: 's
  fr_status :: convergence_status
  fr_stats :: fixpoint_stats

definition converged :: "'s fixpoint_result \<Rightarrow> bool" where
  "converged r \<longleftrightarrow> fr_status r = Converged"

section \<open>The solver\<close>

datatype fixpoint_engine = FixpointEngine (engine_limit: iteration_limit)

function solve_loop :: "nat \<Rightarrow> ('s \<Rightarrow> 'e + bool \<times> 's) \<Rightarrow> 's \<Rightarrow> fixpoint_stats \<Rightarrow> 'e + 's fixpoint_result" where
  "solve_loop limit step state stats =
     (if fs_iterations stats < limit
      then (let stats = stats\<lparr>fs_iterations := fs_iterations stats + 1\<rparr>
            in case step state of
                 Inl e \<Rightarrow> Inl e
               | Inr (changed, state) \<Rightarrow>
                   if \<not> changed then Inr \<lparr>fr_value = state, fr_status = Converged, fr_stats = stats\<rparr>
                   else solve_loop limit step state (stats\<lparr>fs_changes := fs_changes stats + 1\<rparr>))
      else Inr \<lparr>fr_value = state, fr_status = IterationLimitReached, fr_stats = stats\<rparr>)"
  by pat_completeness auto
termination by (relation "measure (\<lambda>(limit, _, _, stats). limit - fs_iterations stats)") auto

declare solve_loop.simps [simp del]

definition try_solve :: "fixpoint_engine \<Rightarrow> 's \<Rightarrow> ('s \<Rightarrow> 'e + bool \<times> 's) \<Rightarrow> 'e + 's fixpoint_result" where
  "try_solve engine state step = solve_loop (max_iterations (engine_limit engine)) step state stats_default"

text \<open>
  \<open>unwrap_or_else(|never| match never {})\<close> on a result whose error type has no values: the
  closure is never called, which \<open>solve_total\<close> below shows for the model.
\<close>

definition unwrap_infallible :: "unit + 'a \<Rightarrow> 'a option" where
  "unwrap_infallible r = (case r of Inl _ \<Rightarrow> None | Inr a \<Rightarrow> Some a)"

definition solve :: "fixpoint_engine \<Rightarrow> 's \<Rightarrow> ('s \<Rightarrow> bool \<times> 's) \<Rightarrow> 's fixpoint_result option" where
  "solve engine state step = unwrap_infallible (try_solve engine state (\<lambda>s. Inr (step s)))"

text \<open>One round over all transfers: \<open>changed |= transfer.apply(state)\<close>.\<close>

fun transfer_round :: "('s \<Rightarrow> bool \<times> 's) list \<Rightarrow> bool \<Rightarrow> 's \<Rightarrow> bool \<times> 's" where
  "transfer_round [] changed state = (changed, state)"
| "transfer_round (t # ts) changed state =
     (let (c, state) = t state in transfer_round ts (changed \<or> c) state)"

definition apply_transfers :: "fixpoint_engine \<Rightarrow> 's \<Rightarrow> ('s \<Rightarrow> bool \<times> 's) list \<Rightarrow> 's fixpoint_result option" where
  "apply_transfers engine state transfers = solve engine state (transfer_round transfers False)"

text \<open>The schedule only reads the state; what it captures and changes is its memory \<open>'c\<close>.\<close>

function worklist_loop :: "nat \<Rightarrow> ('n \<Rightarrow> 's \<Rightarrow> 'e + bool \<times> 's) \<Rightarrow> ('n \<Rightarrow> 's \<Rightarrow> 'c \<Rightarrow> 'n list \<times> 'c) \<Rightarrow> 's \<Rightarrow> 'c \<Rightarrow>
    'n worklist \<Rightarrow> fixpoint_stats \<Rightarrow> 'e + 's fixpoint_result" where
  "worklist_loop limit step schedule state mem worklist stats =
     (case wl_pop worklist of
        (None, worklist) \<Rightarrow> Inr \<lparr>fr_value = state, fr_status = Converged, fr_stats = stats\<rparr>
      | (Some node, worklist) \<Rightarrow>
          if limit \<le> fs_iterations stats
          then Inr \<lparr>fr_value = state, fr_status = IterationLimitReached, fr_stats = stats\<rparr>
          else (let stats = stats\<lparr>fs_iterations := fs_iterations stats + 1\<rparr>
                in case step node state of
                     Inl e \<Rightarrow> Inl e
                   | Inr (changed, state) \<Rightarrow>
                       if changed
                       then (let (nodes, mem) = schedule node state mem
                             in worklist_loop limit step schedule state mem (wl_extend nodes worklist)
                                  (stats\<lparr>fs_changes := fs_changes stats + 1\<rparr>))
                       else worklist_loop limit step schedule state mem worklist stats))"
  by pat_completeness auto
termination by (relation "measure (\<lambda>(limit, _, _, _, _, _, stats). limit - fs_iterations stats)") auto

declare worklist_loop.simps [simp del]

definition try_solve_worklist :: "fixpoint_engine \<Rightarrow> 's \<Rightarrow> 'n list \<Rightarrow> ('n \<Rightarrow> 's \<Rightarrow> 'e + bool \<times> 's) \<Rightarrow>
    ('n \<Rightarrow> 's \<Rightarrow> 'c \<Rightarrow> 'n list \<times> 'c) \<Rightarrow> 'c \<Rightarrow> 'e + 's fixpoint_result" where
  "try_solve_worklist engine state initial step schedule mem =
     worklist_loop (max_iterations (engine_limit engine)) step schedule state mem
       (wl_from_iter initial) stats_default"

definition solve_worklist :: "fixpoint_engine \<Rightarrow> 's \<Rightarrow> 'n list \<Rightarrow> ('n \<Rightarrow> 's \<Rightarrow> bool \<times> 's) \<Rightarrow>
    ('n \<Rightarrow> 's \<Rightarrow> 'c \<Rightarrow> 'n list \<times> 'c) \<Rightarrow> 'c \<Rightarrow> 's fixpoint_result option" where
  "solve_worklist engine state initial step schedule mem =
     unwrap_infallible (try_solve_worklist engine state initial (\<lambda>n s. Inr (step n s)) schedule mem)"

section \<open>The worklist is a queue without duplicates\<close>

definition wl_ok :: "'n worklist \<Rightarrow> bool" where
  "wl_ok w \<longleftrightarrow> distinct (wl_queue w) \<and> wl_queued w = set (wl_queue w)"

definition enqueue :: "'n list \<Rightarrow> 'n \<Rightarrow> 'n list" where
  "enqueue q x = (if x \<in> set q then q else q @ [x])"

lemma wl_ok_new [simp]: "wl_ok wl_new"
  by (simp add: wl_ok_def wl_new_def)

lemma wl_push_queue:
  "wl_ok w \<Longrightarrow> wl_ok (snd (wl_push x w)) \<and> wl_queue (snd (wl_push x w)) = enqueue (wl_queue w) x \<and>
     fst (wl_push x w) = (x \<notin> set (wl_queue w))"
  by (auto simp: wl_ok_def wl_push_def enqueue_def)

lemma wl_extend_queue:
  "wl_ok w \<Longrightarrow> wl_ok (wl_extend xs w) \<and> wl_queue (wl_extend xs w) = foldl enqueue (wl_queue w) xs"
proof (induction xs arbitrary: w)
  case (Cons x xs)
  with wl_push_queue [OF Cons.prems, of x] Cons.IH [of "snd (wl_push x w)"] show ?case by simp
qed simp

lemma set_enqueue: "set (foldl enqueue q xs) = set q \<union> set xs"
  by (induction xs arbitrary: q) (auto simp: enqueue_def)

lemma length_enqueue: "length (foldl enqueue q xs) \<le> length q + length xs"
proof (induction xs arbitrary: q)
  case (Cons x xs)
  have "length (foldl enqueue q (x # xs)) \<le> length (enqueue q x) + length xs" using Cons [of "enqueue q x"] by simp
  also have "length (enqueue q x) \<le> Suc (length q)" by (simp add: enqueue_def)
  finally show ?case by simp
qed simp

lemma wl_pop_queue:
  "wl_ok w \<Longrightarrow> (case wl_queue w of
     [] \<Rightarrow> wl_pop w = (None, w)
   | x # q \<Rightarrow> \<exists>w'. wl_pop w = (Some x, w') \<and> wl_ok w' \<and> wl_queue w' = q)"
  by (auto simp: wl_ok_def wl_pop_def split: list.splits)

inductive wl_built :: "'n worklist \<Rightarrow> bool" where
  built_new: "wl_built wl_new"
| built_push: "wl_built w \<Longrightarrow> wl_built (snd (wl_push x w))"
| built_extend: "wl_built w \<Longrightarrow> wl_built (wl_extend xs w)"
| built_pop: "wl_built w \<Longrightarrow> wl_built (snd (wl_pop w))"
| built_clear: "wl_built w \<Longrightarrow> wl_built (wl_clear w)"

lemma wl_built_ok: "wl_built w \<Longrightarrow> wl_ok w"
proof (induction rule: wl_built.induct)
  case (built_pop w)
  then show ?case using wl_pop_queue [of w] by (cases "wl_queue w") auto
next
  case (built_clear w)
  show ?case by (simp add: wl_ok_def wl_clear_def)
qed (simp_all add: wl_push_queue wl_extend_queue)

lemma wl_from_iter_queue: "wl_ok (wl_from_iter xs)" "wl_queue (wl_from_iter xs) = foldl enqueue [] xs"
  using wl_extend_queue [of wl_new xs] by (simp_all add: wl_from_iter_def) (simp add: wl_new_def)

lemma foldl_enqueue: "foldl enqueue [] xs = rev (remdups (rev xs))"
  by (induction xs rule: rev_induct) (simp_all add: enqueue_def)

text \<open>
  The worklist is a first-in first-out queue in which no node occurs twice. Any sequence of
  \<open>push\<close>, \<open>extend\<close>, \<open>pop\<close> and \<open>clear\<close> from the empty list keeps the hash set equal to the nodes of
  the queue and the queue free of duplicates; \<open>push\<close> says whether the node was new and puts a new
  node last, \<open>pop\<close> takes the first node, which can then be queued again, \<open>contains\<close> and \<open>len\<close> read
  that queue, and \<open>from_iter\<close> keeps the first occurrence of every node.
\<close>

theorem worklist_queue:
  assumes "wl_built w"
  shows "wl_ok w \<and> fst (wl_push x w) = (\<not> wl_contains w x) \<and>
    wl_queue (snd (wl_push x w)) = (if wl_contains w x then wl_queue w else wl_queue w @ [x]) \<and>
    (wl_pop w = (None, w) \<and> wl_is_empty w \<or>
      (\<exists>w'. wl_pop w = (Some (hd (wl_queue w)), w') \<and> wl_queue w' = tl (wl_queue w) \<and>
            \<not> wl_is_empty w \<and> \<not> wl_contains w' (hd (wl_queue w)))) \<and>
    wl_len w = card {y. wl_contains w y} \<and>
    wl_queue (wl_from_iter xs) = rev (remdups (rev xs))"
proof (intro conjI)
  show ok: "wl_ok w" using assms by (rule wl_built_ok)
  show "fst (wl_push x w) = (\<not> wl_contains w x)"
    and "wl_queue (snd (wl_push x w)) = (if wl_contains w x then wl_queue w else wl_queue w @ [x])"
    using wl_push_queue [OF ok, of x] ok by (auto simp: wl_contains_def wl_ok_def enqueue_def)
  show "wl_pop w = (None, w) \<and> wl_is_empty w \<or>
      (\<exists>w'. wl_pop w = (Some (hd (wl_queue w)), w') \<and> wl_queue w' = tl (wl_queue w) \<and>
            \<not> wl_is_empty w \<and> \<not> wl_contains w' (hd (wl_queue w)))"
    by (cases "wl_queue w") (auto simp: wl_pop_def wl_is_empty_def wl_contains_def)
  show "wl_len w = card {y. wl_contains w y}"
    using ok by (simp add: wl_len_def wl_contains_def wl_ok_def distinct_card)
  show "wl_queue (wl_from_iter xs) = rev (remdups (rev xs))"
    by (simp add: wl_from_iter_queue foldl_enqueue)
qed

theorem worklist_queue_witness:
  "wl_queue (wl_from_iter [3, 1, 3, 2, 1 :: nat]) = [3, 1, 2] \<and>
   fst (wl_pop (snd (wl_push 3 (wl_from_iter [3, 1 :: nat])))) = Some 3 \<and>
   wl_len (wl_from_iter [3, 1 :: nat]) = card {y. wl_contains (wl_from_iter [3, 1 :: nat]) y}"
proof (intro conjI)
  have b: "wl_built (wl_from_iter xs)" for xs :: "nat list"
    unfolding wl_from_iter_def by (intro wl_built.intros)
  show "wl_queue (wl_from_iter [3, 1, 3, 2, 1 :: nat]) = [3, 1, 2]" by code_simp
  show "fst (wl_pop (snd (wl_push 3 (wl_from_iter [3, 1 :: nat])))) = Some 3" by code_simp
  show "wl_len (wl_from_iter [3, 1 :: nat]) = card {y. wl_contains (wl_from_iter [3, 1 :: nat]) y}"
    using worklist_queue [OF b] by blast
qed

section \<open>The plain solver\<close>

text \<open>\<open>k\<close> steps that all report a change.\<close>

inductive changes :: "('s \<Rightarrow> 'e + bool \<times> 's) \<Rightarrow> nat \<Rightarrow> 's \<Rightarrow> 's \<Rightarrow> bool" for step where
  changes_0: "changes step 0 s s"
| changes_Suc: "step s = Inr (True, s') \<Longrightarrow> changes step k s' t \<Longrightarrow> changes step (Suc k) s t"

definition solve_spec :: "nat \<Rightarrow> ('s \<Rightarrow> 'e + bool \<times> 's) \<Rightarrow> 's \<Rightarrow> fixpoint_stats \<Rightarrow> 'e + 's fixpoint_result \<Rightarrow> bool" where
  "solve_spec limit step s stats r \<longleftrightarrow>
     (\<exists>k t. changes step k s t \<and>
        (fs_iterations stats + k < limit \<and> (\<exists>e. step t = Inl e \<and> r = Inl e) \<or>
         fs_iterations stats + k < limit \<and> (\<exists>u. step t = Inr (False, u) \<and>
           r = Inr \<lparr>fr_value = u, fr_status = Converged,
                    fr_stats = \<lparr>fs_iterations = fs_iterations stats + k + 1, fs_changes = fs_changes stats + k\<rparr>\<rparr>) \<or>
         fs_iterations stats + k = limit \<and>
           r = Inr \<lparr>fr_value = t, fr_status = IterationLimitReached,
                    fr_stats = \<lparr>fs_iterations = limit, fs_changes = fs_changes stats + k\<rparr>\<rparr>))"

lemma solve_loop_spec:
  "fs_iterations stats \<le> limit \<Longrightarrow> solve_spec limit step s stats (solve_loop limit step s stats)"
proof (induction "limit - fs_iterations stats" arbitrary: s stats)
  case 0
  then show ?case
    by (subst solve_loop.simps) (auto simp: solve_spec_def intro!: exI [of _ 0] exI [of _ s] changes_0)
next
  case (Suc m)
  then have less: "fs_iterations stats < limit" by simp
  consider e where "step s = Inl e" | u where "step s = Inr (False, u)" | u where "step s = Inr (True, u)"
    by (metis (full_types) sum.exhaust surj_pair)
  then show ?case
  proof cases
    case 1
    then show ?thesis using less
      by (subst solve_loop.simps) (auto simp: solve_spec_def intro!: exI [of _ 0] exI [of _ s] changes_0)
  next
    case 2
    then show ?thesis using less
      by (subst solve_loop.simps) (auto simp: solve_spec_def intro!: exI [of _ 0] exI [of _ s] changes_0)
  next
    case (3 u)
    let ?stats = "stats\<lparr>fs_iterations := fs_iterations stats + 1, fs_changes := fs_changes stats + 1\<rparr>"
    have "solve_spec limit step u ?stats (solve_loop limit step u ?stats)"
      by (rule Suc.hyps(1)) (use Suc.hyps(2) less in auto)
    then obtain k t where *: "changes step k u t"
      "fs_iterations ?stats + k < limit \<and> (\<exists>e. step t = Inl e \<and> solve_loop limit step u ?stats = Inl e) \<or>
         fs_iterations ?stats + k < limit \<and> (\<exists>u'. step t = Inr (False, u') \<and>
           solve_loop limit step u ?stats = Inr \<lparr>fr_value = u', fr_status = Converged,
                    fr_stats = \<lparr>fs_iterations = fs_iterations ?stats + k + 1, fs_changes = fs_changes ?stats + k\<rparr>\<rparr>) \<or>
         fs_iterations ?stats + k = limit \<and>
           solve_loop limit step u ?stats = Inr \<lparr>fr_value = t, fr_status = IterationLimitReached,
                    fr_stats = \<lparr>fs_iterations = limit, fs_changes = fs_changes ?stats + k\<rparr>\<rparr>"
      unfolding solve_spec_def by blast
    have "solve_loop limit step s stats = solve_loop limit step u ?stats"
      using less 3 by (subst solve_loop.simps) simp
    with * 3 show ?thesis unfolding solve_spec_def
      by (intro exI [of _ "Suc k"] exI [of _ t]) (auto intro: changes_Suc)
  qed
qed

lemma try_solve_spec:
  "solve_spec (max_iterations (engine_limit engine)) step s stats_default (try_solve engine s step)"
  unfolding try_solve_def by (rule solve_loop_spec) (simp add: stats_default_def)

lemma solve_cases:
  obtains (converged) k t u where "changes (\<lambda>s. Inr (step s) :: unit + bool \<times> 's) k s t" "step t = (False, u)"
      "k < max_iterations (engine_limit engine)"
      "solve engine s step = Some \<lparr>fr_value = u, fr_status = Converged,
         fr_stats = \<lparr>fs_iterations = k + 1, fs_changes = k\<rparr>\<rparr>"
  | (limit) t where "changes (\<lambda>s. Inr (step s) :: unit + bool \<times> 's) (max_iterations (engine_limit engine)) s t"
      "solve engine s step = Some \<lparr>fr_value = t, fr_status = IterationLimitReached,
         fr_stats = \<lparr>fs_iterations = max_iterations (engine_limit engine),
                     fs_changes = max_iterations (engine_limit engine)\<rparr>\<rparr>"
  using try_solve_spec [of engine "\<lambda>s. Inr (step s) :: unit + bool \<times> 's" s]
  unfolding solve_spec_def by (auto simp: stats_default_def solve_def unwrap_infallible_def)

text \<open>
  what \<open>try_solve\<close> computes, for every step and every limit. It performs \<open>k\<close> steps that report a
  change, and then either the next step fails and its error is the result; or the next step
  reports no change and the result is its state, converged after \<open>k + 1\<close> iterations and \<open>k\<close>
  changes; or \<open>k\<close> is the limit, no further step is made and the state reached so far is returned
  with \<open>IterationLimitReached\<close>. It always returns, and never makes more steps than the limit.
\<close>

lemma try_solve_outcome:
  "\<exists>k t. changes step k s t \<and> k \<le> max_iterations (engine_limit engine) \<and>
     (if k = max_iterations (engine_limit engine)
      then try_solve engine s step =
        Inr \<lparr>fr_value = t, fr_status = IterationLimitReached, fr_stats = \<lparr>fs_iterations = k, fs_changes = k\<rparr>\<rparr>
      else (case step t of
              Inl e \<Rightarrow> try_solve engine s step = Inl e
            | Inr (c, u) \<Rightarrow> \<not> c \<and> try_solve engine s step =
                Inr \<lparr>fr_value = u, fr_status = Converged,
                     fr_stats = \<lparr>fs_iterations = k + 1, fs_changes = k\<rparr>\<rparr>))"
proof -
  let ?l = "max_iterations (engine_limit engine)"
  from try_solve_spec [of engine step s]
  obtain k t where "changes step k s t" and
    "k < ?l \<and> (\<exists>e. step t = Inl e \<and> try_solve engine s step = Inl e) \<or>
     k < ?l \<and> (\<exists>u. step t = Inr (False, u) \<and> try_solve engine s step =
       Inr \<lparr>fr_value = u, fr_status = Converged, fr_stats = \<lparr>fs_iterations = k + 1, fs_changes = k\<rparr>\<rparr>) \<or>
     k = ?l \<and> try_solve engine s step =
       Inr \<lparr>fr_value = t, fr_status = IterationLimitReached, fr_stats = \<lparr>fs_iterations = k, fs_changes = k\<rparr>\<rparr>"
    unfolding solve_spec_def by (auto simp: stats_default_def)
  then show ?thesis by (intro exI [of _ k] exI [of _ t]) auto
qed

section \<open>Transfer functions\<close>

text \<open>
  What a client promises of one transfer: it reports a change exactly when it changes the state,
  keeps the states \<open>ok\<close>, and every change raises the rank.
\<close>

definition good_transfer :: "('s \<Rightarrow> bool) \<Rightarrow> ('s \<Rightarrow> nat) \<Rightarrow> ('s \<Rightarrow> bool \<times> 's) \<Rightarrow> bool" where
  "good_transfer ok rank t \<longleftrightarrow>
     (\<forall>s. ok s \<longrightarrow> (fst (t s) \<longleftrightarrow> snd (t s) \<noteq> s) \<and> ok (snd (t s)) \<and> (fst (t s) \<longrightarrow> rank s < rank (snd (t s))))"

lemma good_transferD:
  assumes "good_transfer ok rank t" "ok s"
  shows "t s = (False, s) \<or> (\<exists>s'. t s = (True, s') \<and> s' \<noteq> s \<and> ok s' \<and> rank s < rank s')"
  using assms unfolding good_transfer_def by (cases "t s") (metis fst_conv snd_conv)

lemma transfer_round_good:
  assumes "\<forall>t\<in>set ts. good_transfer ok rank t" "ok s" "transfer_round ts c s = (c', s')"
  shows "ok s' \<and> rank s \<le> rank s' \<and> (c \<longrightarrow> c') \<and>
    (if c' \<and> \<not> c then rank s < rank s' else c' \<or> s' = s \<and> (\<forall>t\<in>set ts. t s = (False, s)))"
  using assms
proof (induction ts arbitrary: c s)
  case (Cons t ts)
  from Cons.prems have good: "good_transfer ok rank t" by simp
  from good_transferD [OF this Cons.prems(2)]
  show ?case
  proof (elim disjE exE conjE)
    assume t: "t s = (False, s)"
    with Cons.prems have "transfer_round ts c s = (c', s')" by simp
    with Cons.IH [of s c] Cons.prems t show ?thesis by (auto split: if_splits)
  next
    fix u assume t: "t s = (True, u)" "ok u" "rank s < rank u"
    with Cons.prems have "transfer_round ts True u = (c', s')" by simp
    with Cons.IH [of u True] Cons.prems t show ?thesis by (auto split: if_splits)
  qed
qed simp

lemma transfer_round_le:
  assumes "\<forall>t\<in>set ts. \<forall>x y. le x y \<longrightarrow> le (snd (t x)) (snd (t y))" "\<forall>t\<in>set ts. snd (t y) = y" "le s y"
  shows "le (snd (transfer_round ts c s)) y"
  using assms
proof (induction ts arbitrary: c s)
  case (Cons t ts)
  have "le (snd (t s)) (snd (t y))" using Cons.prems(1,3) by simp
  moreover have "snd (t y) = y" using Cons.prems(2) by simp
  ultimately have "le (snd (t s)) y" by simp
  with Cons show ?case by (simp add: case_prod_beta)
qed simp

lemma changes_rank:
  assumes "changes (\<lambda>s. Inr (step s)) k s t" "ok s"
    and "\<And>s s'. ok s \<Longrightarrow> step s = (True, s') \<Longrightarrow> ok s' \<and> rank s < (rank s' :: nat)"
  shows "ok t \<and> rank s + k \<le> rank t"
  using assms(1,2)
proof (induction rule: changes.induct)
  case (changes_Suc s s' k t)
  with assms(3) [of s s'] show ?case by simp
qed simp

lemma changes_le:
  assumes "changes (\<lambda>s. Inr (step s)) k s t" "le s y" and "\<And>s. le s y \<Longrightarrow> le (snd (step s)) y"
  shows "le t y"
  using assms(1,2)
proof (induction rule: changes.induct)
  case (changes_Suc s s' k t)
  with assms(3) [of s] show ?case by simp
qed simp

text \<open>
  C29: \<open>apply_transfers\<close> computes the least fixpoint. If every transfer reports changes honestly and
  each change raises a rank bounded by \<open>h\<close>, then a limit above \<open>h\<close> is enough: the result is
  \<open>Converged\<close>, after at most \<open>h - rank s + 1\<close> rounds, its value is a state that no transfer
  changes, and when the transfers are monotone it lies below every common fixpoint above the
  initial state.
\<close>

theorem apply_transfers_least_fixpoint:
  assumes good: "\<forall>t\<in>set ts. good_transfer ok rank t" and ok: "ok s"
    and bounded: "\<forall>s. ok s \<longrightarrow> rank s \<le> h" and limit: "h < max_iterations (engine_limit engine)"
    and mono: "\<forall>t\<in>set ts. \<forall>x y. le x y \<longrightarrow> le (snd (t x)) (snd (t y))"
  shows "\<exists>r. apply_transfers engine s ts = Some r \<and> converged r \<and>
    (\<forall>t\<in>set ts. t (fr_value r) = (False, fr_value r)) \<and>
    fs_iterations (fr_stats r) \<le> h - rank s + 1 \<and>
    (\<forall>y. le s y \<and> (\<forall>t\<in>set ts. snd (t y) = y) \<longrightarrow> le (fr_value r) y)"
proof -
  let ?round = "transfer_round ts False"
  have up: "ok t \<and> rank s + k \<le> rank t" if "changes (\<lambda>s. Inr (?round s) :: unit + _) k s t" for k t
    using that ok
  proof (rule changes_rank [where step = ?round])
    show "?round s = (True, s') \<Longrightarrow> ok s' \<and> rank s < rank s'" if "ok s" for s s'
      using transfer_round_good [OF good that, of False True s'] by simp
  qed
  have le: "le t y" if "changes (\<lambda>s. Inr (?round s) :: unit + _) k s t" "le s y" "\<forall>t\<in>set ts. snd (t y) = y" for k t y
    using that(1,2) by (rule changes_le) (rule transfer_round_le [OF mono that(3)])
  show ?thesis
  proof (cases rule: solve_cases [of ?round s engine])
    case (converged k t u)
    with up have t: "ok t" "rank s + k \<le> rank t" by auto
    with transfer_round_good [OF good, of t False False u] converged(2)
    have u: "u = t" "\<forall>f\<in>set ts. f t = (False, t)" by auto
    from t bounded have "rank s + k \<le> h" using le_trans by blast
    then have "k + 1 \<le> h - rank s + 1" by simp
    with converged(4) u le [OF converged(1)] show ?thesis
      by (simp add: apply_transfers_def Fixpoint.converged_def)
  next
    case (limit t)
    with up have "ok t" "rank s + max_iterations (engine_limit engine) \<le> rank t" by auto
    with bounded \<open>h < _\<close> show ?thesis by fastforce
  qed
qed

text \<open>A conditional rule: join one element into a set once \<open>P\<close> holds of the set.\<close>

definition add_when :: "('a fset \<Rightarrow> bool) \<Rightarrow> 'a \<Rightarrow> 'a fset \<Rightarrow> bool \<times> 'a fset" where
  "add_when P x s = (if P s then set_join_assign s {|x|} else (False, s))"

lemma add_when_good:
  assumes "x |\<in>| u" shows "good_transfer (\<lambda>s. s |\<subseteq>| u) fcard (add_when P x)"
proof -
  have "fcard (s |\<union>| {|x|}) \<noteq> fcard s \<Longrightarrow> fcard s < fcard (s |\<union>| {|x|})" for s
    using fcard_mono [OF sup_ge1, of s "{|x|}"] by linarith
  with assms set_join_unchanged [of _ "{|x|}"] show ?thesis
    by (simp add: good_transfer_def add_when_def set_join_assign_def Let_def)
qed

lemma add_when_mono:
  "mono P \<Longrightarrow> set_less_equal a b \<Longrightarrow> set_less_equal (snd (add_when P x a)) (snd (add_when P x b))"
  using monoD [of P a b] by (auto simp: set_less_equal_def add_when_def set_join_assign_def Let_def)

lemma fcard_pair: "s |\<subseteq>| {|a, b|} \<Longrightarrow> fcard s \<le> 2"
  by (drule fcard_mono) (simp add: fcard_finsert_if fcard_fempty split: if_splits)

theorem apply_transfers_least_fixpoint_witness:
  "apply_transfers (FixpointEngine (IterationLimit 3)) {||} [add_when (\<lambda>s. 1 |\<in>| s) 2, add_when (\<lambda>s. True) 1] =
     Some \<lparr>fr_value = {|1, 2 :: nat|}, fr_status = Converged,
           fr_stats = \<lparr>fs_iterations = 3, fs_changes = 2\<rparr>\<rparr> \<and>
   (\<exists>r. apply_transfers (FixpointEngine (IterationLimit 3)) {||}
          [add_when (\<lambda>s. 1 |\<in>| s) 2, add_when (\<lambda>s. True) (1 :: nat)] = Some r \<and> converged r)"
proof
  let ?ts = "[add_when (\<lambda>s. 1 |\<in>| s) 2, add_when (\<lambda>s. True) (1 :: nat)]"
  have "\<forall>t\<in>set ?ts. good_transfer (\<lambda>s. s |\<subseteq>| {|1, 2|}) fcard t" by (simp add: add_when_good)
  moreover have "\<forall>t\<in>set ?ts. \<forall>x y. set_less_equal x y \<longrightarrow> set_less_equal (snd (t x)) (snd (t y))"
    by (auto intro!: add_when_mono monoI)
  moreover have "\<forall>s. s |\<subseteq>| {|1, 2 :: nat|} \<longrightarrow> fcard s \<le> 2" by (simp add: fcard_pair)
  ultimately show "\<exists>r. apply_transfers (FixpointEngine (IterationLimit 3)) {||} ?ts = Some r \<and> converged r"
    using apply_transfers_least_fixpoint [of ?ts "\<lambda>s. s |\<subseteq>| {|1, 2|}" fcard "{||}" 2
      "FixpointEngine (IterationLimit 3)" set_less_equal] by fastforce
qed (simp add: apply_transfers_def solve_def try_solve_def solve_loop.simps stats_default_def unwrap_infallible_def
      add_when_def set_join_assign_def Let_def fcard_finsert_disjoint fcard_fempty finsert_commute)

section \<open>The worklist solver\<close>

text \<open>
  \<open>i\<close> iterations, \<open>j\<close> of them changes, from one state, schedule memory and queue to another. The
  queue is a plain list: what is scheduled goes to its end unless it is already queued.
\<close>

inductive wl_run :: "('n \<Rightarrow> 's \<Rightarrow> 'e + bool \<times> 's) \<Rightarrow> ('n \<Rightarrow> 's \<Rightarrow> 'c \<Rightarrow> 'n list \<times> 'c) \<Rightarrow> nat \<Rightarrow> nat \<Rightarrow>
    's \<times> 'c \<times> 'n list \<Rightarrow> 's \<times> 'c \<times> 'n list \<Rightarrow> bool" for step schedule where
  run_refl: "wl_run step schedule 0 0 x x"
| run_change: "step n s = Inr (True, s') \<Longrightarrow> schedule n s' c = (ns, c') \<Longrightarrow>
    wl_run step schedule i j (s', c', foldl enqueue q ns) z \<Longrightarrow> wl_run step schedule (Suc i) (Suc j) (s, c, n # q) z"
| run_same: "step n s = Inr (False, s') \<Longrightarrow> wl_run step schedule i j (s', c, q) z \<Longrightarrow>
    wl_run step schedule (Suc i) j (s, c, n # q) z"

text \<open>How a run ends: with an empty queue, at the limit, or with the error of the next step.\<close>

definition wl_outcome :: "nat \<Rightarrow> ('n \<Rightarrow> 's \<Rightarrow> 'e + bool \<times> 's) \<Rightarrow> nat \<Rightarrow> nat \<Rightarrow> 's \<Rightarrow> 'n list \<Rightarrow>
    'e + 's fixpoint_result \<Rightarrow> bool" where
  "wl_outcome limit step i j t q r \<longleftrightarrow> i \<le> limit \<and>
     (case q of
        [] \<Rightarrow> r = Inr \<lparr>fr_value = t, fr_status = Converged, fr_stats = \<lparr>fs_iterations = i, fs_changes = j\<rparr>\<rparr>
      | n # _ \<Rightarrow>
          if i = limit
          then r = Inr \<lparr>fr_value = t, fr_status = IterationLimitReached,
                        fr_stats = \<lparr>fs_iterations = i, fs_changes = j\<rparr>\<rparr>
          else \<exists>e. step n t = Inl e \<and> r = Inl e)"

definition worklist_spec :: "nat \<Rightarrow> ('n \<Rightarrow> 's \<Rightarrow> 'e + bool \<times> 's) \<Rightarrow> ('n \<Rightarrow> 's \<Rightarrow> 'c \<Rightarrow> 'n list \<times> 'c) \<Rightarrow>
    's \<Rightarrow> 'c \<Rightarrow> 'n list \<Rightarrow> fixpoint_stats \<Rightarrow> 'e + 's fixpoint_result \<Rightarrow> bool" where
  "worklist_spec limit step schedule s c q stats r \<longleftrightarrow>
     (\<exists>i j t c' q'. wl_run step schedule i j (s, c, q) (t, c', q') \<and>
        wl_outcome limit step (fs_iterations stats + i) (fs_changes stats + j) t q' r)"

lemma worklist_spec_stop:
  assumes "wl_outcome limit step (fs_iterations stats) (fs_changes stats) s q r"
  shows "worklist_spec limit step schedule s c q stats r"
  unfolding worklist_spec_def using assms
  by (intro exI [of _ 0] exI [of _ s] exI [of _ c] exI [of _ q] conjI run_refl) simp

lemma worklist_spec_change:
  assumes "step n s = Inr (True, s')" "schedule n s' c = (ns, c')"
    and "worklist_spec limit step schedule s' c' (foldl enqueue q ns)
           (stats\<lparr>fs_iterations := fs_iterations stats + 1, fs_changes := fs_changes stats + 1\<rparr>) r"
  shows "worklist_spec limit step schedule s c (n # q) stats r"
proof -
  from assms(3) obtain i j t d q' where run: "wl_run step schedule i j (s', c', foldl enqueue q ns) (t, d, q')"
    and "wl_outcome limit step (fs_iterations stats + Suc i) (fs_changes stats + Suc j) t q' r"
    unfolding worklist_spec_def by auto
  with run_change [of step, OF assms(1,2) run] show ?thesis unfolding worklist_spec_def by blast
qed

lemma worklist_spec_same:
  assumes "step n s = Inr (False, s')"
    and "worklist_spec limit step schedule s' c q (stats\<lparr>fs_iterations := fs_iterations stats + 1\<rparr>) r"
  shows "worklist_spec limit step schedule s c (n # q) stats r"
proof -
  from assms(2) obtain i j t d q' where run: "wl_run step schedule i j (s', c, q) (t, d, q')"
    and "wl_outcome limit step (fs_iterations stats + Suc i) (fs_changes stats + j) t q' r"
    unfolding worklist_spec_def by auto
  with run_same [of step, OF assms(1) run] show ?thesis unfolding worklist_spec_def by blast
qed

lemma worklist_loop_spec:
  assumes "fs_iterations stats \<le> limit" "wl_ok w"
  shows "worklist_spec limit step schedule s c (wl_queue w) stats (worklist_loop limit step schedule s c w stats)"
  using assms
proof (induction "limit - fs_iterations stats" arbitrary: s c w stats rule: less_induct)
  case less
  show ?case
  proof (cases "wl_queue w")
    case Nil
    with wl_pop_queue [OF less.prems(2)] less.prems(1) show ?thesis
      by (subst worklist_loop.simps) (auto intro!: worklist_spec_stop simp: wl_outcome_def)
  next
    case (Cons n q)
    with wl_pop_queue [OF less.prems(2)] obtain w' where pop: "wl_pop w = (Some n, w')" "wl_ok w'" "wl_queue w' = q"
      by auto
    show ?thesis
    proof (cases "fs_iterations stats < limit")
      case False
      with pop Cons less.prems(1) show ?thesis
        by (subst worklist_loop.simps) (auto intro!: worklist_spec_stop simp: wl_outcome_def)
    next
      case True
      consider e where "step n s = Inl e" | u where "step n s = Inr (True, u)" | u where "step n s = Inr (False, u)"
        by (metis (full_types) sum.exhaust surj_pair)
      then show ?thesis
      proof cases
        case 1
        with True pop Cons less.prems(1) show ?thesis
          by (subst worklist_loop.simps) (auto intro!: worklist_spec_stop simp: wl_outcome_def)
      next
        case (2 u)
        obtain ns c' where sched: "schedule n u c = (ns, c')" by fastforce
        let ?stats = "stats\<lparr>fs_iterations := fs_iterations stats + 1, fs_changes := fs_changes stats + 1\<rparr>"
        have "worklist_loop limit step schedule s c w stats = worklist_loop limit step schedule u c' (wl_extend ns w') ?stats"
          using True pop 2 sched by (subst worklist_loop.simps) simp
        moreover have "worklist_spec limit step schedule u c' (foldl enqueue q ns) ?stats
            (worklist_loop limit step schedule u c' (wl_extend ns w') ?stats)"
          using less.hyps [of ?stats "wl_extend ns w'" u c'] wl_extend_queue [OF pop(2), of ns] pop(3) True by simp
        ultimately show ?thesis unfolding Cons using worklist_spec_change [of step n s u schedule, OF 2 sched] by simp
      next
        case (3 u)
        let ?stats = "stats\<lparr>fs_iterations := fs_iterations stats + 1\<rparr>"
        have "worklist_loop limit step schedule s c w stats = worklist_loop limit step schedule u c w' ?stats"
          using True pop 3 by (subst worklist_loop.simps) simp
        moreover have "worklist_spec limit step schedule u c q ?stats (worklist_loop limit step schedule u c w' ?stats)"
          using less.hyps [of ?stats w' u c] pop True by simp
        ultimately show ?thesis unfolding Cons using worklist_spec_same [of step n s u, OF 3] by simp
      qed
    qed
  qed
qed

lemma try_solve_worklist_spec:
  "worklist_spec (max_iterations (engine_limit engine)) step schedule s c (foldl enqueue [] initial) stats_default
     (try_solve_worklist engine s initial step schedule c)"
  using worklist_loop_spec [OF _ wl_from_iter_queue(1), of stats_default "max_iterations (engine_limit engine)"
      step schedule s c initial]
  by (simp add: try_solve_worklist_def wl_from_iter_queue(2) stats_default_def)

text \<open>
  C30: what \<open>try_solve_worklist\<close> computes, for every step, schedule and limit. It is a run over a
  first-in first-out queue that starts with the initial nodes without repetitions, takes the
  first node at every iteration and appends what the schedule returns after a change. It ends
  \<open>Converged\<close> exactly when the queue is empty, with \<open>IterationLimitReached\<close> when a node is left
  after as many iterations as the limit allows, and otherwise with the error of the next step. The
  statistics count the iterations and the changes of that run.
\<close>

theorem try_solve_worklist_outcome:
  "\<exists>i j t c' q. wl_run step schedule i j (s, c, rev (remdups (rev initial))) (t, c', q) \<and>
     wl_outcome (max_iterations (engine_limit engine)) step i j t q
       (try_solve_worklist engine s initial step schedule c)"
  using try_solve_worklist_spec [of engine step schedule s c initial]
  unfolding worklist_spec_def foldl_enqueue by (simp add: stats_default_def)

lemma wl_run_le:
  assumes "wl_run (\<lambda>n s. Inr (step n s)) schedule i j x z" "le (fst x) y"
    and "\<And>n s. le s y \<Longrightarrow> le (snd (step n s)) y"
  shows "le (fst z) y"
  using assms(1,2)
proof (induction rule: wl_run.induct)
  case (run_change n s s' c ns c' i j q z)
  with assms(3) [of s n] show ?case by simp
next
  case (run_same n s s' i j c q z)
  with assms(3) [of s n] show ?case by simp
qed simp

text \<open>Every node whose step would change the state is queued, and the work left is paid for by the rank.\<close>

lemma wl_run_invariant:
  assumes "wl_run (\<lambda>n s. Inr (step n s)) schedule i j (s, c, q) (t, c', q')"
    and good: "\<And>n. good_transfer ok rank (step n)"
    and few: "\<And>n s c. length (fst (schedule n s c)) \<le> d"
    and covers: "\<And>n s s' m c. ok s \<Longrightarrow> step n s = (True, s') \<Longrightarrow> fst (step m s') \<Longrightarrow> m = n \<or> \<not> fst (step m s) \<Longrightarrow>
      m \<in> set (fst (schedule n s' c))"
    and "ok s" "\<forall>m. fst (step m s) \<longrightarrow> m \<in> set q"
  shows "ok t \<and> rank s + j \<le> rank t \<and> i + length q' \<le> length q + d * j \<and> (\<forall>m. fst (step m t) \<longrightarrow> m \<in> set q')"
  using assms(1,5,6)
proof (induction i j "(s, c, q)" "(t, c', q')" arbitrary: s c q rule: wl_run.induct)
  case (run_change n s s' c ns c'' i j q)
  then have s': "step n s = (True, s')" by simp
  with good_transferD [OF good, of s n] run_change.prems(1) have "ok s'" "rank s < rank s'" by auto
  moreover have "\<forall>m. fst (step m s') \<longrightarrow> m \<in> set (foldl enqueue q ns)"
    using covers [OF run_change.prems(1) s', of _ c] run_change.prems(2) run_change.hyps(2)
    by (auto simp: set_enqueue)
  moreover have "length (foldl enqueue q ns) \<le> length q + d"
    using length_enqueue [of q ns] few [of n s' c] run_change.hyps(2) by simp
  ultimately show ?case using run_change.hyps(4) by simp
next
  case (run_same n s s' i j c q)
  then have s': "step n s = (False, s')" by simp
  with good_transferD [OF good, of s n] run_same.prems(1) have "s' = s" by auto
  moreover have "\<forall>m. fst (step m s) \<longrightarrow> m \<in> set q" using run_same.prems(2) s' by auto
  ultimately show ?case using run_same.hyps(3) run_same.prems(1) by simp
qed simp

text \<open>
  C12: \<open>solve_worklist\<close> computes the least common fixpoint of the node functions. The client
  promises that steps report changes honestly and raise a rank bounded by \<open>h\<close>, that every node not
  stable at the start is in \<open>initial\<close>, and that after a change at \<open>n\<close> the schedule names every node
  that is not stable and was stable before, and \<open>n\<close> itself if it is not stable. Then a limit of
  \<open>length initial + d * (h - rank s)\<close>, \<open>d\<close> bounding the length of a schedule, is enough: the
  result is \<open>Converged\<close> within it, no node's step changes the value, and for monotone steps
  the value lies below every common fixpoint above the initial state.
\<close>

theorem solve_worklist_least_fixpoint:
  assumes good: "\<forall>n. good_transfer ok rank (step n)" and ok: "ok s"
    and bounded: "\<forall>s. ok s \<longrightarrow> rank s \<le> h"
    and few: "\<forall>n s c. length (fst (schedule n s c)) \<le> d"
    and covers: "\<forall>n s s' m c. ok s \<and> step n s = (True, s') \<and> fst (step m s') \<and> (m = n \<or> \<not> fst (step m s)) \<longrightarrow>
      m \<in> set (fst (schedule n s' c))"
    and initial: "\<forall>m. fst (step m s) \<longrightarrow> m \<in> set initial"
    and limit: "length initial + d * (h - rank s) \<le> max_iterations (engine_limit engine)"
    and mono: "\<forall>n x y. le x y \<longrightarrow> le (snd (step n x)) (snd (step n y))"
  shows "\<exists>r. solve_worklist engine s initial step schedule c = Some r \<and> converged r \<and>
    (\<forall>n. step n (fr_value r) = (False, fr_value r)) \<and>
    fs_iterations (fr_stats r) \<le> length initial + d * fs_changes (fr_stats r) \<and>
    fs_changes (fr_stats r) \<le> h - rank s \<and>
    (\<forall>y. le s y \<and> (\<forall>n. snd (step n y) = y) \<longrightarrow> le (fr_value r) y)"
proof -
  let ?step = "\<lambda>n s. Inr (step n s) :: unit + _" and ?q = "foldl enqueue [] initial"
  obtain i j t c' q where run: "wl_run ?step schedule i j (s, c, ?q) (t, c', q)"
    and out: "wl_outcome (max_iterations (engine_limit engine)) ?step i j t q
      (try_solve_worklist engine s initial ?step schedule c)"
    using try_solve_worklist_spec [of engine ?step schedule s c initial]
    unfolding worklist_spec_def by (auto simp: stats_default_def)
  have "ok t \<and> rank s + j \<le> rank t \<and> i + length q \<le> length ?q + d * j \<and> (\<forall>m. fst (step m t) \<longrightarrow> m \<in> set q)"
    using run by (rule wl_run_invariant) (use good few covers ok initial in \<open>auto simp: set_enqueue\<close>)
  moreover from this bounded have j: "j \<le> h - rank s" by fastforce
  ultimately have *: "ok t" "i + length q \<le> length initial + d * j" "\<forall>m. fst (step m t) \<longrightarrow> m \<in> set q"
    using length_enqueue [of "[]" initial] by auto
  have "d * j \<le> d * (h - rank s)" using j by simp
  with *(2) limit have "i + length q \<le> max_iterations (engine_limit engine)" by linarith
  with out have q: "q = []" by (cases q) (auto simp: wl_outcome_def split: if_splits)
  have "step n t = (False, t)" for n
    using good_transferD [of ok rank "step n" t] good *(1) *(3) [rule_format, of n] q by auto
  moreover have "le t y" if "le s y" "\<forall>n. snd (step n y) = y" for y
    using wl_run_le [OF run, of le y] that mono by (metis fst_conv)
  ultimately show ?thesis using out q *(2) j
    by (simp add: wl_outcome_def solve_worklist_def unwrap_infallible_def converged_def)
qed

lemma add_when_changes: "fst (add_when P x s) \<longleftrightarrow> P s \<and> x |\<notin>| s"
  using set_join_unchanged [of s "{|x|}"] by (auto simp: add_when_def set_join_assign_def Let_def)

theorem solve_worklist_least_fixpoint_witness:
  "solve_worklist (FixpointEngine (IterationLimit 4)) {||} [True, False]
     (case_bool (add_when (\<lambda>s. 1 |\<in>| s) 2) (add_when (\<lambda>s. True) 1)) (\<lambda>_ _ c. ([True], c)) () =
     Some \<lparr>fr_value = {|1, 2 :: nat|}, fr_status = Converged,
           fr_stats = \<lparr>fs_iterations = 4, fs_changes = 2\<rparr>\<rparr> \<and>
   (\<exists>r. solve_worklist (FixpointEngine (IterationLimit 4)) {||} [True, False]
     (case_bool (add_when (\<lambda>s. 1 |\<in>| s) 2) (add_when (\<lambda>s. True) (1 :: nat))) (\<lambda>_ _ c. ([True], c)) () = Some r \<and>
     converged r)"
proof
  let ?step = "case_bool (add_when (\<lambda>s. 1 |\<in>| s) 2) (add_when (\<lambda>s. True) (1 :: nat))"
  have "\<forall>n. good_transfer (\<lambda>s. s |\<subseteq>| {|1, 2|}) fcard (?step n)" by (simp add: add_when_good split: bool.split)
  moreover have "\<forall>n x y. set_less_equal x y \<longrightarrow> set_less_equal (snd (?step n x)) (snd (?step n y))"
    by (auto intro!: add_when_mono monoI split: bool.split)
  moreover have "\<forall>s. s |\<subseteq>| {|1, 2 :: nat|} \<longrightarrow> fcard s \<le> 2" by (simp add: fcard_pair)
  moreover have "\<forall>n s s' m (c :: unit). s |\<subseteq>| {|1, 2|} \<and> ?step n s = (True, s') \<and> fst (?step m s') \<and>
      (m = n \<or> \<not> fst (?step m s)) \<longrightarrow> m \<in> set (fst ([True], c))"
    by (auto simp: add_when_changes split: bool.splits) (auto simp: add_when_def set_join_assign_def Let_def split: if_splits)
  moreover have "\<forall>m. fst (?step m {||}) \<longrightarrow> m \<in> set [True, False]" by simp
  ultimately show "\<exists>r. solve_worklist (FixpointEngine (IterationLimit 4)) {||} [True, False] ?step
      (\<lambda>_ _ c. ([True], c)) () = Some r \<and> converged r"
    using solve_worklist_least_fixpoint [of "\<lambda>s. s |\<subseteq>| {|1, 2|}" fcard ?step "{||}" 2 "\<lambda>_ _ c. ([True], c)" 1
      "[True, False]" "FixpointEngine (IterationLimit 4)" set_less_equal "()"] by fastforce
qed (simp add: solve_worklist_def try_solve_worklist_def worklist_loop.simps wl_from_iter_def wl_new_def wl_push_def
      wl_pop_def stats_default_def unwrap_infallible_def
      add_when_def set_join_assign_def Let_def fcard_finsert_disjoint fcard_fempty finsert_commute)

end
