(* ===== verification/Automaton.thy ===== *)
theory Automaton
  imports Prelude
begin

text \<open>
  \<open>etas_utils/src/automaton/{transition,trace,symbolic,monitor}.rs\<close>: automata whose transitions
  carry symbolic labels. A \<open>Matcher\<close> is the function \<open>matches label event\<close> that the client
  supplies. A \<open>BTreeSet\<close> of states is a set; where the code iterates over one, the model
  does so in ascending order.
\<close>

record ('s, 'l) transition =
  tn_from :: 's
  tn_to :: 's
  tn_label :: 'l

record ('s, 'l) trace_step =
  ts_from :: 's
  ts_to :: 's
  ts_label :: 'l

datatype no_transition_policy = Stay | Reject | Empty

record ('s, 'l) step_result =
  sr_states :: "'s set"
  sr_accepting :: "'s set"
  sr_rejecting :: "'s set"
  sr_trace :: "('s, 'l) trace_step list"

definition sr_singleton :: "'s \<Rightarrow> ('s, 'l) step_result" where
  "sr_singleton state = \<lparr>sr_states = {state}, sr_accepting = {}, sr_rejecting = {}, sr_trace = []\<rparr>"

record ('s, 'l) symbolic_automaton =
  sa_initial :: 's
  sa_accepting :: "'s set"
  sa_rejecting :: "'s set"
  sa_transitions :: "('s, 'l) transition list"
  sa_no_transition :: no_transition_policy

definition sa_new :: "'s \<Rightarrow> no_transition_policy \<Rightarrow> ('s, 'l) symbolic_automaton" where
  "sa_new initial no_transition =
     \<lparr>sa_initial = initial, sa_accepting = {}, sa_rejecting = {}, sa_transitions = [],
      sa_no_transition = no_transition\<rparr>"

definition contains_state :: "('s, 'l) symbolic_automaton \<Rightarrow> 's \<Rightarrow> bool" where
  "contains_state a state \<longleftrightarrow>
     sa_initial a = state \<or> state \<in> sa_accepting a \<or> state \<in> sa_rejecting a \<or>
     list_ex (\<lambda>t. tn_from t = state \<or> tn_to t = state) (sa_transitions a)"

definition add_transition :: "'s \<Rightarrow> 's \<Rightarrow> 'l \<Rightarrow> ('s, 'l) symbolic_automaton \<Rightarrow> ('s, 'l) symbolic_automaton" where
  "add_transition from to label a =
     a\<lparr>sa_transitions := sa_transitions a @ [\<lparr>tn_from = from, tn_to = to, tn_label = label\<rparr>]\<rparr>"

definition mark_accepting :: "'s \<Rightarrow> ('s, 'l) symbolic_automaton \<Rightarrow> ('s, 'l) symbolic_automaton" where
  "mark_accepting state a = a\<lparr>sa_accepting := insert state (sa_accepting a)\<rparr>"

definition mark_rejecting :: "'s \<Rightarrow> ('s, 'l) symbolic_automaton \<Rightarrow> ('s, 'l) symbolic_automaton" where
  "mark_rejecting state a = a\<lparr>sa_rejecting := insert state (sa_rejecting a)\<rparr>"

text \<open>The three phases of \<open>step\<close>: the transitions, the policy, and the classification.\<close>

fun step_transitions :: "('l \<Rightarrow> 'ev \<Rightarrow> bool) \<Rightarrow> 's \<Rightarrow> 'ev \<Rightarrow> ('s, 'l) transition list \<Rightarrow>
    ('s, 'l) step_result \<Rightarrow> ('s, 'l) step_result" where
  "step_transitions matches state event [] result = result"
| "step_transitions matches state event (t # ts) result =
     (if tn_from t \<noteq> state \<or> \<not> matches (tn_label t) event
      then step_transitions matches state event ts result
      else step_transitions matches state event ts
             (result\<lparr>sr_states := insert (tn_to t) (sr_states result),
                     sr_trace := sr_trace result @
                       [\<lparr>ts_from = tn_from t, ts_to = tn_to t, ts_label = tn_label t\<rparr>]\<rparr>))"

definition step_policy :: "no_transition_policy \<Rightarrow> 's \<Rightarrow> ('s, 'l) step_result \<Rightarrow> ('s, 'l) step_result" where
  "step_policy policy state result =
     (if sr_states result = {}
      then (case policy of
              Stay \<Rightarrow> result\<lparr>sr_states := insert state (sr_states result)\<rparr>
            | Reject \<Rightarrow> result\<lparr>sr_states := insert state (sr_states result),
                              sr_rejecting := insert state (sr_rejecting result)\<rparr>
            | Empty \<Rightarrow> result)
      else result)"

fun step_classify :: "('s, 'l) symbolic_automaton \<Rightarrow> 's list \<Rightarrow> ('s, 'l) step_result \<Rightarrow> ('s, 'l) step_result" where
  "step_classify a [] result = result"
| "step_classify a (state # states) result =
     (let result = (if state \<in> sa_accepting a
                    then result\<lparr>sr_accepting := insert state (sr_accepting result)\<rparr> else result);
          result = (if state \<in> sa_rejecting a
                    then result\<lparr>sr_rejecting := insert state (sr_rejecting result)\<rparr> else result)
      in step_classify a states result)"

definition sa_step :: "('s :: linorder, 'l) symbolic_automaton \<Rightarrow> 's \<Rightarrow> 'ev \<Rightarrow> ('l \<Rightarrow> 'ev \<Rightarrow> bool) \<Rightarrow> ('s, 'l) step_result" where
  "sa_step a state event matches =
     (let result = \<lparr>sr_states = {}, sr_accepting = {}, sr_rejecting = {}, sr_trace = []\<rparr>;
          result = step_transitions matches state event (sa_transitions a) result;
          result = step_policy (sa_no_transition a) state result
      in step_classify a (sorted_list_of_set (sr_states result)) result)"

section \<open>The monitor\<close>

datatype ('s, 'l) automaton_monitor = AutomatonMonitor (am_automaton: "('s, 'l) symbolic_automaton")

definition with_no_transition_policy :: "'s \<Rightarrow> no_transition_policy \<Rightarrow> ('s, 'l) automaton_monitor" where
  "with_no_transition_policy initial policy = AutomatonMonitor (sa_new initial policy)"

definition am_initial :: "('s, 'l) automaton_monitor \<Rightarrow> 's" where
  "am_initial m = sa_initial (am_automaton m)"

definition am_step :: "('s :: linorder, 'l) automaton_monitor \<Rightarrow> 's \<Rightarrow> 'ev \<Rightarrow> ('l \<Rightarrow> 'ev \<Rightarrow> bool) \<Rightarrow> ('s, 'l) step_result" where
  "am_step m state event matches = sa_step (am_automaton m) state event matches"

section \<open>What a step computes\<close>

text \<open>The transitions a state can take on an event, in the order in which they were added.\<close>

definition enabled :: "('s, 'l) symbolic_automaton \<Rightarrow> 's \<Rightarrow> 'ev \<Rightarrow> ('l \<Rightarrow> 'ev \<Rightarrow> bool) \<Rightarrow> ('s, 'l) transition list" where
  "enabled a s ev m = filter (\<lambda>t. tn_from t = s \<and> m (tn_label t) ev) (sa_transitions a)"

lemma step_transitions_eq:
  "step_transitions m s ev ts r =
     r\<lparr>sr_states := sr_states r \<union> tn_to ` set (filter (\<lambda>t. tn_from t = s \<and> m (tn_label t) ev) ts),
       sr_trace := sr_trace r @ map (\<lambda>t. \<lparr>ts_from = tn_from t, ts_to = tn_to t, ts_label = tn_label t\<rparr>)
         (filter (\<lambda>t. tn_from t = s \<and> m (tn_label t) ev) ts)\<rparr>"
  by (induction ts arbitrary: r) (auto simp: Un_commute)

lemma step_classify_eq:
  "step_classify a xs r =
     r\<lparr>sr_accepting := sr_accepting r \<union> (set xs \<inter> sa_accepting a),
       sr_rejecting := sr_rejecting r \<union> (set xs \<inter> sa_rejecting a)\<rparr>"
  by (induction xs arbitrary: r) (auto simp: Let_def Un_commute)

lemma sa_step_eq:
  "sa_step a s ev m =
     (let ts = enabled a s ev m;
          states = (if ts \<noteq> [] then tn_to ` set ts else if sa_no_transition a = Empty then {} else {s})
      in \<lparr>sr_states = states, sr_accepting = states \<inter> sa_accepting a,
          sr_rejecting = states \<inter> sa_rejecting a \<union> (if ts = [] \<and> sa_no_transition a = Reject then {s} else {}),
          sr_trace = map (\<lambda>t. \<lparr>ts_from = tn_from t, ts_to = tn_to t, ts_label = tn_label t\<rparr>) ts\<rparr>)"
proof -
  let ?ts = "enabled a s ev m"
  have fin: "finite (tn_to ` set ?ts)" by simp
  show ?thesis
  proof (cases "?ts = []")
    case True
    then show ?thesis
      by (cases "sa_no_transition a")
        (auto simp: sa_step_def step_transitions_eq step_classify_eq step_policy_def Let_def enabled_def [symmetric])
  next
    case False
    then show ?thesis using fin
      by (simp add: sa_step_def step_transitions_eq step_classify_eq step_policy_def Let_def enabled_def [symmetric])
  qed
qed

lemma finite_sa_step [simp]: "finite (sr_states (sa_step a s ev m))"
  by (simp add: sa_step_eq Let_def)

lemma sa_step_accepting: "sr_accepting (sa_step a s ev m) = sr_states (sa_step a s ev m) \<inter> sa_accepting a"
  by (simp add: sa_step_eq Let_def)

lemma sa_step_rejecting: "sr_states (sa_step a s ev m) \<inter> sa_rejecting a \<subseteq> sr_rejecting (sa_step a s ev m)"
  by (auto simp: sa_step_eq Let_def)

lemma sa_step_contains:
  assumes "contains_state a s" "t \<in> sr_states (sa_step a s ev m)"
  shows "contains_state a t"
  using assms by (auto simp: sa_step_eq Let_def contains_state_def list_ex_iff enabled_def split: if_splits)

section \<open>Properties\<close>

text \<open>
  C35: what one step of a symbolic automaton returns, for every automaton, state, event and matcher.
  The next states are the targets of the transitions that leave the state and match the event; if
  there is none, the policy decides: the state itself, the state itself as rejecting, or no state.
  The accepting states of the result are its states that the automaton accepts, the rejecting ones
  those it rejects together with a rejection by the policy, and the trace lists the transitions
  taken in the order they were added. A step from a state the automaton contains leads only to
  such states.
\<close>

theorem symbolic_step_correct:
  "sr_states (sa_step a s ev m) =
     (if enabled a s ev m \<noteq> [] then tn_to ` set (enabled a s ev m)
      else case sa_no_transition a of Stay \<Rightarrow> {s} | Reject \<Rightarrow> {s} | Empty \<Rightarrow> {}) \<and>
   sr_accepting (sa_step a s ev m) = sr_states (sa_step a s ev m) \<inter> sa_accepting a \<and>
   sr_rejecting (sa_step a s ev m) = sr_states (sa_step a s ev m) \<inter> sa_rejecting a \<union>
     (if enabled a s ev m = [] \<and> sa_no_transition a = Reject then {s} else {}) \<and>
   map (\<lambda>t. (ts_from t, ts_to t, ts_label t)) (sr_trace (sa_step a s ev m)) =
     map (\<lambda>t. (tn_from t, tn_to t, tn_label t)) (enabled a s ev m) \<and>
   (if contains_state a s then sr_states (sa_step a s ev m) \<subseteq> Collect (contains_state a) else True)"
proof (intro conjI)
  show "if contains_state a s then sr_states (sa_step a s ev m) \<subseteq> Collect (contains_state a) else True"
    by (auto intro: sa_step_contains)
qed (auto simp: sa_step_eq Let_def split: no_transition_policy.splits)

end
