(* ===== verification/OrdMap.thy ===== *)
theory OrdMap
  imports Prelude
begin

text \<open>
  The standard library's ordered map \<open>BTreeMap\<close>, as far as the sources use it: the list of its
  entries in ascending order of the keys, which is the order in which it is iterated. The laws
  that the clients rely on are the locale \<open>map_laws\<close>, interpreted here on that list.
\<close>

type_synonym ('k, 'v) btree_map = "('k \<times> 'v) list"

fun bt_insert :: "'k :: linorder \<Rightarrow> 'v \<Rightarrow> ('k, 'v) btree_map \<Rightarrow> ('k, 'v) btree_map" where
  "bt_insert k v [] = [(k, v)]"
| "bt_insert k v ((j, w) # m) =
     (if k < j then (k, v) # (j, w) # m else if k = j then (k, v) # m else (j, w) # bt_insert k v m)"

fun bt_get :: "('k, 'v) btree_map \<Rightarrow> 'k \<Rightarrow> 'v option" where
  "bt_get [] k = None"
| "bt_get ((j, w) # m) k = (if j = k then Some w else bt_get m k)"

definition bt_contains :: "('k, 'v) btree_map \<Rightarrow> 'k \<Rightarrow> bool" where
  "bt_contains m k \<longleftrightarrow> bt_get m k \<noteq> None"

definition bt_keys :: "('k, 'v) btree_map \<Rightarrow> 'k list" where
  "bt_keys m = map fst m"

fun bt_remove :: "'k \<Rightarrow> ('k, 'v) btree_map \<Rightarrow> ('k, 'v) btree_map" where
  "bt_remove k [] = []"
| "bt_remove k ((j, w) # m) = (if j = k then m else (j, w) # bt_remove k m)"

definition bt_ok :: "('k :: linorder, 'v) btree_map \<Rightarrow> bool" where
  "bt_ok m \<longleftrightarrow> sorted_wrt (<) (bt_keys m)"

lemma bt_get_map_of: "bt_get m = map_of m"
  by (induction m rule: list.induct) auto

lemma bt_contains_iff: "bt_contains m k \<longleftrightarrow> k \<in> set (bt_keys m)"
  by (auto simp: bt_contains_def bt_keys_def bt_get_map_of map_of_eq_None_iff)

lemma bt_ok_Nil [simp]: "bt_ok []"
  by (simp add: bt_ok_def bt_keys_def)

lemma bt_ok_Cons: "bt_ok ((k, v) # m) \<longleftrightarrow> bt_ok m \<and> (\<forall>j\<in>set (bt_keys m). k < j)"
  by (auto simp: bt_ok_def bt_keys_def)

lemma bt_ok_distinct: "bt_ok m \<Longrightarrow> distinct (bt_keys m)"
  by (simp add: bt_ok_def strict_sorted_iff)

lemma keys_bt_insert: "set (bt_keys (bt_insert k v m)) = insert k (set (bt_keys m))"
  by (induction k v m rule: bt_insert.induct) (auto simp: bt_keys_def)

lemma bt_ok_insert: "bt_ok m \<Longrightarrow> bt_ok (bt_insert k v m)"
proof (induction k v m rule: bt_insert.induct)
  case (2 k v j w m)
  then show ?case by (auto simp: bt_ok_Cons keys_bt_insert) (auto simp: bt_keys_def)
qed (simp add: bt_ok_def bt_keys_def)

lemma bt_get_insert: "bt_get (bt_insert k v m) j = (if j = k then Some v else bt_get m j)"
  by (induction k v m rule: bt_insert.induct) auto

lemma bt_insert_last: "\<forall>j\<in>set (bt_keys m). j < k \<Longrightarrow> bt_insert k v m = m @ [(k, v)]"
  by (induction k v m rule: bt_insert.induct) (auto simp: bt_keys_def)

lemma keys_bt_remove: "bt_ok m \<Longrightarrow> bt_keys (bt_remove k m) = filter (\<lambda>j. j \<noteq> k) (bt_keys m)"
proof (induction k m rule: bt_remove.induct)
  case (2 k j w m)
  have "filter (\<lambda>i. i \<noteq> j) (bt_keys m) = bt_keys m" if "bt_ok ((j, w) # m)"
    using that by (auto simp: bt_ok_Cons intro!: filter_True)
  with 2 show ?case by (auto simp: bt_ok_Cons) (auto simp: bt_keys_def)
qed (simp add: bt_keys_def)

lemma bt_ok_remove: "bt_ok m \<Longrightarrow> bt_ok (bt_remove k m)"
  using keys_bt_remove [of m k] by (simp add: bt_ok_def sorted_wrt_filter)

lemma bt_get_remove: "bt_ok m \<Longrightarrow> bt_get (bt_remove k m) j = (if j = k then None else bt_get m j)"
proof (induction k m rule: bt_remove.induct)
  case (2 k i w m)
  have "bt_get m i = None" if "bt_ok ((i, w) # m)"
    using that bt_contains_iff [of m i] by (auto simp: bt_ok_Cons bt_contains_def)
  with 2 show ?case by (auto simp: bt_ok_Cons)
qed simp

text \<open>Two ordered maps with the same lookups are the same list.\<close>

lemma bt_keys_get: "set (bt_keys m) = {k. bt_get m k \<noteq> None}"
  using bt_contains_iff [of m] by (auto simp: bt_contains_def)

lemma bt_ext:
  assumes "bt_ok m" "bt_ok m'" "\<And>k. bt_get m k = bt_get m' k"
  shows "m = m'"
proof -
  have "set (bt_keys m) = set (bt_keys m')" using assms(3) by (simp add: bt_keys_get)
  with assms(1,2) have keys: "bt_keys m = bt_keys m'"
    unfolding bt_ok_def by (intro strict_sorted_equal) auto
  have "m = map (\<lambda>k. (k, the (bt_get m k))) (bt_keys m)" if "bt_ok m" for m :: "('a, 'b) btree_map"
    using bt_ok_distinct [OF that] by (auto simp: bt_keys_def bt_get_map_of intro!: map_idI [symmetric])
  from this [OF assms(1)] this [OF assms(2)] keys assms(3) show ?thesis by simp
qed

locale map_laws =
  fixes ok :: "'m \<Rightarrow> bool" and empty :: 'm and get :: "'m \<Rightarrow> 'k \<Rightarrow> 'v option"
    and put :: "'k \<Rightarrow> 'v \<Rightarrow> 'm \<Rightarrow> 'm" and del :: "'k \<Rightarrow> 'm \<Rightarrow> 'm"
  assumes ok_empty: "ok empty" and ok_put: "ok m \<Longrightarrow> ok (put k v m)" and ok_del: "ok m \<Longrightarrow> ok (del k m)"
    and get_empty: "get empty k = None"
    and get_put: "ok m \<Longrightarrow> get (put k v m) j = (if j = k then Some v else get m j)"
    and get_del: "ok m \<Longrightarrow> get (del k m) j = (if j = k then None else get m j)"
    and get_inject: "ok m \<Longrightarrow> ok m' \<Longrightarrow> (\<And>k. get m k = get m' k) \<Longrightarrow> m = m'"
begin

lemma put_put: "ok m \<Longrightarrow> put k v (put k w m) = put k v m"
  by (rule get_inject) (simp_all add: ok_put get_put)

lemma put_commute: "ok m \<Longrightarrow> j \<noteq> k \<Longrightarrow> put j v (put k w m) = put k w (put j v m)"
  by (rule get_inject) (simp_all add: ok_put get_put)

lemma del_put: "ok m \<Longrightarrow> get m k = None \<Longrightarrow> del k (put k v m) = m"
  by (rule get_inject) (simp_all add: ok_put ok_del get_put get_del)

end

interpretation btree: map_laws bt_ok "[]" bt_get bt_insert bt_remove
  by unfold_locales (auto simp: bt_ok_insert bt_ok_remove bt_get_insert bt_get_remove intro: bt_ext)

end
