(* ===== verification/Product.thy ===== *)
theory Product
  imports Automaton OrdMap
begin

text \<open>
  \<open>etas_utils/src/automaton/product.rs\<close>: the product of named symbolic automata, stepped in
  lockstep under limits on components, product states and work. Arithmetic on \<open>usize\<close> is the
  checked arithmetic of the source. What an allocator does when memory runs out is not modelled.
\<close>

datatype ('c, 's) product_state = ProductState (ps_components: "('c, 's) btree_map")

definition ps_default :: "('c, 's) product_state" where
  "ps_default = ProductState []"

definition ps_get :: "('c, 's) product_state \<Rightarrow> 'c \<Rightarrow> 's option" where
  "ps_get state component = bt_get (ps_components state) component"

record ('c, 's, 'l) product_trace_step =
  pt_component :: 'c
  pt_step :: "('s, 'l) trace_step"

record ('c, 's, 'l) product_step_result =
  pr_states :: "('c, 's) product_state set"
  pr_accepting :: "('c, 's) product_state set"
  pr_rejecting :: "('c, 's) product_state set"
  pr_trace :: "('c, 's, 'l) product_trace_step list"

record product_state_classification =
  pc_accepting :: bool
  pc_rejecting :: bool
  pc_work :: nat

datatype 'c step_error =
    MissingComponent 'c
  | UnexpectedComponent 'c
  | UnknownState 'c
  | ComponentLimit
  | StateLimit
  | WorkLimit

record product_step_limits =
  max_components :: nat
  max_product_states :: nat
  max_work :: nat

datatype ('c, 's, 'l) product_automaton =
  ProductAutomaton (pa_components: "('c, ('s, 'l) symbolic_automaton) btree_map")

definition pa_new :: "('c, 's, 'l) product_automaton" where
  "pa_new = ProductAutomaton []"

definition pa_insert :: "'c :: linorder \<Rightarrow> ('s, 'l) symbolic_automaton \<Rightarrow> ('c, 's, 'l) product_automaton \<Rightarrow>
    ('c, 's, 'l) product_automaton" where
  "pa_insert component automaton p = ProductAutomaton (bt_insert component automaton (pa_components p))"

definition initial_state :: "('c, 's, 'l) product_automaton \<Rightarrow> ('c, 's) product_state" where
  "initial_state p = ProductState (map (\<lambda>(component, automaton). (component, sa_initial automaton)) (pa_components p))"

fun check_expected :: "('c, 's, 'l) product_automaton \<Rightarrow> 'c list \<Rightarrow> 'c step_error + unit" where
  "check_expected p [] = Inr ()"
| "check_expected p (component # keys) =
     (if \<not> bt_contains (pa_components p) component then Inl (UnexpectedComponent component)
      else check_expected p keys)"

text \<open>One component of \<open>classify_state_bounded\<close>, on \<open>(accepting, rejecting, work)\<close>.\<close>

definition classify_component :: "('c, 's) product_state \<Rightarrow> nat \<Rightarrow> 'c \<Rightarrow> ('s, 'l) symbolic_automaton \<Rightarrow>
    bool \<times> bool \<times> nat \<Rightarrow> 'c step_error + bool \<times> bool \<times> nat" where
  "classify_component state limit component automaton acc =
     (case acc of (accepting, rejecting, work) \<Rightarrow>
      bind_r (ok_or (ps_get state component) (MissingComponent component)) (\<lambda>current.
      bind_r (ok_or (Option.bind (checked_add work (length (sa_transitions automaton))) (\<lambda>value. checked_add value 1))
                WorkLimit) (\<lambda>work.
      bind_r (ensure (\<not> work > limit) WorkLimit) (\<lambda>_.
      bind_r (ensure (contains_state automaton current) (UnknownState component)) (\<lambda>_.
        Inr (accepting \<and> current \<in> sa_accepting automaton, rejecting \<or> current \<in> sa_rejecting automaton, work))))))"

fun classify_components :: "('c, 's) product_state \<Rightarrow> nat \<Rightarrow> ('c \<times> ('s, 'l) symbolic_automaton) list \<Rightarrow>
    bool \<times> bool \<times> nat \<Rightarrow> 'c step_error + bool \<times> bool \<times> nat" where
  "classify_components state limit [] acc = Inr acc"
| "classify_components state limit ((component, automaton) # rest) acc =
     bind_r (classify_component state limit component automaton acc) (classify_components state limit rest)"

definition classify_state_bounded :: "('c, 's, 'l) product_automaton \<Rightarrow> ('c, 's) product_state \<Rightarrow> nat \<Rightarrow> nat \<Rightarrow>
    'c step_error + product_state_classification" where
  "classify_state_bounded p state component_limit work_limit =
     (if length (pa_components p) > component_limit \<or> length (ps_components state) > component_limit
      then Inl ComponentLimit
      else let work = length (ps_components state) in
        if work > work_limit then Inl WorkLimit
        else bind_r (check_expected p (bt_keys (ps_components state))) (\<lambda>_.
             bind_r (classify_components state work_limit (pa_components p) (True, False, work))
               (\<lambda>(accepting, rejecting, work).
                 Inr \<lparr>pc_accepting = accepting, pc_rejecting = rejecting, pc_work = work\<rparr>)))"

section \<open>Stepping the product\<close>

type_synonym ('c, 's) partial_product = "('c, 's) btree_map \<times> bool \<times> bool"

definition extend_products :: "'c :: linorder \<Rightarrow> ('s :: linorder, 'l) step_result \<Rightarrow> ('c, 's) partial_product list \<Rightarrow>
    ('c, 's) partial_product list" where
  "extend_products component step products =
     concat (map (\<lambda>(product, accepting, rejecting).
       map (\<lambda>next_state. (bt_insert component next_state product,
              accepting \<and> next_state \<in> sr_accepting step, rejecting \<or> next_state \<in> sr_rejecting step))
         (sorted_list_of_set (sr_states step))) products)"

definition step_component :: "('c :: linorder, 's :: linorder) product_state \<Rightarrow> 'ev \<Rightarrow> ('l \<Rightarrow> 'ev \<Rightarrow> bool) \<Rightarrow> product_step_limits \<Rightarrow>
    nat \<Rightarrow> 'c \<Rightarrow> ('s, 'l) symbolic_automaton \<Rightarrow>
    ('c, 's) partial_product list \<times> ('c, 's, 'l) product_trace_step list \<times> nat \<Rightarrow>
    'c step_error + ('c, 's) partial_product list \<times> ('c, 's, 'l) product_trace_step list \<times> nat" where
  "step_component state event matches limits index component automaton acc =
     (case acc of (products, trace, work) \<Rightarrow>
      bind_r (ok_or (ps_get state component) (MissingComponent component)) (\<lambda>current.
      bind_r (ok_or (checked_mul (length (sa_transitions automaton)) 2) WorkLimit) (\<lambda>transition_work.
      bind_r (ok_or (checked_add work transition_work) WorkLimit) (\<lambda>work.
      bind_r (ensure (\<not> work > max_work limits) WorkLimit) (\<lambda>_.
      bind_r (ensure (contains_state automaton current) (UnknownState component)) (\<lambda>_.
      let step = sa_step automaton current event matches;
          trace = trace @ map (\<lambda>step. \<lparr>pt_component = component, pt_step = step\<rparr>) (sr_trace step)
      in
      bind_r (ok_or (checked_mul (length products) (card (sr_states step))) StateLimit) (\<lambda>count.
      bind_r (ensure (\<not> count > max_product_states limits) StateLimit) (\<lambda>_.
      bind_r (ok_or (checked_mul count (saturating_add index 1)) WorkLimit) (\<lambda>copy_work.
      bind_r (ok_or (checked_add work copy_work) WorkLimit) (\<lambda>work.
      bind_r (ensure (\<not> work > max_work limits) WorkLimit) (\<lambda>_.
        Inr (extend_products component step products, trace, work))))))))))))"

fun step_components :: "('c :: linorder, 's :: linorder) product_state \<Rightarrow> 'ev \<Rightarrow> ('l \<Rightarrow> 'ev \<Rightarrow> bool) \<Rightarrow> product_step_limits \<Rightarrow>
    nat \<Rightarrow> ('c \<times> ('s, 'l) symbolic_automaton) list \<Rightarrow>
    ('c, 's) partial_product list \<times> ('c, 's, 'l) product_trace_step list \<times> nat \<Rightarrow>
    'c step_error + ('c, 's) partial_product list \<times> ('c, 's, 'l) product_trace_step list \<times> nat" where
  "step_components state event matches limits index [] acc = Inr acc"
| "step_components state event matches limits index ((component, automaton) # rest) acc =
     bind_r (step_component state event matches limits index component automaton acc)
       (step_components state event matches limits (Suc index) rest)"

fun collect_products :: "('c, 's) partial_product list \<Rightarrow> ('c, 's, 'l) product_step_result \<Rightarrow>
    ('c, 's, 'l) product_step_result" where
  "collect_products [] r = r"
| "collect_products ((components, accepts, rejects) # products) r =
     (let state = ProductState components;
          r = r\<lparr>pr_states := insert state (pr_states r)\<rparr>;
          r = (if accepts then r\<lparr>pr_accepting := insert state (pr_accepting r)\<rparr> else r);
          r = (if rejects then r\<lparr>pr_rejecting := insert state (pr_rejecting r)\<rparr> else r)
      in collect_products products r)"

definition step_bounded :: "('c :: linorder, 's :: linorder, 'l) product_automaton \<Rightarrow> ('c, 's) product_state \<Rightarrow> 'ev \<Rightarrow>
    ('l \<Rightarrow> 'ev \<Rightarrow> bool) \<Rightarrow> product_step_limits \<Rightarrow> 'c step_error + ('c, 's, 'l) product_step_result" where
  "step_bounded p state event matches limits =
     (if length (pa_components p) > max_components limits \<or> length (ps_components state) > max_components limits
      then Inl ComponentLimit
      else if max_product_states limits = 0 then Inl StateLimit
      else bind_r (check_expected p (bt_keys (ps_components state))) (\<lambda>_.
           bind_r (step_components state event matches limits 0 (pa_components p) ([([], True, False)], [], 0))
             (\<lambda>(products, trace, work).
               Inr (collect_products products
                      \<lparr>pr_states = {}, pr_accepting = {}, pr_rejecting = {}, pr_trace = trace\<rparr>))))"

definition pa_step :: "('c :: linorder, 's :: linorder, 'l) product_automaton \<Rightarrow> ('c, 's) product_state \<Rightarrow> 'ev \<Rightarrow>
    ('l \<Rightarrow> 'ev \<Rightarrow> bool) \<Rightarrow> 'c step_error + ('c, 's, 'l) product_step_result" where
  "pa_step p state event matches =
     step_bounded p state event matches
       \<lparr>max_components = usize_max, max_product_states = usize_max, max_work = usize_max\<rparr>"

section \<open>The limits\<close>

text \<open>
  The number of next states of a component, the bound on the intermediate products and the work of
  a step, as the limits count them: every transition twice, and every partial product once for
  each component it holds.
\<close>

definition component_step :: "('c, 's :: linorder) product_state \<Rightarrow> 'ev \<Rightarrow> ('l \<Rightarrow> 'ev \<Rightarrow> bool) \<Rightarrow>
    'c \<times> ('s, 'l) symbolic_automaton \<Rightarrow> ('s, 'l) step_result" where
  "component_step st ev m x = sa_step (snd x) (the (ps_get st (fst x))) ev m"

definition branching :: "('c, 's :: linorder) product_state \<Rightarrow> 'ev \<Rightarrow> ('l \<Rightarrow> 'ev \<Rightarrow> bool) \<Rightarrow>
    'c \<times> ('s, 'l) symbolic_automaton \<Rightarrow> nat" where
  "branching st ev m x = card (sr_states (component_step st ev m x))"

fun products_within :: "nat \<Rightarrow> nat \<Rightarrow> nat list \<Rightarrow> bool" where
  "products_within limit count [] \<longleftrightarrow> True"
| "products_within limit count (b # bs) \<longleftrightarrow> count * b \<le> limit \<and> products_within limit (count * b) bs"

fun step_work :: "nat \<Rightarrow> nat \<Rightarrow> (nat \<times> nat) list \<Rightarrow> nat" where
  "step_work index count [] = 0"
| "step_work index count ((t, b) # bs) = 2 * t + count * b * Suc index + step_work (Suc index) (count * b) bs"

definition size_of :: "('c, 's :: linorder) product_state \<Rightarrow> 'ev \<Rightarrow> ('l \<Rightarrow> 'ev \<Rightarrow> bool) \<Rightarrow>
    'c \<times> ('s, 'l) symbolic_automaton \<Rightarrow> nat \<times> nat" where
  "size_of st ev m x = (length (sa_transitions (snd x)), branching st ev m x)"

definition known :: "('c, 's) product_state \<Rightarrow> 'c \<times> ('s, 'l) symbolic_automaton \<Rightarrow> bool" where
  "known st x \<longleftrightarrow> (\<exists>cur. ps_get st (fst x) = Some cur \<and> contains_state (snd x) cur)"

definition limits_ok :: "product_step_limits \<Rightarrow> bool" where
  "limits_ok l \<longleftrightarrow> max_components l \<le> usize_max \<and> max_product_states l \<le> usize_max \<and> max_work l \<le> usize_max"

lemma length_extend_products: "length (extend_products c step ps) = length ps * card (sr_states step)"
  by (induction ps) (auto simp: extend_products_def)

definition extend_trace :: "('c, 's :: linorder) product_state \<Rightarrow> 'ev \<Rightarrow> ('l \<Rightarrow> 'ev \<Rightarrow> bool) \<Rightarrow>
    'c \<times> ('s, 'l) symbolic_automaton \<Rightarrow> ('c, 's, 'l) product_trace_step list" where
  "extend_trace st ev m x =
     map (\<lambda>step. \<lparr>pt_component = fst x, pt_step = step\<rparr>) (sr_trace (component_step st ev m x))"

lemma step_component_iff:
  assumes "limits_ok lim" "Suc i \<le> usize_max"
  shows "step_component st ev m lim i c a (ps, tr, w) = Inr r \<longleftrightarrow>
    known st (c, a) \<and> length ps * branching st ev m (c, a) \<le> max_product_states lim \<and>
    w + (2 * length (sa_transitions a) + length ps * branching st ev m (c, a) * Suc i) \<le> max_work lim \<and>
    r = (extend_products c (component_step st ev m (c, a)) ps, tr @ extend_trace st ev m (c, a),
         w + (2 * length (sa_transitions a) + length ps * branching st ev m (c, a) * Suc i))"
proof (cases "ps_get st c")
  case None
  then show ?thesis by (simp add: step_component_def known_def)
next
  case (Some cur)
  then show ?thesis using assms
    by (auto simp: step_component_def known_def component_step_def branching_def extend_trace_def limits_ok_def
        Let_def result_iffs checked_mul_Some_iff checked_add_Some_iff saturating_add_def)
qed

lemma step_components_iff:
  assumes "limits_ok lim" "i + length cs \<le> usize_max" "w \<le> max_work lim"
  shows "step_components st ev m lim i cs (ps, tr, w) = Inr r \<longleftrightarrow>
    list_all (known st) cs \<and> products_within (max_product_states lim) (length ps) (map (branching st ev m) cs) \<and>
    w + step_work i (length ps) (map (size_of st ev m) cs) \<le> max_work lim \<and>
    r = (foldl (\<lambda>ps x. extend_products (fst x) (component_step st ev m x) ps) ps cs,
         tr @ concat (map (extend_trace st ev m) cs),
         w + step_work i (length ps) (map (size_of st ev m) cs))"
  using assms(2,3)
proof (induction cs arbitrary: i ps tr w)
  case Nil
  then show ?case by auto
next
  case (Cons x cs)
  obtain c a where x: "x = (c, a)" by fastforce
  let ?w = "w + (2 * length (sa_transitions a) + length ps * branching st ev m x * Suc i)"
  let ?ps = "extend_products c (component_step st ev m x) ps"
  have len: "length ?ps = length ps * branching st ev m x" by (simp add: length_extend_products branching_def)
  have "step_components st ev m lim i (x # cs) (ps, tr, w) = Inr r \<longleftrightarrow>
    known st x \<and> length ps * branching st ev m x \<le> max_product_states lim \<and> ?w \<le> max_work lim \<and>
    step_components st ev m lim (Suc i) cs (?ps, tr @ extend_trace st ev m x, ?w) = Inr r"
    using Cons.prems(1) by (auto simp: x bind_r_Inr_iff step_component_iff [OF assms(1)])
  also have "\<dots> \<longleftrightarrow> known st x \<and> length ps * branching st ev m x \<le> max_product_states lim \<and> ?w \<le> max_work lim \<and>
    list_all (known st) cs \<and> products_within (max_product_states lim) (length ps * branching st ev m x) (map (branching st ev m) cs) \<and>
    ?w + step_work (Suc i) (length ps * branching st ev m x) (map (size_of st ev m) cs) \<le> max_work lim \<and>
    r = (foldl (\<lambda>ps x. extend_products (fst x) (component_step st ev m x) ps) ?ps cs,
         (tr @ extend_trace st ev m x) @ concat (map (extend_trace st ev m) cs),
         ?w + step_work (Suc i) (length ps * branching st ev m x) (map (size_of st ev m) cs))"
    using Cons.IH [of "Suc i" ?w ?ps "tr @ extend_trace st ev m x"] Cons.prems(1) unfolding len by auto
  also have "\<dots> \<longleftrightarrow> list_all (known st) (x # cs) \<and>
    products_within (max_product_states lim) (length ps) (map (branching st ev m) (x # cs)) \<and>
    w + step_work i (length ps) (map (size_of st ev m) (x # cs)) \<le> max_work lim \<and>
    r = (foldl (\<lambda>ps x. extend_products (fst x) (component_step st ev m x) ps) ps (x # cs),
         tr @ concat (map (extend_trace st ev m) (x # cs)),
         w + step_work i (length ps) (map (size_of st ev m) (x # cs)))"
    by (auto simp: x size_of_def algebra_simps)
  finally show ?case .
qed

lemma check_expected_iff: "check_expected p keys = Inr u \<longleftrightarrow> set keys \<subseteq> set (bt_keys (pa_components p))"
  by (induction keys) (auto simp: bt_contains_iff)

lemma check_expected_error: "check_expected p keys = Inl e \<Longrightarrow> \<exists>c. e = UnexpectedComponent c"
  by (induction keys) (auto split: if_splits)

definition pa_ok :: "('c :: linorder, 's, 'l) product_automaton \<Rightarrow> bool" where
  "pa_ok p \<longleftrightarrow> bt_ok (pa_components p)"

definition ps_ok :: "('c :: linorder, 's) product_state \<Rightarrow> bool" where
  "ps_ok st \<longleftrightarrow> bt_ok (ps_components st)"

text \<open>A state the product can be in: exactly its components, each in a state of its automaton.\<close>

definition valid_state :: "('c :: linorder, 's, 'l) product_automaton \<Rightarrow> ('c, 's) product_state \<Rightarrow> bool" where
  "valid_state p st \<longleftrightarrow> ps_ok st \<and> bt_keys (ps_components st) = bt_keys (pa_components p) \<and>
     list_all (known st) (pa_components p)"

lemma valid_state_iff:
  assumes "pa_ok p" "ps_ok st"
  shows "valid_state p st \<longleftrightarrow>
    set (bt_keys (ps_components st)) \<subseteq> set (bt_keys (pa_components p)) \<and> list_all (known st) (pa_components p)"
proof -
  have "set (bt_keys (pa_components p)) \<subseteq> set (bt_keys (ps_components st))" if "list_all (known st) (pa_components p)"
  proof
    fix c assume "c \<in> set (bt_keys (pa_components p))"
    then obtain x where "x \<in> set (pa_components p)" "fst x = c" by (auto simp: bt_keys_def)
    with that show "c \<in> set (bt_keys (ps_components st))"
      by (auto simp: list_all_iff known_def ps_get_def bt_keys_get)
  qed
  then show ?thesis
    using assms strict_sorted_equal by (auto simp: valid_state_def pa_ok_def ps_ok_def bt_ok_def)
qed

text \<open>A choice of one state per component, in the order of the components.\<close>

definition picks :: "('c \<times> 'x \<Rightarrow> 's \<Rightarrow> bool) \<Rightarrow> ('c \<times> 'x) list \<Rightarrow> ('c \<times> 's) list \<Rightarrow> bool" where
  "picks P cs ys \<longleftrightarrow> list_all2 (\<lambda>x y. fst y = fst x \<and> P x (snd y)) cs ys"

lemma picks_keys: "picks P cs ys \<Longrightarrow> bt_keys ys = bt_keys cs"
  unfolding picks_def bt_keys_def by (auto simp: list_all2_conv_all_nth intro!: nth_equalityI)

lemma picks_Cons: "picks P (x # cs) ys \<longleftrightarrow> (\<exists>v zs. ys = (fst x, v) # zs \<and> P x v \<and> picks P cs zs)"
  by (cases ys) (auto simp: picks_def)

lemma picks_iff:
  assumes "bt_ok cs"
  shows "picks P cs ys \<longleftrightarrow> bt_keys ys = bt_keys cs \<and> (\<forall>x\<in>set cs. \<exists>v. bt_get ys (fst x) = Some v \<and> P x v)"
  using assms
proof (induction cs arbitrary: ys)
  case Nil
  show ?case by (auto simp: picks_def bt_keys_def)
next
  case (Cons x cs)
  obtain c a where x: "x = (c, a)" by fastforce
  with Cons.prems have cs: "bt_ok cs" "\<forall>y\<in>set cs. c \<noteq> fst y" by (auto simp: bt_ok_Cons bt_keys_def)
  note IH = Cons.IH [OF cs(1)]
  show ?case
  proof (cases "\<exists>v zs. ys = (c, v) # zs")
    case True
    then obtain v zs where ys: "ys = (c, v) # zs" by blast
    have "picks P (x # cs) ys \<longleftrightarrow> P x v \<and> bt_keys zs = bt_keys cs \<and> (\<forall>x\<in>set cs. \<exists>v. bt_get zs (fst x) = Some v \<and> P x v)"
      unfolding ys picks_Cons x IH [symmetric] by simp
    also have "\<dots> \<longleftrightarrow> bt_keys ys = bt_keys (x # cs) \<and> (\<forall>x\<in>set (x # cs). \<exists>v. bt_get ys (fst x) = Some v \<and> P x v)"
      using cs(2) by (auto simp: ys x bt_keys_def)
    finally show ?thesis .
  next
    case False
    then show ?thesis by (cases ys) (auto simp: picks_def bt_keys_def x)
  qed
qed

lemma set_extend_products:
  assumes "finite (sr_states step)" "\<forall>(p, acc, rej)\<in>set ps. \<forall>j\<in>set (bt_keys p). j < c"
  shows "(q, acc', rej') \<in> set (extend_products c step ps) \<longleftrightarrow>
    (\<exists>p acc rej v. (p, acc, rej) \<in> set ps \<and> v \<in> sr_states step \<and> q = p @ [(c, v)] \<and>
       acc' = (acc \<and> v \<in> sr_accepting step) \<and> rej' = (rej \<or> v \<in> sr_rejecting step))"
proof -
  have ins: "bt_insert c v p = p @ [(c, v)]" if "(p, acc, rej) \<in> set ps" for p acc rej v
    using assms(2) that by (intro bt_insert_last) auto
  have "set (extend_products c step ps) =
    (\<Union>x\<in>set ps. (\<lambda>v. (bt_insert c v (fst x), fst (snd x) \<and> v \<in> sr_accepting step,
      snd (snd x) \<or> v \<in> sr_rejecting step)) ` sr_states step)"
    using assms(1) by (simp add: extend_products_def case_prod_beta)
  then have "(q, acc', rej') \<in> set (extend_products c step ps) \<longleftrightarrow>
    (\<exists>p acc rej v. (p, acc, rej) \<in> set ps \<and> v \<in> sr_states step \<and> q = bt_insert c v p \<and>
       acc' = (acc \<and> v \<in> sr_accepting step) \<and> rej' = (rej \<or> v \<in> sr_rejecting step))"
    by (simp only: UN_iff image_iff Bex_def prod.inject split_paired_Ex fst_conv snd_conv) blast
  also have "\<dots> \<longleftrightarrow> (\<exists>p acc rej v. (p, acc, rej) \<in> set ps \<and> v \<in> sr_states step \<and> q = p @ [(c, v)] \<and>
       acc' = (acc \<and> v \<in> sr_accepting step) \<and> rej' = (rej \<or> v \<in> sr_rejecting step))"
    by (intro ex_cong1 conj_cong refl) (simp add: ins)
  finally show ?thesis .
qed

lemma set_foldl_extend:
  assumes "bt_ok cs" "\<forall>(p, acc, rej)\<in>set ps. \<forall>j\<in>set (bt_keys p). \<forall>k\<in>set (bt_keys cs). j < k"
  shows "(q, acc', rej') \<in> set (foldl (\<lambda>ps x. extend_products (fst x) (component_step st ev m x) ps) ps cs) \<longleftrightarrow>
    (\<exists>p acc rej ys. (p, acc, rej) \<in> set ps \<and> q = p @ ys \<and> picks (\<lambda>x v. v \<in> sr_states (component_step st ev m x)) cs ys \<and>
       acc' = (acc \<and> picks (\<lambda>x v. v \<in> sr_accepting (component_step st ev m x)) cs ys) \<and>
       rej' = (rej \<or> \<not> picks (\<lambda>x v. v \<notin> sr_rejecting (component_step st ev m x)) cs ys))"
  using assms
proof (induction cs arbitrary: ps)
  case Nil
  then show ?case by (simp add: picks_def)
next
  case (Cons x cs)
  obtain c a where x: "x = (c, a)" by fastforce
  let ?step = "component_step st ev m x"
  let ?ps = "extend_products c ?step ps"
  have fin: "finite (sr_states ?step)" by (simp add: component_step_def)
  have below: "\<forall>(p, acc, rej)\<in>set ps. \<forall>j\<in>set (bt_keys p). j < c"
    using Cons.prems(2) by (auto simp: x bt_keys_def)
  note ext = set_extend_products [OF fin below]
  have "\<forall>(p, acc, rej)\<in>set ?ps. \<forall>j\<in>set (bt_keys p). \<forall>k\<in>set (bt_keys cs). j < k"
  proof (clarify)
    fix p acc rej j k assume "(p, acc, rej) \<in> set ?ps" "j \<in> set (bt_keys p)" "k \<in> set (bt_keys cs)"
    moreover from this obtain p' acc0 rej0 v where "(p', acc0, rej0) \<in> set ps" "p = p' @ [(c, v)]"
      unfolding ext by blast
    ultimately show "j < k" using Cons.prems by (force simp: x bt_ok_Cons bt_keys_def)
  qed
  from Cons.IH [OF _ this] Cons.prems(1) have
    "(q, acc', rej') \<in> set (foldl (\<lambda>ps x. extend_products (fst x) (component_step st ev m x) ps) ps (x # cs)) \<longleftrightarrow>
    (\<exists>p acc rej ys. (p, acc, rej) \<in> set ?ps \<and> q = p @ ys \<and> picks (\<lambda>x v. v \<in> sr_states (component_step st ev m x)) cs ys \<and>
       acc' = (acc \<and> picks (\<lambda>x v. v \<in> sr_accepting (component_step st ev m x)) cs ys) \<and>
       rej' = (rej \<or> \<not> picks (\<lambda>x v. v \<notin> sr_rejecting (component_step st ev m x)) cs ys))"
    by (simp add: x bt_ok_Cons)
  also have "\<dots> \<longleftrightarrow> (\<exists>p acc rej v ys. (p, acc, rej) \<in> set ps \<and> v \<in> sr_states ?step \<and> q = p @ (c, v) # ys \<and>
       picks (\<lambda>x v. v \<in> sr_states (component_step st ev m x)) cs ys \<and>
       acc' = (acc \<and> v \<in> sr_accepting ?step \<and> picks (\<lambda>x v. v \<in> sr_accepting (component_step st ev m x)) cs ys) \<and>
       rej' = (rej \<or> v \<in> sr_rejecting ?step \<or> \<not> picks (\<lambda>x v. v \<notin> sr_rejecting (component_step st ev m x)) cs ys))"
    (is "?L \<longleftrightarrow> ?R")
  proof
    assume ?L
    then obtain p acc rej ys p0 acc0 rej0 v where "(p0, acc0, rej0) \<in> set ps" "v \<in> sr_states ?step" "p = p0 @ [(c, v)]"
      "acc = (acc0 \<and> v \<in> sr_accepting ?step)" "rej = (rej0 \<or> v \<in> sr_rejecting ?step)"
      "q = p @ ys" "picks (\<lambda>x v. v \<in> sr_states (component_step st ev m x)) cs ys"
      "acc' = (acc \<and> picks (\<lambda>x v. v \<in> sr_accepting (component_step st ev m x)) cs ys)"
      "rej' = (rej \<or> \<not> picks (\<lambda>x v. v \<notin> sr_rejecting (component_step st ev m x)) cs ys)"
      unfolding ext by blast
    then show ?R by (intro exI [of _ p0] exI [of _ acc0] exI [of _ rej0] exI [of _ v] exI [of _ ys]) simp
  next
    assume ?R
    then obtain p acc rej v ys where "(p, acc, rej) \<in> set ps" "v \<in> sr_states ?step" "q = p @ (c, v) # ys"
      "picks (\<lambda>x v. v \<in> sr_states (component_step st ev m x)) cs ys"
      "acc' = (acc \<and> v \<in> sr_accepting ?step \<and> picks (\<lambda>x v. v \<in> sr_accepting (component_step st ev m x)) cs ys)"
      "rej' = (rej \<or> v \<in> sr_rejecting ?step \<or> \<not> picks (\<lambda>x v. v \<notin> sr_rejecting (component_step st ev m x)) cs ys)"
      by blast
    then show ?L unfolding ext
      by (intro exI [of _ "p @ [(c, v)]"] exI [of _ "acc \<and> v \<in> sr_accepting ?step"]
          exI [of _ "rej \<or> v \<in> sr_rejecting ?step"] exI [of _ ys] conjI exI [of _ p] exI [of _ acc] exI [of _ rej]
          exI [of _ v]) simp_all
  qed
  finally show ?case by (simp add: picks_Cons x) blast
qed

section \<open>The product of the components\<close>

text \<open>
  \<open>product_of p P st\<close>: \<open>st\<close> has exactly the components of \<open>p\<close>, and the state of each of them satisfies \<open>P\<close>.
\<close>

definition product_of :: "('c :: linorder, 's, 'l) product_automaton \<Rightarrow>
    ('c \<times> ('s, 'l) symbolic_automaton \<Rightarrow> 's \<Rightarrow> bool) \<Rightarrow> ('c, 's) product_state \<Rightarrow> bool" where
  "product_of p P st \<longleftrightarrow> bt_keys (ps_components st) = bt_keys (pa_components p) \<and>
     (\<forall>x\<in>set (pa_components p). \<exists>v. ps_get st (fst x) = Some v \<and> P x v)"

lemma picks_product_of: "pa_ok p \<Longrightarrow> picks P (pa_components p) ys \<longleftrightarrow> product_of p P (ProductState ys)"
  by (simp add: picks_iff product_of_def pa_ok_def ps_get_def)

lemma product_of_ok: "pa_ok p \<Longrightarrow> product_of p P st \<Longrightarrow> ps_ok st"
  by (simp add: pa_ok_def ps_ok_def product_of_def bt_ok_def)

lemma collect_products_eq:
  "collect_products ps r =
     r\<lparr>pr_states := pr_states r \<union> (\<lambda>x. ProductState (fst x)) ` set ps,
       pr_accepting := pr_accepting r \<union> (\<lambda>x. ProductState (fst x)) ` set (filter (\<lambda>x. fst (snd x)) ps),
       pr_rejecting := pr_rejecting r \<union> (\<lambda>x. ProductState (fst x)) ` set (filter (\<lambda>x. snd (snd x)) ps)\<rparr>"
proof (induction ps arbitrary: r)
  case (Cons x ps)
  obtain q acc rej where x: "x = (q, acc, rej)" by (cases x)
  show ?case by (cases acc; cases rej) (simp_all add: x Let_def Cons)
qed simp

definition step_sets :: "('c :: linorder, 's :: linorder, 'l) product_automaton \<Rightarrow> ('c, 's) product_state \<Rightarrow> 'ev \<Rightarrow>
    ('l \<Rightarrow> 'ev \<Rightarrow> bool) \<Rightarrow> ('c, 's, 'l) product_step_result" where
  "step_sets p st ev m =
     (let succ = product_of p (\<lambda>x v. v \<in> sr_states (component_step st ev m x)) in
      \<lparr>pr_states = Collect succ,
       pr_accepting = {t. succ t \<and> product_of p (\<lambda>x v. v \<in> sr_accepting (component_step st ev m x)) t},
       pr_rejecting = {t. succ t \<and> \<not> product_of p (\<lambda>x v. v \<notin> sr_rejecting (component_step st ev m x)) t},
       pr_trace = concat (map (extend_trace st ev m) (pa_components p))\<rparr>)"

lemma collect_all_products:
  assumes "pa_ok p"
  shows "collect_products (foldl (\<lambda>ps x. extend_products (fst x) (component_step st ev m x) ps) [([], True, False)] (pa_components p))
    \<lparr>pr_states = {}, pr_accepting = {}, pr_rejecting = {}, pr_trace = concat (map (extend_trace st ev m) (pa_components p))\<rparr>
    = step_sets p st ev m"
proof -
  let ?ps = "foldl (\<lambda>ps x. extend_products (fst x) (component_step st ev m x) ps) [([], True, False)] (pa_components p)"
  have ok: "bt_ok (pa_components p)" using assms by (simp add: pa_ok_def)
  have mem: "(q, acc, rej) \<in> set ?ps \<longleftrightarrow>
    product_of p (\<lambda>x v. v \<in> sr_states (component_step st ev m x)) (ProductState q) \<and>
    acc = product_of p (\<lambda>x v. v \<in> sr_accepting (component_step st ev m x)) (ProductState q) \<and>
    rej = (\<not> product_of p (\<lambda>x v. v \<notin> sr_rejecting (component_step st ev m x)) (ProductState q))" for q acc rej
    by (subst set_foldl_extend [OF ok]) (auto simp: bt_keys_def picks_product_of [OF assms])
  have ex: "(\<exists>q. t = ProductState q \<and> P (ProductState q)) \<longleftrightarrow> P t" for P and t :: "('a, 'b) product_state"
    by (cases t) auto
  have states: "(\<lambda>x. ProductState (fst x)) ` set ?ps = pr_states (step_sets p st ev m)"
    and acc: "(\<lambda>x. ProductState (fst x)) ` set (filter (\<lambda>x. fst (snd x)) ?ps) = pr_accepting (step_sets p st ev m)"
    and rej: "(\<lambda>x. ProductState (fst x)) ` set (filter (\<lambda>x. snd (snd x)) ?ps) = pr_rejecting (step_sets p st ev m)"
    unfolding set_eq_iff image_iff Bex_def set_filter mem_Collect_eq split_paired_Ex fst_conv snd_conv mem
    by (auto simp: step_sets_def Let_def) (metis product_state.collapse)+
  show ?thesis unfolding collect_products_eq states acc rej by (simp add: step_sets_def Let_def)
qed

lemma step_bounded_iff_aux:
  assumes "pa_ok p" "ps_ok st" "limits_ok lim"
  shows "step_bounded p st ev m lim = Inr r \<longleftrightarrow>
    valid_state p st \<and> length (pa_components p) \<le> max_components lim \<and> 0 < max_product_states lim \<and>
    products_within (max_product_states lim) 1 (map (branching st ev m) (pa_components p)) \<and>
    step_work 0 1 (map (size_of st ev m) (pa_components p)) \<le> max_work lim \<and> r = step_sets p st ev m"
proof (cases "length (pa_components p) \<le> max_components lim \<and> 0 < max_product_states lim")
  case False
  then show ?thesis by (auto simp: step_bounded_def)
next
  case True
  have len: "0 + length (pa_components p) \<le> usize_max" using True assms(3) by (simp add: limits_ok_def)
  have "length (ps_components st) = length (pa_components p)" if "valid_state p st"
    using that unfolding valid_state_def bt_keys_def by (metis length_map)
  moreover have "step_bounded p st ev m lim = Inr r \<longleftrightarrow> length (ps_components st) \<le> max_components lim \<and>
      set (bt_keys (ps_components st)) \<subseteq> set (bt_keys (pa_components p)) \<and>
      (\<exists>r'. step_components st ev m lim 0 (pa_components p) ([([], True, False)], [], 0) = Inr r' \<and>
        r = collect_products (fst r') \<lparr>pr_states = {}, pr_accepting = {}, pr_rejecting = {}, pr_trace = fst (snd r')\<rparr>)"
    using True by (auto simp: step_bounded_def bind_r_Inr_iff check_expected_iff case_prod_beta)
  moreover have "(\<exists>r'. step_components st ev m lim 0 (pa_components p) ([([], True, False)], [], 0) = Inr r' \<and>
        r = collect_products (fst r') \<lparr>pr_states = {}, pr_accepting = {}, pr_rejecting = {}, pr_trace = fst (snd r')\<rparr>) \<longleftrightarrow>
      list_all (known st) (pa_components p) \<and>
      products_within (max_product_states lim) 1 (map (branching st ev m) (pa_components p)) \<and>
      step_work 0 1 (map (size_of st ev m) (pa_components p)) \<le> max_work lim \<and> r = step_sets p st ev m"
    unfolding step_components_iff [OF assms(3) len le0] by (simp add: collect_all_products [OF assms(1)])
  ultimately show ?thesis using True valid_state_iff [OF assms(1,2)] by metis
qed

lemma product_of_known:
  assumes "pa_ok p" "valid_state p st" "product_of p (\<lambda>x v. v \<in> sr_states (component_step st ev m x)) t"
  shows "valid_state p t"
proof -
  have "known t x" if x: "x \<in> set (pa_components p)" for x
  proof -
    obtain v where v: "ps_get t (fst x) = Some v" "v \<in> sr_states (component_step st ev m x)"
      using assms(3) x by (auto simp: product_of_def)
    obtain cur where "ps_get st (fst x) = Some cur" "contains_state (snd x) cur"
      using assms(2) x by (auto simp: valid_state_def list_all_iff known_def)
    with v show ?thesis using sa_step_contains by (auto simp: known_def component_step_def)
  qed
  with assms product_of_ok [OF assms(1,3)] show ?thesis
    by (auto simp: valid_state_def list_all_iff product_of_def)
qed

lemma products_within_prod: "products_within limit count bs \<Longrightarrow> count \<le> limit \<Longrightarrow> count * prod_list bs \<le> limit"
  by (induction bs arbitrary: count) (auto simp: mult.assoc [symmetric])

lemma length_foldl_extend:
  "length (foldl (\<lambda>ps x. extend_products (fst x) (component_step st ev m x) ps) ps cs) =
     length ps * prod_list (map (branching st ev m) cs)"
  by (induction cs arbitrary: ps) (auto simp: length_extend_products branching_def mult.assoc)

lemma card_step_sets:
  assumes "pa_ok p" shows "card (pr_states (step_sets p st ev m)) \<le> prod_list (map (branching st ev m) (pa_components p))"
proof -
  let ?ps = "foldl (\<lambda>ps x. extend_products (fst x) (component_step st ev m x) ps) [([], True, False)] (pa_components p)"
  have eq: "pr_states (step_sets p st ev m) = (\<lambda>x. ProductState (fst x)) ` set ?ps"
    unfolding collect_all_products [OF assms, symmetric] collect_products_eq by simp
  have "card (pr_states (step_sets p st ev m)) \<le> length ?ps"
    unfolding eq by (rule le_trans [OF card_image_le [OF finite_set] card_length])
  then show ?thesis by (simp add: length_foldl_extend)
qed

section \<open>Properties\<close>

text \<open>
  C13: a successful product step is the synchronous product of the steps of its components. The next
  states are exactly the product states that have the components of the product and, for each of
  them, one of the next states of that component's own step; a next state is accepting when every
  component accepts and rejecting when some component rejects; the trace is the concatenation of
  the components' traces in the order of the component names. Stepping succeeds only on a
  valid state, and leads only to valid states.
\<close>

theorem product_step_correct:
  assumes "pa_ok p" "ps_ok st" "limits_ok lim" "step_bounded p st ev m lim = Inr r"
  shows "valid_state p st \<and> (\<forall>t\<in>pr_states r. valid_state p t) \<and>
    pr_states r = {t. product_of p (\<lambda>x v. v \<in> sr_states (component_step st ev m x)) t} \<and>
    pr_accepting r = {t \<in> pr_states r. product_of p (\<lambda>x v. v \<in> sr_accepting (component_step st ev m x)) t} \<and>
    pr_rejecting r = {t \<in> pr_states r. \<exists>x\<in>set (pa_components p).
      the (ps_get t (fst x)) \<in> sr_rejecting (component_step st ev m x)} \<and>
    pr_trace r = concat (map (extend_trace st ev m) (pa_components p))"
proof -
  from assms(4) have valid: "valid_state p st" and r: "r = step_sets p st ev m"
    by (auto simp: step_bounded_iff_aux [OF assms(1-3)])
  let ?succ = "product_of p (\<lambda>x v. v \<in> sr_states (component_step st ev m x))"
  have "\<not> product_of p (\<lambda>x v. v \<notin> sr_rejecting (component_step st ev m x)) t \<longleftrightarrow>
      (\<exists>x\<in>set (pa_components p). the (ps_get t (fst x)) \<in> sr_rejecting (component_step st ev m x))"
    if "?succ t" for t
  proof -
    have "\<exists>v. ps_get t (fst x) = Some v" if "x \<in> set (pa_components p)" for x
      using \<open>?succ t\<close> that unfolding product_of_def by blast
    with that show ?thesis unfolding product_of_def by (metis option.sel)
  qed
  then have rej: "{t. ?succ t \<and> \<not> product_of p (\<lambda>x v. v \<notin> sr_rejecting (component_step st ev m x)) t} =
      {t. ?succ t \<and> (\<exists>x\<in>set (pa_components p). the (ps_get t (fst x)) \<in> sr_rejecting (component_step st ev m x))}"
    by (intro Collect_cong conj_cong refl)
  have "\<forall>t\<in>Collect ?succ. valid_state p t" using product_of_known [OF assms(1) valid, where ev = ev and m = m] by simp
  with valid show ?thesis unfolding r step_sets_def Let_def rej by simp
qed

text \<open>
  C31: \<open>step_bounded\<close> succeeds exactly when the state is valid and the step fits the limits: at most
  \<open>max_components\<close> components, at most \<open>max_product_states\<close> partial products after every component,
  and work at most \<open>max_work\<close>, where the work is counted in unbounded arithmetic. The overflow
  checks therefore refuse nothing that fits, and no step that exceeds a limit gets through.
  A result never holds more than \<open>max_product_states\<close> states.
\<close>

theorem step_bounded_within_limits:
  assumes "pa_ok p" "ps_ok st" "limits_ok lim"
  shows "((\<exists>r. step_bounded p st ev m lim = Inr r) \<longleftrightarrow>
      valid_state p st \<and> length (pa_components p) \<le> max_components lim \<and> 0 < max_product_states lim \<and>
      products_within (max_product_states lim) 1 (map (branching st ev m) (pa_components p)) \<and>
      step_work 0 1 (map (size_of st ev m) (pa_components p)) \<le> max_work lim) \<and>
    (\<forall>r. step_bounded p st ev m lim = Inr r \<longrightarrow> card (pr_states r) \<le> max_product_states lim)"
proof (intro conjI allI impI)
  fix r assume "step_bounded p st ev m lim = Inr r"
  then have "0 < max_product_states lim" "r = step_sets p st ev m"
    "products_within (max_product_states lim) 1 (map (branching st ev m) (pa_components p))"
    by (simp_all add: step_bounded_iff_aux [OF assms])
  then show "card (pr_states r) \<le> max_product_states lim"
    using card_step_sets [OF assms(1), of st ev m] products_within_prod by fastforce
qed (simp add: step_bounded_iff_aux [OF assms])

text \<open>
  Where a step is refused: at the component \<open>x\<close> after the components \<open>pre\<close>, all of which passed. The step
  refuses in this order: the transitions of \<open>x\<close> exceed the work, \<open>x\<close> is in no state of its automaton,
  the partial products are too many, copying them exceeds the work.
\<close>

definition work_exceeded ::
  "('c, 's :: linorder) product_state \<Rightarrow> 'ev \<Rightarrow> ('l \<Rightarrow> 'ev \<Rightarrow> bool) \<Rightarrow> product_step_limits \<Rightarrow> nat \<Rightarrow> nat \<Rightarrow> nat \<Rightarrow>
   ('c \<times> ('s, 'l) symbolic_automaton) list \<Rightarrow> 'c \<times> ('s, 'l) symbolic_automaton \<Rightarrow> bool" where
  "work_exceeded st ev m lim i count w pre x \<longleftrightarrow>
     max_work lim < w + step_work i count (map (size_of st ev m) pre) + 2 * length (sa_transitions (snd x)) \<or>
     known st x \<and> products_within (max_product_states lim) count (map (branching st ev m) (pre @ [x])) \<and>
     max_work lim < w + step_work i count (map (size_of st ev m) (pre @ [x]))"

definition states_exceeded ::
  "('c, 's :: linorder) product_state \<Rightarrow> 'ev \<Rightarrow> ('l \<Rightarrow> 'ev \<Rightarrow> bool) \<Rightarrow> product_step_limits \<Rightarrow> nat \<Rightarrow> nat \<Rightarrow> nat \<Rightarrow>
   ('c \<times> ('s, 'l) symbolic_automaton) list \<Rightarrow> 'c \<times> ('s, 'l) symbolic_automaton \<Rightarrow> bool" where
  "states_exceeded st ev m lim i count w pre x \<longleftrightarrow>
     known st x \<and> max_product_states lim < count * prod_list (map (branching st ev m) (pre @ [x])) \<and>
     w + step_work i count (map (size_of st ev m) pre) + 2 * length (sa_transitions (snd x)) \<le> max_work lim"

definition refused_at ::
  "('c, 's :: linorder) product_state \<Rightarrow> 'ev \<Rightarrow> ('l \<Rightarrow> 'ev \<Rightarrow> bool) \<Rightarrow> product_step_limits \<Rightarrow> nat \<Rightarrow> nat \<Rightarrow> nat \<Rightarrow>
   ('c \<times> ('s, 'l) symbolic_automaton) list \<Rightarrow> 'c \<times> ('s, 'l) symbolic_automaton \<Rightarrow> 'c step_error \<Rightarrow> bool" where
  "refused_at st ev m lim i count w pre x e \<longleftrightarrow>
     (case e of
        MissingComponent c \<Rightarrow> c = fst x \<and> ps_get st c = None
      | UnknownState c \<Rightarrow> c = fst x \<and> (\<exists>cur. ps_get st c = Some cur \<and> \<not> contains_state (snd x) cur)
      | StateLimit \<Rightarrow> states_exceeded st ev m lim i count w pre x
      | WorkLimit \<Rightarrow> ps_get st (fst x) \<noteq> None \<and> work_exceeded st ev m lim i count w pre x
      | _ \<Rightarrow> False)"

lemma checked_mul_None_iff: "checked_mul a b = None \<longleftrightarrow> usize_max < a * b"
  by (simp add: checked_mul_def)

lemma checked_add_None_iff: "checked_add a b = None \<longleftrightarrow> usize_max < a + b"
  by (simp add: checked_add_def)

lemma step_component_error:
  assumes "limits_ok lim" "Suc i \<le> usize_max" "step_component st ev m lim i c a (ps, tr, w) = Inl e"
  shows "refused_at st ev m lim i (length ps) w [] (c, a) e"
proof (cases "ps_get st c")
  case None
  with assms(3) show ?thesis by (auto simp: step_component_def refused_at_def)
next
  case (Some cur)
  with assms show ?thesis
    by (auto simp: step_component_def refused_at_def states_exceeded_def work_exceeded_def known_def size_of_def
        component_step_def branching_def limits_ok_def Let_def result_iffs checked_mul_Some_iff checked_add_Some_iff
        checked_mul_None_iff checked_add_None_iff saturating_add_def algebra_simps)
qed

lemma refused_at_Cons:
  assumes "refused_at st ev m lim (Suc i) (count * branching st ev m y)
      (w + (2 * length (sa_transitions (snd y)) + count * branching st ev m y * Suc i)) pre x e"
    and "count * branching st ev m y \<le> max_product_states lim"
  shows "refused_at st ev m lim i count w (y # pre) x e"
  using assms
  by (auto simp: refused_at_def states_exceeded_def work_exceeded_def size_of_def algebra_simps split: step_error.splits)

lemma step_components_error:
  assumes "limits_ok lim" "i + length cs \<le> usize_max" "step_components st ev m lim i cs (ps, tr, w) = Inl e"
  shows "\<exists>pre x post. cs = pre @ x # post \<and> list_all (known st) pre \<and>
    products_within (max_product_states lim) (length ps) (map (branching st ev m) pre) \<and>
    refused_at st ev m lim i (length ps) w pre x e"
  using assms(2,3)
proof (induction cs arbitrary: i ps tr w)
  case (Cons y cs)
  obtain c a where y: "y = (c, a)" by fastforce
  have i: "Suc i \<le> usize_max" using Cons.prems(1) by simp
  show ?case
  proof (cases "step_component st ev m lim i c a (ps, tr, w)")
    case (Inl e')
    with Cons.prems(2) have "step_component st ev m lim i c a (ps, tr, w) = Inl e" by (simp add: y)
    from step_component_error [OF assms(1) i this] show ?thesis
      by (intro exI [of _ "[]"] exI [of _ y] exI [of _ cs]) (simp add: y)
  next
    case (Inr r)
    let ?w = "w + (2 * length (sa_transitions a) + length ps * branching st ev m y * Suc i)"
    from step_component_iff [OF assms(1) i, THEN iffD1, OF Inr] have
      known: "known st y" and count: "length ps * branching st ev m y \<le> max_product_states lim"
      and r: "r = (extend_products c (component_step st ev m y) ps, tr @ extend_trace st ev m y, ?w)" by (simp_all add: y)
    have len: "length (extend_products c (component_step st ev m y) ps) = length ps * branching st ev m y"
      by (simp add: length_extend_products branching_def)
    from Cons.prems Inr have "step_components st ev m lim (Suc i) cs
        (extend_products c (component_step st ev m y) ps, tr @ extend_trace st ev m y, ?w) = Inl e" by (simp add: y r)
    from Cons.IH [OF _ this] Cons.prems(1) obtain pre x post where "cs = pre @ x # post" "list_all (known st) pre"
      "products_within (max_product_states lim) (length ps * branching st ev m y) (map (branching st ev m) pre)"
      "refused_at st ev m lim (Suc i) (length ps * branching st ev m y) ?w pre x e" unfolding len by auto
    moreover from this(4) have "refused_at st ev m lim i (length ps) w (y # pre) x e"
      using refused_at_Cons [OF _ count, of i w pre x e] by (simp add: y)
    ultimately show ?thesis using known count
      by (intro exI [of _ "y # pre"] exI [of _ x] exI [of _ post]) simp
  qed
qed simp

lemma check_expected_Inl: "check_expected p keys = Inl e \<Longrightarrow>
  \<exists>c. e = UnexpectedComponent c \<and> c \<in> set keys \<and> c \<notin> set (bt_keys (pa_components p))"
  by (induction keys) (auto simp: bt_contains_iff split: if_splits)

text \<open>
  C33: the errors of \<open>step_bounded\<close> are truthful. \<open>ComponentLimit\<close> means too many components. A component
  reported unexpected has a state but is not in the product. Every other error but \<open>StateLimit\<close> for a limit of
  zero arises at the first component, in order, that does not pass: one reported missing has no state, one
  reported unknown is in no state of its automaton, \<open>StateLimit\<close> means that the products of
  the next states up to it are more than \<open>max_product_states\<close> while the work so far is within
  \<open>max_work\<close>, and \<open>WorkLimit\<close> that the exact work up to it exceeds \<open>max_work\<close> while the products before it are
  within \<open>max_product_states\<close>. A valid state is refused only on account of a limit.
\<close>

theorem step_errors_truthful:
  assumes "limits_ok lim" "step_bounded p st ev m lim = Inl e"
  shows "(case e of
      ComponentLimit \<Rightarrow> length (pa_components p) > max_components lim \<or> length (ps_components st) > max_components lim
    | UnexpectedComponent c \<Rightarrow> ps_get st c \<noteq> None \<and> c \<notin> set (bt_keys (pa_components p))
    | _ \<Rightarrow> e = StateLimit \<and> max_product_states lim = 0 \<or>
        (\<exists>pre x post. pa_components p = pre @ x # post \<and> list_all (known st) pre \<and>
           products_within (max_product_states lim) 1 (map (branching st ev m) pre) \<and>
           (case e of
              MissingComponent c \<Rightarrow> c = fst x \<and> ps_get st c = None
            | UnknownState c \<Rightarrow> c = fst x \<and> (\<exists>s. ps_get st c = Some s \<and> \<not> contains_state (snd x) s)
            | StateLimit \<Rightarrow>
                known st x \<and> max_product_states lim < prod_list (map (branching st ev m) (pre @ [x])) \<and>
                step_work 0 1 (map (size_of st ev m) pre) + 2 * length (sa_transitions (snd x)) \<le> max_work lim
            | WorkLimit \<Rightarrow> ps_get st (fst x) \<noteq> None \<and>
                (max_work lim < step_work 0 1 (map (size_of st ev m) pre) + 2 * length (sa_transitions (snd x)) \<or>
                 known st x \<and> products_within (max_product_states lim) 1 (map (branching st ev m) (pre @ [x])) \<and>
                 max_work lim < step_work 0 1 (map (size_of st ev m) (pre @ [x])))
            | _ \<Rightarrow> False))) \<and>
    (valid_state p st \<longrightarrow> e = ComponentLimit \<or> e = StateLimit \<or> e = WorkLimit)"
proof (cases "length (pa_components p) > max_components lim \<or> length (ps_components st) > max_components lim \<or>
    max_product_states lim = 0")
  case True
  with assms(2) show ?thesis by (auto simp: step_bounded_def split: if_splits)
next
  case False
  with assms(2) consider "check_expected p (bt_keys (ps_components st)) = Inl e"
    | "step_components st ev m lim 0 (pa_components p) ([([], True, False)], [], 0) = Inl e"
    by (auto simp: step_bounded_def result_iffs)
  then show ?thesis
  proof cases
    case 1
    then obtain c where "e = UnexpectedComponent c" "c \<in> set (bt_keys (ps_components st))"
      "c \<notin> set (bt_keys (pa_components p))" by (blast dest: check_expected_Inl)
    moreover from this have "ps_get st c \<noteq> None"
      using bt_contains_iff [of "ps_components st" c] by (simp add: ps_get_def bt_contains_def)
    ultimately show ?thesis by (auto simp: valid_state_def)
  next
    case 2
    have "0 + length (pa_components p) \<le> usize_max" using False assms(1) by (simp add: limits_ok_def)
    from step_components_error [OF assms(1) this 2] obtain pre x post where at: "pa_components p = pre @ x # post"
      "list_all (known st) pre" "products_within (max_product_states lim) 1 (map (branching st ev m) pre)"
      "refused_at st ev m lim 0 1 0 pre x e" by auto
    have "valid_state p st \<longrightarrow> known st x" using at(1) by (auto simp: valid_state_def)
    with at(4) have "valid_state p st \<longrightarrow> e = StateLimit \<or> e = WorkLimit"
      by (auto simp: refused_at_def known_def split: step_error.splits)
    moreover have "e \<noteq> ComponentLimit" "\<And>c. e \<noteq> UnexpectedComponent c" using at(4) by (auto simp: refused_at_def)
    ultimately show ?thesis using at(2-4) unfolding at(1)
      by (cases e) (simp_all only: refused_at_def states_exceeded_def work_exceeded_def step_error.case
          add_0 mult_1 step_error.distinct, blast+)
  qed
qed

text \<open>The product states that can be reached from the initial state by unbounded steps on any events.\<close>

inductive pa_reaches :: "('c :: linorder, 's :: linorder, 'l) product_automaton \<Rightarrow> ('l \<Rightarrow> 'ev \<Rightarrow> bool) \<Rightarrow>
    ('c, 's) product_state \<Rightarrow> bool" for p m where
  reach_init: "pa_reaches p m (initial_state p)"
| reach_step: "pa_reaches p m st \<Longrightarrow> pa_step p st ev m = Inr r \<Longrightarrow> t \<in> pr_states r \<Longrightarrow> pa_reaches p m t"

inductive_cases pa_reaches_cases: "pa_reaches p m t"

lemma initial_state_valid:
  assumes "pa_ok p" shows "valid_state p (initial_state p)"
proof -
  have keys: "bt_keys (ps_components (initial_state p)) = bt_keys (pa_components p)"
    by (auto simp: initial_state_def bt_keys_def)
  have "ps_get (initial_state p) c = Some (sa_initial a)" if "(c, a) \<in> set (pa_components p)" for c a
  proof -
    have "distinct (bt_keys (ps_components (initial_state p)))"
      unfolding keys using assms bt_ok_distinct by (simp add: pa_ok_def)
    moreover have "(c, sa_initial a) \<in> set (ps_components (initial_state p))"
      using that by (force simp: initial_state_def)
    ultimately show ?thesis by (simp add: ps_get_def bt_get_map_of bt_keys_def)
  qed
  then have "list_all (known (initial_state p)) (pa_components p)"
    by (force simp: list_all_iff known_def contains_state_def)
  with keys assms show ?thesis by (auto simp: valid_state_def ps_ok_def pa_ok_def bt_ok_def)
qed

lemma pa_limits_ok: "limits_ok \<lparr>max_components = usize_max, max_product_states = usize_max, max_work = usize_max\<rparr>"
  by (simp add: limits_ok_def)

lemma pa_reaches_valid: "pa_reaches p m t \<Longrightarrow> pa_ok p \<Longrightarrow> valid_state p t"
proof (induction rule: pa_reaches.induct)
  case (reach_step st ev r t)
  then have valid: "valid_state p st" by simp
  then have "ps_ok st" by (simp add: valid_state_def)
  from step_bounded_iff_aux [OF reach_step.prems this pa_limits_ok, of ev m r] reach_step.hyps(2,3)
  have "product_of p (\<lambda>x v. v \<in> sr_states (component_step st ev m x)) t"
    by (auto simp: pa_step_def step_sets_def Let_def)
  then show ?case by (rule product_of_known [OF reach_step.prems valid])
qed (simp add: initial_state_valid)

text \<open>
  C32: a run of a product automaton never goes wrong. The initial state is valid, so is every state
  reached from it by unbounded steps on any sequence of events, and on all of them a
  further step succeeds whenever its counts fit in \<open>usize\<close>.
\<close>

theorem product_run_safe:
  assumes "pa_ok p" "pa_reaches p m st"
  shows "valid_state p st \<and> ((\<exists>r. pa_step p st ev m = Inr r) \<longleftrightarrow>
    length (pa_components p) \<le> usize_max \<and> products_within usize_max 1 (map (branching st ev m) (pa_components p)) \<and>
    step_work 0 1 (map (size_of st ev m) (pa_components p)) \<le> usize_max)"
proof -
  have valid: "valid_state p st" using pa_reaches_valid [OF assms(2,1)] .
  then have "ps_ok st" by (simp add: valid_state_def)
  from step_bounded_iff_aux [OF assms(1) this pa_limits_ok, of ev m] valid show ?thesis
    by (simp add: pa_step_def usize_max_def)
qed

section \<open>Classification\<close>

lemma classify_component_iff:
  assumes "lim \<le> usize_max"
  shows "classify_component st lim c a (acc, rej, w) = Inr r \<longleftrightarrow>
    known st (c, a) \<and> w + Suc (length (sa_transitions a)) \<le> lim \<and>
    r = (acc \<and> the (ps_get st c) \<in> sa_accepting a, rej \<or> the (ps_get st c) \<in> sa_rejecting a,
         w + Suc (length (sa_transitions a)))"
proof (cases "ps_get st c")
  case (Some cur)
  then show ?thesis using assms
    by (auto simp: classify_component_def known_def result_iffs bind_eq_Some_conv checked_add_Some_iff)
qed (simp add: classify_component_def known_def)

lemma classify_components_iff:
  assumes "lim \<le> usize_max" "w \<le> lim"
  shows "classify_components st lim cs (acc, rej, w) = Inr r \<longleftrightarrow>
    list_all (known st) cs \<and> w + sum_list (map (\<lambda>x. Suc (length (sa_transitions (snd x)))) cs) \<le> lim \<and>
    r = (acc \<and> (\<forall>x\<in>set cs. the (ps_get st (fst x)) \<in> sa_accepting (snd x)),
         rej \<or> (\<exists>x\<in>set cs. the (ps_get st (fst x)) \<in> sa_rejecting (snd x)),
         w + sum_list (map (\<lambda>x. Suc (length (sa_transitions (snd x)))) cs))"
  using assms(2)
proof (induction cs arbitrary: acc rej w)
  case (Cons x cs)
  obtain c a where x: "x = (c, a)" by fastforce
  let ?w = "w + Suc (length (sa_transitions a))"
  have "classify_components st lim (x # cs) (acc, rej, w) = Inr r \<longleftrightarrow> known st x \<and> ?w \<le> lim \<and>
    classify_components st lim cs (acc \<and> the (ps_get st c) \<in> sa_accepting a, rej \<or> the (ps_get st c) \<in> sa_rejecting a, ?w) = Inr r"
    by (auto simp: x bind_r_Inr_iff classify_component_iff [OF assms(1)])
  also have "\<dots> \<longleftrightarrow> known st x \<and> ?w \<le> lim \<and> list_all (known st) cs \<and>
    ?w + sum_list (map (\<lambda>x. Suc (length (sa_transitions (snd x)))) cs) \<le> lim \<and>
    r = ((acc \<and> the (ps_get st c) \<in> sa_accepting a) \<and> (\<forall>x\<in>set cs. the (ps_get st (fst x)) \<in> sa_accepting (snd x)),
         (rej \<or> the (ps_get st c) \<in> sa_rejecting a) \<or> (\<exists>x\<in>set cs. the (ps_get st (fst x)) \<in> sa_rejecting (snd x)),
         ?w + sum_list (map (\<lambda>x. Suc (length (sa_transitions (snd x)))) cs))"
    using Cons.IH by blast
  finally show ?case by (auto simp: x)
qed auto

lemma classify_state_bounded_iff:
  assumes "pa_ok p" "ps_ok st" "mw \<le> usize_max"
  shows "classify_state_bounded p st mc mw = Inr r \<longleftrightarrow>
    valid_state p st \<and> length (pa_components p) \<le> mc \<and>
    length (pa_components p) + sum_list (map (\<lambda>x. Suc (length (sa_transitions (snd x)))) (pa_components p)) \<le> mw \<and>
    r = \<lparr>pc_accepting = (\<forall>x\<in>set (pa_components p). the (ps_get st (fst x)) \<in> sa_accepting (snd x)),
         pc_rejecting = (\<exists>x\<in>set (pa_components p). the (ps_get st (fst x)) \<in> sa_rejecting (snd x)),
         pc_work = length (pa_components p) + sum_list (map (\<lambda>x. Suc (length (sa_transitions (snd x)))) (pa_components p))\<rparr>"
proof -
  let ?n = "length (ps_components st)"
  let ?sum = "sum_list (map (\<lambda>x. Suc (length (sa_transitions (snd x)))) (pa_components p))"
  have len: "?n = length (pa_components p)" if "valid_state p st"
    using that unfolding valid_state_def bt_keys_def by (metis length_map)
  have "classify_state_bounded p st mc mw = Inr r \<longleftrightarrow> length (pa_components p) \<le> mc \<and> ?n \<le> mc \<and> ?n \<le> mw \<and>
      set (bt_keys (ps_components st)) \<subseteq> set (bt_keys (pa_components p)) \<and>
      (\<exists>x. classify_components st mw (pa_components p) (True, False, ?n) = Inr x \<and>
        r = \<lparr>pc_accepting = fst x, pc_rejecting = fst (snd x), pc_work = snd (snd x)\<rparr>)"
    by (auto simp: classify_state_bounded_def Let_def bind_r_Inr_iff check_expected_iff)
  also have "\<dots> \<longleftrightarrow> length (pa_components p) \<le> mc \<and> ?n \<le> mc \<and> valid_state p st \<and> ?n + ?sum \<le> mw \<and>
      r = \<lparr>pc_accepting = (\<forall>x\<in>set (pa_components p). the (ps_get st (fst x)) \<in> sa_accepting (snd x)),
         pc_rejecting = (\<exists>x\<in>set (pa_components p). the (ps_get st (fst x)) \<in> sa_rejecting (snd x)), pc_work = ?n + ?sum\<rparr>"
  proof (cases "?n \<le> mw")
    case True
    show ?thesis unfolding classify_components_iff [OF assms(3) True]
      using True valid_state_iff [OF assms(1,2)] by (simp only: simp_thms fst_conv snd_conv ex_simps split_paired_Ex prod.inject) blast
  qed auto
  finally show ?thesis using len by auto
qed

text \<open>
  C34: \<open>classify_state_bounded\<close> succeeds exactly on the valid states that fit the two limits. It then
  reports acceptance when every component is in an accepting state, rejection when some
  component is in a rejecting state, and the exact amount of work it accounted for.
\<close>

theorem classify_correct:
  assumes "pa_ok p" "ps_ok st" "mw \<le> usize_max"
  shows "classify_state_bounded p st mc mw = Inr r \<longleftrightarrow>
    valid_state p st \<and> length (pa_components p) \<le> mc \<and>
    length (pa_components p) + (\<Sum>x\<leftarrow>pa_components p. length (sa_transitions (snd x)) + 1) \<le> mw \<and>
    (pc_accepting r \<longleftrightarrow> product_of p (\<lambda>x v. v \<in> sa_accepting (snd x)) st) \<and>
    (pc_rejecting r \<longleftrightarrow> \<not> product_of p (\<lambda>x v. v \<notin> sa_rejecting (snd x)) st) \<and>
    pc_work r = length (pa_components p) + (\<Sum>x\<leftarrow>pa_components p. length (sa_transitions (snd x)) + 1)"
proof (cases "valid_state p st")
  case True
  have "product_of p P st \<longleftrightarrow> (\<forall>x\<in>set (pa_components p). P x (the (ps_get st (fst x))))" for P
    using True by (fastforce simp: product_of_def valid_state_def list_all_iff known_def)
  with True show ?thesis by (cases r) (auto simp: classify_state_bounded_iff [OF assms])
qed (simp add: classify_state_bounded_iff [OF assms])

text \<open>
  Stepping and classifying agree. For a state returned by a successful step, the classification
  is accepting exactly when the step listed the state as accepting, and a state whose classification
  is rejecting was listed as rejecting by the step.
\<close>

theorem step_classify_agree:
  assumes "pa_ok p" "ps_ok st" "limits_ok lim" "step_bounded p st ev m lim = Inr r" "t \<in> pr_states r"
    and "mw \<le> usize_max" "classify_state_bounded p t mc mw = Inr k"
  shows "(pc_accepting k \<longleftrightarrow> t \<in> pr_accepting r) \<and> (pc_rejecting k \<longrightarrow> t \<in> pr_rejecting r)"
proof -
  have r: "r = step_sets p st ev m" using assms(4) by (simp add: step_bounded_iff_aux [OF assms(1-3)])
  then have t: "product_of p (\<lambda>x v. v \<in> sr_states (component_step st ev m x)) t"
    using assms(5) by (simp add: step_sets_def Let_def)
  then have "ps_ok t" by (rule product_of_ok [OF assms(1)])
  note k = classify_state_bounded_iff [OF assms(1) this assms(6), of mc k, THEN iffD1, OF assms(7)]
  have get: "\<exists>v. ps_get t (fst x) = Some v \<and> v \<in> sr_states (component_step st ev m x)" if "x \<in> set (pa_components p)" for x
    using t that by (auto simp: product_of_def)
  have keys: "bt_keys (ps_components t) = bt_keys (pa_components p)" using t by (simp add: product_of_def)
  have "product_of p (\<lambda>x v. v \<in> sr_accepting (component_step st ev m x)) t \<longleftrightarrow>
      (\<forall>x\<in>set (pa_components p). the (ps_get t (fst x)) \<in> sa_accepting (snd x))"
    unfolding product_of_def component_step_def sa_step_accepting using get keys
    by (fastforce simp: component_step_def)
  moreover have "\<not> product_of p (\<lambda>x v. v \<notin> sr_rejecting (component_step st ev m x)) t"
    if "\<exists>x\<in>set (pa_components p). the (ps_get t (fst x)) \<in> sa_rejecting (snd x)"
  proof -
    from that obtain x where x: "x \<in> set (pa_components p)" "the (ps_get t (fst x)) \<in> sa_rejecting (snd x)" by blast
    with get [OF x(1)] obtain v where "ps_get t (fst x) = Some v" "v \<in> sr_states (component_step st ev m x)"
      "v \<in> sa_rejecting (snd x)" by auto
    with sa_step_rejecting [of "snd x" _ ev m] x(1) show ?thesis
      by (fastforce simp: product_of_def component_step_def)
  qed
  ultimately show ?thesis using t k by (simp add: r step_sets_def Let_def)
qed

section \<open>An example\<close>

text \<open>Two copies of an automaton that moves from 0 to 1 or 2 on event 7 and accepts in 1; two components named 3 and 5.\<close>

definition sample_automaton :: "(nat, nat) symbolic_automaton" where
  "sample_automaton = mark_accepting 1 (add_transition 0 2 7 (add_transition 0 1 7 (sa_new 0 Stay)))"

definition sample_product :: "(nat, nat, nat) product_automaton" where
  "sample_product = pa_insert 3 sample_automaton (pa_insert 5 sample_automaton pa_new)"

abbreviation sample_limits :: product_step_limits where
  "sample_limits \<equiv> \<lparr>max_components = 2, max_product_states = 4, max_work = 18\<rparr>"

lemma sample_components: "pa_components sample_product = [(3, sample_automaton), (5, sample_automaton)]"
  by (simp add: sample_product_def pa_insert_def pa_new_def)

lemma sample_step: "sa_step sample_automaton 0 7 (=) =
  \<lparr>sr_states = {1, 2}, sr_accepting = {1}, sr_rejecting = {},
   sr_trace = [\<lparr>ts_from = 0, ts_to = 1, ts_label = 7\<rparr>, \<lparr>ts_from = 0, ts_to = 2, ts_label = 7\<rparr>]\<rparr>"
  by (auto simp: sa_step_eq Let_def enabled_def sample_automaton_def mark_accepting_def add_transition_def sa_new_def)

lemma sample_initial: "ps_get (initial_state sample_product) c = (if c = 3 \<or> c = 5 then Some 0 else None)"
  by (auto simp: initial_state_def ps_get_def sample_components)
    (simp_all add: sample_automaton_def mark_accepting_def add_transition_def sa_new_def)

lemma sample_length: "length (sa_transitions sample_automaton) = 2"
  by (simp add: sample_automaton_def mark_accepting_def add_transition_def sa_new_def)

lemma sample_final: "sa_accepting sample_automaton = {1}" "sa_rejecting sample_automaton = {}"
  by (simp_all add: sample_automaton_def mark_accepting_def add_transition_def sa_new_def)

lemma sample_keys: "bt_keys (ps_components (initial_state sample_product)) = [3, 5]"
  by (simp add: bt_keys_def initial_state_def sample_components)

lemma ps_get_state: "ps_get (ProductState xs) c = bt_get xs c"
  by (simp add: ps_get_def)

lemma sample_ok:
  "pa_ok sample_product" "ps_ok (initial_state sample_product)" "limits_ok sample_limits"
  by (simp_all add: pa_ok_def ps_ok_def initial_state_def sample_components bt_ok_def bt_keys_def limits_ok_def usize_max_def)

lemma sample_sizes:
  "map (branching (initial_state sample_product) 7 (=)) (pa_components sample_product) = [2, 2]"
  "map (size_of (initial_state sample_product) 7 (=)) (pa_components sample_product) = [(2, 2), (2, 2)]"
  by (simp_all add: sample_components size_of_def branching_def component_step_def sample_initial sample_step sample_length)

lemma sample_valid: "valid_state sample_product (initial_state sample_product)"
  by (rule initial_state_valid [OF sample_ok(1)])

lemma sample_bounded: "step_bounded sample_product (initial_state sample_product) 7 (=) sample_limits =
  Inr (step_sets sample_product (initial_state sample_product) 7 (=))"
  using step_bounded_iff_aux [OF sample_ok, of 7 "(=)"] sample_valid by (simp add: sample_sizes) (simp add: sample_components)

theorem product_step_correct_witness:
  "\<exists>r. step_bounded sample_product (initial_state sample_product) 7 (=) sample_limits = Inr r \<and>
     length (pr_trace r) = 4 \<and> ProductState [(3, 1), (5, 2)] \<in> pr_states r \<and> ProductState [(3, 1), (5, 1)] \<in> pr_accepting r"
proof -
  note facts = product_step_correct [OF sample_ok sample_bounded]
  let ?r = "step_sets sample_product (initial_state sample_product) 7 (=)"
  have "length (pr_trace ?r) = 4" using facts
    by (simp add: sample_components extend_trace_def component_step_def sample_initial sample_step)
  moreover have "ProductState [(3, 1), (5, 2)] \<in> pr_states ?r" "ProductState [(3, 1), (5, 1)] \<in> pr_accepting ?r" using facts
    by (simp_all add: product_of_def sample_components component_step_def sample_initial sample_step bt_keys_def ps_get_state)
  ultimately show ?thesis using sample_bounded by blast
qed

theorem step_bounded_within_limits_witness:
  "(\<exists>r. step_bounded sample_product (initial_state sample_product) 7 (=) sample_limits = Inr r) \<and>
   \<not> (\<exists>r. step_bounded sample_product (initial_state sample_product) 7 (=)
        \<lparr>max_components = 2, max_product_states = 4, max_work = 17\<rparr> = Inr r)"
proof -
  have "limits_ok \<lparr>max_components = 2, max_product_states = 4, max_work = 17\<rparr>" by (simp add: limits_ok_def usize_max_def)
  from step_bounded_within_limits [OF sample_ok(1,2) this, of 7 "(=)"]
    step_bounded_within_limits [OF sample_ok, of 7 "(=)"] sample_valid
  show ?thesis by (simp add: sample_sizes) (simp add: sample_components)
qed

theorem step_errors_truthful_witness:
  "step_bounded sample_product (ProductState [(3, 9), (5, 0)]) 7 (=) sample_limits = Inl (UnknownState 3) \<and>
   \<not> valid_state sample_product (ProductState [(3, 9), (5, 0)])"
proof -
  have "step_bounded sample_product (ProductState [(3, 9), (5, 0)]) 7 (=) sample_limits = Inl (UnknownState 3)"
    by (simp add: step_bounded_def sample_components bt_keys_def bt_contains_def step_component_def ps_get_state
        checked_mul_def checked_add_def usize_max_def sample_length)
      (simp add: contains_state_def sample_automaton_def mark_accepting_def add_transition_def sa_new_def)
  with step_errors_truthful [OF sample_ok(3) this] show ?thesis by simp
qed

theorem product_run_safe_witness:
  "pa_reaches sample_product (=) (ProductState [(3, 1), (5, 2)]) \<and>
   valid_state sample_product (ProductState [(3, 1), (5, 2)])"
proof -
  have "pa_step sample_product (initial_state sample_product) 7 (=) =
      Inr (step_sets sample_product (initial_state sample_product) 7 (=))"
    using step_bounded_iff_aux [OF sample_ok(1,2) pa_limits_ok, of 7 "(=)"] sample_valid
    by (simp add: sample_sizes pa_step_def) (simp add: sample_components usize_max_def)
  moreover have "ProductState [(3, 1), (5, 2)] \<in> pr_states (step_sets sample_product (initial_state sample_product) 7 (=))"
    by (simp add: step_sets_def Let_def product_of_def sample_components component_step_def sample_initial sample_step
        bt_keys_def ps_get_state)
  ultimately have "pa_reaches sample_product (=) (ProductState [(3, 1), (5, 2)])"
    by (rule reach_step [OF reach_init])
  with product_run_safe [OF sample_ok(1) this] show ?thesis by blast
qed

theorem classify_correct_witness:
  "\<exists>r. classify_state_bounded sample_product (initial_state sample_product) 2 8 = Inr r \<and>
     \<not> pc_accepting r \<and> \<not> pc_rejecting r \<and> pc_work r = 8"
proof (intro exI conjI)
  let ?r = "\<lparr>pc_accepting = False, pc_rejecting = False, pc_work = 8\<rparr>"
  show "classify_state_bounded sample_product (initial_state sample_product) 2 8 = Inr ?r"
    by (subst classify_correct [OF sample_ok(1,2)])
      (auto simp: usize_max_def sample_valid sample_length product_of_def sample_initial sample_final
        sample_keys [unfolded bt_keys_def] bt_keys_def sample_components)
qed simp_all

theorem step_classify_agree_witness:
  "\<exists>r k. step_bounded sample_product (initial_state sample_product) 7 (=) sample_limits = Inr r \<and>
     classify_state_bounded sample_product (ProductState [(3, 1), (5, 1)]) 2 8 = Inr k \<and>
     pc_accepting k \<and> ProductState [(3, 1), (5, 1)] \<in> pr_accepting r"
proof -
  let ?st = "ProductState [(3, 1), (5, 1)] :: (nat, nat) product_state"
  let ?r = "step_sets sample_product (initial_state sample_product) 7 (=)"
  have t: "?st \<in> pr_states ?r"
    by (simp add: step_sets_def Let_def product_of_def sample_components component_step_def sample_initial sample_step
        bt_keys_def ps_get_state)
  have ok: "ps_ok ?st" by (simp add: ps_ok_def bt_ok_def bt_keys_def)
  have "valid_state sample_product ?st"
    by (simp add: valid_state_def ps_ok_def bt_ok_def sample_components bt_keys_def known_def ps_get_state)
      (simp add: contains_state_def sample_automaton_def mark_accepting_def add_transition_def sa_new_def)
  then have k: "classify_state_bounded sample_product ?st 2 8 = Inr \<lparr>pc_accepting = True, pc_rejecting = False, pc_work = 8\<rparr>"
    by (subst classify_state_bounded_iff [OF sample_ok(1) ok])
      (auto simp: usize_max_def sample_components sample_length sample_final ps_get_state)
  have "(8 :: nat) \<le> usize_max" by (simp add: usize_max_def)
  from step_classify_agree [OF sample_ok sample_bounded t this k] k sample_bounded show ?thesis by auto
qed

end
