(* ===== verification/Artifacts.thy ===== *)
theory Artifacts
  imports Prelude "HOL-Library.FSet" "HOL-Library.List_Lexorder" "HOL-Library.Char_ord"
    "HOL-Library.Product_Lexorder" "HOL-Library.Finite_Map"
begin

text \<open>
  The data of \<open>etas_utils/src/pipeline\<close>: \<open>unit.rs\<close>, \<open>artifact.rs\<close>, \<open>preservation.rs\<close>, \<open>analysis.rs\<close>.
  A \<open>BTreeSet<ArtifactRef>\<close> is a finite set, iterated in the derived order of \<open>ArtifactRef\<close>, which is
  lexicographic in the fields and puts the variants of \<open>ArtifactScope\<close> in their order of
  declaration. \<open>&'static str\<close> is \<open>string\<close>, compared byte by byte.
\<close>

section \<open>Units\<close>

datatype unit_kind_key = UnitKindKey (ukk_namespace: string) (ukk_name: string)

datatype unit_key = UnitKey (uk_kind: unit_kind_key) (uk_id: "64 word")

datatype unit_filter_key = UnitFilterKey (ufk_namespace: string) (ufk_name: string)

datatype artifact_key = ArtifactKey (ak_namespace: string) (ak_name: string)

datatype unit_selector =
    Kind unit_kind_key
  | Affected unit_kind_key
  | AffectedArtifact unit_kind_key artifact_key "unit_filter_key option"

datatype unit_order =
    Stable
  | SourceOrder
  | DependencyOrder
  | ReverseDependencyOrder
  | AffectedFirst
  | Custom string

datatype pass_scope = GlobalPass | UnitPass unit_kind_key

section \<open>Artifacts\<close>

datatype artifact_scope = Global | Unit unit_key | UnitKind unit_kind_key

datatype artifact_ref = ArtifactRef (ar_key: artifact_key) (ar_scope: artifact_scope)

definition ar_global :: "artifact_key \<Rightarrow> artifact_ref" where
  "ar_global key = ArtifactRef key Global"

definition ar_unit :: "artifact_key \<Rightarrow> unit_key \<Rightarrow> artifact_ref" where
  "ar_unit key u = ArtifactRef key (Unit u)"

definition ar_unit_kind :: "artifact_key \<Rightarrow> unit_kind_key \<Rightarrow> artifact_ref" where
  "ar_unit_kind key kind = ArtifactRef key (UnitKind kind)"

section \<open>The derived orders\<close>

text \<open>Each by way of a lexicographic tuple; the variants of an enum by their position.\<close>

definition unit_kind_tuple :: "unit_kind_key \<Rightarrow> string \<times> string" where
  "unit_kind_tuple k = (ukk_namespace k, ukk_name k)"

lemma unit_kind_tuple_inj: "inj unit_kind_tuple"
  by (auto simp: inj_def unit_kind_tuple_def intro: unit_kind_key.expand)

instantiation unit_kind_key :: linorder
begin

definition less_eq_unit_kind_key :: "unit_kind_key \<Rightarrow> unit_kind_key \<Rightarrow> bool" where
  "less_eq_unit_kind_key a b \<longleftrightarrow> unit_kind_tuple a \<le> unit_kind_tuple b"

definition less_unit_kind_key :: "unit_kind_key \<Rightarrow> unit_kind_key \<Rightarrow> bool" where
  "less_unit_kind_key a b \<longleftrightarrow> unit_kind_tuple a < unit_kind_tuple b"

instance
  by intro_classes
    (auto simp: less_eq_unit_kind_key_def less_unit_kind_key_def intro: order_trans dest: injD [OF unit_kind_tuple_inj])

end

definition unit_tuple :: "unit_key \<Rightarrow> unit_kind_key \<times> 64 word" where
  "unit_tuple u = (uk_kind u, uk_id u)"

lemma unit_tuple_inj: "inj unit_tuple"
  by (auto simp: inj_def unit_tuple_def intro: unit_key.expand)

instantiation unit_key :: linorder
begin

definition less_eq_unit_key :: "unit_key \<Rightarrow> unit_key \<Rightarrow> bool" where
  "less_eq_unit_key a b \<longleftrightarrow> unit_tuple a \<le> unit_tuple b"

definition less_unit_key :: "unit_key \<Rightarrow> unit_key \<Rightarrow> bool" where
  "less_unit_key a b \<longleftrightarrow> unit_tuple a < unit_tuple b"

instance
  by intro_classes
    (auto simp: less_eq_unit_key_def less_unit_key_def intro: order_trans dest: injD [OF unit_tuple_inj])

end

definition artifact_key_tuple :: "artifact_key \<Rightarrow> string \<times> string" where
  "artifact_key_tuple k = (ak_namespace k, ak_name k)"

lemma artifact_key_tuple_inj: "inj artifact_key_tuple"
  by (auto simp: inj_def artifact_key_tuple_def intro: artifact_key.expand)

instantiation artifact_key :: linorder
begin

definition less_eq_artifact_key :: "artifact_key \<Rightarrow> artifact_key \<Rightarrow> bool" where
  "less_eq_artifact_key a b \<longleftrightarrow> artifact_key_tuple a \<le> artifact_key_tuple b"

definition less_artifact_key :: "artifact_key \<Rightarrow> artifact_key \<Rightarrow> bool" where
  "less_artifact_key a b \<longleftrightarrow> artifact_key_tuple a < artifact_key_tuple b"

instance
  by intro_classes
    (auto simp: less_eq_artifact_key_def less_artifact_key_def intro: order_trans dest: injD [OF artifact_key_tuple_inj])

end

fun scope_tuple :: "artifact_scope \<Rightarrow> nat \<times> unit_key list \<times> unit_kind_key list" where
  "scope_tuple Global = (0, [], [])"
| "scope_tuple (Unit u) = (1, [u], [])"
| "scope_tuple (UnitKind k) = (2, [], [k])"

lemma scope_tuple_inj: "inj scope_tuple"
proof (rule injI)
  fix a b show "scope_tuple a = scope_tuple b \<Longrightarrow> a = b" by (cases a; cases b) auto
qed

instantiation artifact_scope :: linorder
begin

definition less_eq_artifact_scope :: "artifact_scope \<Rightarrow> artifact_scope \<Rightarrow> bool" where
  "less_eq_artifact_scope a b \<longleftrightarrow> scope_tuple a \<le> scope_tuple b"

definition less_artifact_scope :: "artifact_scope \<Rightarrow> artifact_scope \<Rightarrow> bool" where
  "less_artifact_scope a b \<longleftrightarrow> scope_tuple a < scope_tuple b"

instance
  by intro_classes
    (auto simp: less_eq_artifact_scope_def less_artifact_scope_def intro: order_trans dest: injD [OF scope_tuple_inj])

end

definition artifact_ref_tuple :: "artifact_ref \<Rightarrow> artifact_key \<times> artifact_scope" where
  "artifact_ref_tuple r = (ar_key r, ar_scope r)"

lemma artifact_ref_tuple_inj: "inj artifact_ref_tuple"
  by (auto simp: inj_def artifact_ref_tuple_def intro: artifact_ref.expand)

instantiation artifact_ref :: linorder
begin

definition less_eq_artifact_ref :: "artifact_ref \<Rightarrow> artifact_ref \<Rightarrow> bool" where
  "less_eq_artifact_ref a b \<longleftrightarrow> artifact_ref_tuple a \<le> artifact_ref_tuple b"

definition less_artifact_ref :: "artifact_ref \<Rightarrow> artifact_ref \<Rightarrow> bool" where
  "less_artifact_ref a b \<longleftrightarrow> artifact_ref_tuple a < artifact_ref_tuple b"

instance
  by intro_classes
    (auto simp: less_eq_artifact_ref_def less_artifact_ref_def intro: order_trans dest: injD [OF artifact_ref_tuple_inj])

end

section \<open>Artifact sets\<close>

type_synonym artifact_set = "artifact_ref fset"

definition as_new :: artifact_set where
  "as_new = {||}"

definition as_from_refs :: "artifact_ref list \<Rightarrow> artifact_set" where
  "as_from_refs refs = fset_of_list refs"

definition as_from_keys :: "artifact_key list \<Rightarrow> artifact_set" where
  "as_from_keys keys = fset_of_list (map ar_global keys)"

definition as_one :: "artifact_key \<Rightarrow> artifact_set" where
  "as_one key = as_from_keys [key]"

definition as_insert_ref :: "artifact_ref \<Rightarrow> artifact_set \<Rightarrow> bool \<times> artifact_set" where
  "as_insert_ref artifact s = (artifact |\<notin>| s, finsert artifact s)"

definition as_insert :: "artifact_key \<Rightarrow> artifact_set \<Rightarrow> bool \<times> artifact_set" where
  "as_insert key s = as_insert_ref (ar_global key) s"

definition as_contains_ref :: "artifact_set \<Rightarrow> artifact_ref \<Rightarrow> bool" where
  "as_contains_ref s artifact \<longleftrightarrow> artifact |\<in>| s"

definition as_contains :: "artifact_set \<Rightarrow> artifact_key \<Rightarrow> bool" where
  "as_contains s key \<longleftrightarrow> as_contains_ref s (ar_global key)"

definition as_is_empty :: "artifact_set \<Rightarrow> bool" where
  "as_is_empty s \<longleftrightarrow> s = {||}"

definition as_len :: "artifact_set \<Rightarrow> nat" where
  "as_len s = fcard s"

definition as_iter :: "artifact_set \<Rightarrow> artifact_ref list" where
  "as_iter s = sorted_list_of_fset s"

definition as_iter_keys :: "artifact_set \<Rightarrow> artifact_key list" where
  "as_iter_keys s = map ar_key (as_iter s)"

definition as_extend :: "artifact_set \<Rightarrow> artifact_set \<Rightarrow> artifact_set" where
  "as_extend s other = s |\<union>| fset_of_list (as_iter other)"

definition as_difference :: "artifact_set \<Rightarrow> artifact_set \<Rightarrow> artifact_set" where
  "as_difference s preserved = s |-| preserved"

lemma fset_as_iter [simp]: "fset_of_list (as_iter s) = s"
  by (simp add: as_iter_def)

lemma set_as_iter [simp]: "set (as_iter s) = fset s"
  by (simp add: as_iter_def)

lemma as_extend_eq [simp]: "as_extend s other = s |\<union>| other"
  by (simp add: as_extend_def)

section \<open>What a pass preserves\<close>

datatype preserved_artifacts = PreserveAll | PreserveNone | PreserveSome artifact_set

definition preserved_default :: preserved_artifacts where
  "preserved_default = PreserveAll"

definition preserves :: "preserved_artifacts \<Rightarrow> artifact_key \<Rightarrow> bool" where
  "preserves p key = (case p of PreserveAll \<Rightarrow> True | PreserveNone \<Rightarrow> False | PreserveSome keys \<Rightarrow> as_contains keys key)"

definition preserved_set :: "preserved_artifacts \<Rightarrow> artifact_set option" where
  "preserved_set p = (case p of PreserveSome keys \<Rightarrow> Some keys | PreserveAll \<Rightarrow> None | PreserveNone \<Rightarrow> None)"

section \<open>The analysis cache\<close>

text \<open>
  A \<open>Box<dyn Any>\<close> is a value of \<open>'v\<close>; \<open>downcast\<close> gives the value back at the type a caller asks for,
  or \<open>None\<close>. An analysis is its key with its function of the context.
\<close>

type_synonym 'v analysis_cache = "(artifact_key, 'v) fmap"

record ('c, 'o) analysis =
  an_key :: artifact_key
  an_run :: "'c \<Rightarrow> 'o"

definition ac_new :: "'v analysis_cache" where
  "ac_new = fmempty"

definition ac_contains :: "'v analysis_cache \<Rightarrow> artifact_key \<Rightarrow> bool" where
  "ac_contains cache key \<longleftrightarrow> key |\<in>| fmdom cache"

definition ac_insert :: "('a \<Rightarrow> 'v) \<Rightarrow> artifact_key \<Rightarrow> 'a \<Rightarrow> 'v analysis_cache \<Rightarrow> 'v analysis_cache" where
  "ac_insert box key x cache = fmupd key (box x) cache"

definition ac_get :: "('v \<Rightarrow> 'a option) \<Rightarrow> 'v analysis_cache \<Rightarrow> artifact_key \<Rightarrow> 'a option" where
  "ac_get downcast cache key = Option.bind (fmlookup cache key) downcast"

definition ac_get_mut :: "('v \<Rightarrow> 'a option) \<Rightarrow> ('a \<Rightarrow> 'v) \<Rightarrow> ('a \<Rightarrow> 'a) \<Rightarrow> 'v analysis_cache \<Rightarrow> artifact_key \<Rightarrow>
    'a option \<times> 'v analysis_cache" where
  "ac_get_mut downcast box f cache key =
     (case Option.bind (fmlookup cache key) downcast of
        None \<Rightarrow> (None, cache)
      | Some x \<Rightarrow> (Some x, fmupd key (box (f x)) cache))"

text \<open>\<open>None\<close> is the panic of \<open>expect\<close>: the cached value has another type.\<close>

definition get_or_run :: "('v \<Rightarrow> 'o option) \<Rightarrow> ('o \<Rightarrow> 'v) \<Rightarrow> ('c, 'o) analysis \<Rightarrow> 'c \<Rightarrow> 'v analysis_cache \<Rightarrow>
    ('o \<times> 'v analysis_cache) option" where
  "get_or_run downcast box analysis context cache =
     (let key = an_key analysis;
          cache = (if \<not> ac_contains cache key then ac_insert box key (an_run analysis context) cache else cache)
      in case ac_get downcast cache key of None \<Rightarrow> None | Some x \<Rightarrow> Some (x, cache))"

fun remove_entries :: "artifact_ref list \<Rightarrow> 'v analysis_cache \<Rightarrow> 'v analysis_cache" where
  "remove_entries [] cache = cache"
| "remove_entries (artifact # artifacts) cache = remove_entries artifacts (fmdrop (ar_key artifact) cache)"

definition ac_invalidate :: "preserved_artifacts \<Rightarrow> 'v analysis_cache \<Rightarrow> artifact_set \<times> 'v analysis_cache" where
  "ac_invalidate preserved cache =
     (case preserved of
        PreserveAll \<Rightarrow> (as_new, cache)
      | PreserveNone \<Rightarrow> (ar_global |`| fmdom cache, fmempty)
      | PreserveSome keys \<Rightarrow>
          (let invalidated = ar_global |`| ffilter (\<lambda>key. \<not> as_contains keys key) (fmdom cache)
           in (invalidated, remove_entries (as_iter invalidated) cache)))"

lemma remove_entries_lookup:
  "fmlookup (remove_entries rs cache) k = (if k \<in> ar_key ` set rs then None else fmlookup cache k)"
  by (induction rs arbitrary: cache) (auto simp: fmlookup_drop)

lemma ar_key_global [simp]: "ar_key (ar_global k) = k"
  by (simp add: ar_global_def)

lemma ac_invalidate_lookup:
  "fmlookup (snd (ac_invalidate p cache)) k = (if preserves p k then fmlookup cache k else None)"
  by (cases p) (auto simp: ac_invalidate_def preserves_def Let_def remove_entries_lookup image_iff)

lemma ac_invalidate_set:
  "artifact |\<in>| fst (ac_invalidate p cache) \<longleftrightarrow>
     (\<exists>k. artifact = ar_global k \<and> fmlookup cache k \<noteq> None \<and> \<not> preserves p k)"
  by (cases p) (auto simp: ac_invalidate_def preserves_def Let_def as_new_def fmlookup_dom_iff)

text \<open>
  C40: the analysis cache computes each analysis at most once between invalidations, and an
  invalidation drops exactly what is not preserved. \<open>get_or_run\<close> returns the cached value if there is
  one and otherwise the result of running the analysis, which it stores; asking again gives the
  same value whatever the context, and no other entry changes. \<open>invalidate\<close> keeps the entries of
  the preserved keys, removes all others and returns the global references of exactly those, and
  after it a preserved analysis is not run again.
\<close>

theorem analysis_cache_correct:
  assumes "\<forall>x. downcast (box x) = Some x"
  shows "(\<forall>k. fmlookup cache k = None \<longrightarrow>
      get_or_run downcast box \<lparr>an_key = k, an_run = f\<rparr> c cache = Some (f c, fmupd k (box (f c)) cache)) \<and>
    (\<forall>k v x. fmlookup cache k = Some v \<and> downcast v = Some x \<longrightarrow>
      get_or_run downcast box \<lparr>an_key = k, an_run = f\<rparr> c cache = Some (x, cache)) \<and>
    (\<forall>k v. fmlookup cache k = Some v \<and> downcast v = None \<longrightarrow>
      get_or_run downcast box \<lparr>an_key = k, an_run = f\<rparr> c cache = None) \<and>
    (\<forall>a x cache' c'. get_or_run downcast box a c cache = Some (x, cache') \<longrightarrow>
      get_or_run downcast box a c' cache' = Some (x, cache')) \<and>
    (\<forall>p k. fmlookup (snd (ac_invalidate p cache)) k = (if preserves p k then fmlookup cache k else None)) \<and>
    (\<forall>p. fst (ac_invalidate p cache) = ar_global |`| (fmdom cache |-| fmdom (snd (ac_invalidate p cache))))"
proof (intro conjI allI)
  fix p
  show "fst (ac_invalidate p cache) = ar_global |`| (fmdom cache |-| fmdom (snd (ac_invalidate p cache)))"
    by (rule fset_eqI) (auto simp: ac_invalidate_set fmlookup_dom_iff ac_invalidate_lookup split: if_splits)
qed (auto simp: get_or_run_def ac_contains_def ac_get_def ac_insert_def assms Let_def fmlookup_dom_iff
    ac_invalidate_lookup split: option.splits bind_splits if_splits)

theorem analysis_cache_correct_witness:
  "get_or_run Some (\<lambda>x. x) \<lparr>an_key = ArtifactKey ''a'' ''b'', an_run = length\<rparr> [True, False]
     (fmempty :: nat analysis_cache) = Some (2, fmupd (ArtifactKey ''a'' ''b'') 2 fmempty) \<and>
   fst (ac_invalidate PreserveNone (fmupd (ArtifactKey ''a'' ''b'') (2 :: nat) fmempty)) =
     {|ar_global (ArtifactKey ''a'' ''b'')|}"
proof -
  have "get_or_run Some (\<lambda>x. x) \<lparr>an_key = ArtifactKey ''a'' ''b'', an_run = length\<rparr> [True, False]
     (fmempty :: nat analysis_cache) = Some (length [True, False], fmupd (ArtifactKey ''a'' ''b'') (length [True, False]) fmempty)"
    using analysis_cache_correct [of Some "\<lambda>x. x" fmempty length "[True, False]"] by simp
  moreover have "fst (ac_invalidate PreserveNone (fmupd (ArtifactKey ''a'' ''b'') (2 :: nat) fmempty)) =
     {|ar_global (ArtifactKey ''a'' ''b'')|}"
    by (simp add: ac_invalidate_def)
  ultimately show ?thesis by (simp add: numeral_2_eq_2)
qed

end
