(* ===== verification/PassManager.thy ===== *)
theory PassManager
  imports Artifacts
begin

text \<open>
  The pass manager of \<open>etas_utils/src/pipeline\<close>: \<open>config.rs\<close>, \<open>execution.rs\<close>, \<open>pass.rs\<close>, \<open>result.rs\<close>,
  \<open>timing.rs\<close>, \<open>definition.rs\<close>, \<open>adapter.rs\<close> and \<open>manager.rs\<close>. The client's objects are parameters: a
  pass is a value of \<open>'p\<close>, an instrumentation hook of \<open>'h\<close>, a cached analysis of \<open>'v\<close>, the
  compilation context of \<open>'c\<close>, and the record \<open>client\<close> holds their methods. A \<open>Box<dyn Pass>\<close> is
  an address into a store of passes, so that running a pipeline changes the passes and not the shape
  of the pipeline. What the environment answers, a checkpoint of the execution control or the
  time elapsed, is a function of the number of questions asked before. The counters of
  \<open>PipelineStats\<close> are \<open>u32\<close> and wrap.
\<close>

section \<open>Configuration\<close>

record pipeline_config =
  cf_enabled :: "string fset"
  cf_disabled :: "string fset"
  cf_stop_before :: "string option"
  cf_stop_after :: "string option"
  cf_fail_fast :: bool
  cf_collect_timing :: bool
  cf_collect_stats :: bool

definition config_default :: pipeline_config where
  "config_default = \<lparr>cf_enabled = {||}, cf_disabled = {||}, cf_stop_before = None, cf_stop_after = None,
     cf_fail_fast = False, cf_collect_timing = False, cf_collect_stats = False\<rparr>"

definition enable_only :: "string \<Rightarrow> pipeline_config \<Rightarrow> pipeline_config" where
  "enable_only pass c = c\<lparr>cf_enabled := finsert pass (cf_enabled c)\<rparr>"

definition disable :: "string \<Rightarrow> pipeline_config \<Rightarrow> pipeline_config" where
  "disable pass c = c\<lparr>cf_disabled := finsert pass (cf_disabled c)\<rparr>"

definition stop_before :: "string \<Rightarrow> pipeline_config \<Rightarrow> pipeline_config" where
  "stop_before pass c = c\<lparr>cf_stop_before := Some pass\<rparr>"

definition stop_after :: "string \<Rightarrow> pipeline_config \<Rightarrow> pipeline_config" where
  "stop_after pass c = c\<lparr>cf_stop_after := Some pass\<rparr>"

definition with_timing :: "bool \<Rightarrow> pipeline_config \<Rightarrow> pipeline_config" where
  "with_timing enabled c = c\<lparr>cf_collect_timing := enabled\<rparr>"

definition with_stats :: "bool \<Rightarrow> pipeline_config \<Rightarrow> pipeline_config" where
  "with_stats enabled c = c\<lparr>cf_collect_stats := enabled\<rparr>"

definition should_run :: "pipeline_config \<Rightarrow> string \<Rightarrow> bool" where
  "should_run c pass \<longleftrightarrow> pass |\<notin>| cf_disabled c \<and> (cf_enabled c = {||} \<or> pass |\<in>| cf_enabled c)"

definition should_stop_before :: "pipeline_config \<Rightarrow> string \<Rightarrow> bool" where
  "should_stop_before c pass \<longleftrightarrow> cf_stop_before c = Some pass"

definition should_stop_after :: "pipeline_config \<Rightarrow> string \<Rightarrow> bool" where
  "should_stop_after c pass \<longleftrightarrow> cf_stop_after c = Some pass"

section \<open>Text\<close>

text \<open>The \<open>Display\<close> of integers and the derived \<open>Debug\<close> of the types that appear in messages, for ASCII strings.\<close>

definition digit :: "nat \<Rightarrow> char" where
  "digit d = char_of (if d < 10 then 48 + d else 87 + d)"

fun show_base :: "nat \<Rightarrow> nat \<Rightarrow> string" where
  "show_base b n = (if b < 2 \<or> n < b then [digit n] else show_base b (n div b) @ [digit (n mod b)])"

declare show_base.simps [simp del]

definition debug_char :: "char \<Rightarrow> string" where
  "debug_char c =
     (if c = CHR 0x00 then [CHR 0x5C, CHR ''0'']
      else if c = CHR 0x09 then [CHR 0x5C, CHR ''t'']
      else if c = CHR 0x0A then [CHR 0x5C, CHR ''n'']
      else if c = CHR 0x0D then [CHR 0x5C, CHR ''r'']
      else if c = CHR 0x22 \<or> c = CHR 0x5C then [CHR 0x5C, c]
      else if of_char c < (32 :: nat) \<or> of_char c = (127 :: nat)
      then CHR 0x5C # ''u{'' @ show_base 16 (of_char c) @ ''}''
      else [c])"

definition debug_str :: "string \<Rightarrow> string" where
  "debug_str s = CHR 0x22 # concat (map debug_char s) @ [CHR 0x22]"

fun debug_option :: "('a \<Rightarrow> string) \<Rightarrow> 'a option \<Rightarrow> string" where
  "debug_option f None = ''None''"
| "debug_option f (Some x) = ''Some('' @ f x @ '')''"

definition debug_unit_kind :: "unit_kind_key \<Rightarrow> string" where
  "debug_unit_kind k = ''UnitKindKey { namespace: '' @ debug_str (ukk_namespace k) @ '', name: '' @ debug_str (ukk_name k) @ '' }''"

definition debug_unit :: "unit_key \<Rightarrow> string" where
  "debug_unit u = ''UnitKey { kind: '' @ debug_unit_kind (uk_kind u) @ '', id: '' @ show_base 10 (unat (uk_id u)) @ '' }''"

definition debug_artifact_key :: "artifact_key \<Rightarrow> string" where
  "debug_artifact_key k = ''ArtifactKey { namespace: '' @ debug_str (ak_namespace k) @ '', name: '' @ debug_str (ak_name k) @ '' }''"

definition debug_filter :: "unit_filter_key \<Rightarrow> string" where
  "debug_filter k = ''UnitFilterKey { namespace: '' @ debug_str (ufk_namespace k) @ '', name: '' @ debug_str (ufk_name k) @ '' }''"

fun debug_artifact_scope :: "artifact_scope \<Rightarrow> string" where
  "debug_artifact_scope Global = ''Global''"
| "debug_artifact_scope (Unit u) = ''Unit('' @ debug_unit u @ '')''"
| "debug_artifact_scope (UnitKind k) = ''UnitKind('' @ debug_unit_kind k @ '')''"

fun debug_pass_scope :: "pass_scope \<Rightarrow> string" where
  "debug_pass_scope GlobalPass = ''Global''"
| "debug_pass_scope (UnitPass k) = ''Unit('' @ debug_unit_kind k @ '')''"

fun debug_selector :: "unit_selector \<Rightarrow> string" where
  "debug_selector (Kind k) = ''Kind('' @ debug_unit_kind k @ '')''"
| "debug_selector (Affected k) = ''Affected('' @ debug_unit_kind k @ '')''"
| "debug_selector (AffectedArtifact k a f) =
     ''AffectedArtifact { kind: '' @ debug_unit_kind k @ '', artifact: '' @ debug_artifact_key a @
     '', filter: '' @ debug_option debug_filter f @ '' }''"

fun debug_order :: "unit_order \<Rightarrow> string" where
  "debug_order Stable = ''Stable''"
| "debug_order SourceOrder = ''SourceOrder''"
| "debug_order DependencyOrder = ''DependencyOrder''"
| "debug_order ReverseDependencyOrder = ''ReverseDependencyOrder''"
| "debug_order AffectedFirst = ''AffectedFirst''"
| "debug_order (Custom name) = ''Custom('' @ debug_str name @ '')''"

section \<open>Passes and their results\<close>

datatype interruption_kind = Cancelled | ResourceLimit | Unavailable

record interruption =
  in_kind :: interruption_kind
  in_reason :: string

record pass_failure =
  pf_message :: string
  pf_missing_artifact :: "artifact_key option"
  pf_interruption :: "interruption option"

datatype pass_control = Continue | Stop | Failed pass_failure

definition failure_new :: "string \<Rightarrow> pass_failure" where
  "failure_new message = \<lparr>pf_message = message, pf_missing_artifact = None, pf_interruption = None\<rparr>"

definition failure_missing_artifact :: "artifact_key \<Rightarrow> pass_failure" where
  "failure_missing_artifact key =
     \<lparr>pf_message = ''required artifact '' @ ak_namespace key @ ''.'' @ ak_name key @ '' is not available'',
      pf_missing_artifact = Some key, pf_interruption = None\<rparr>"

definition failure_missing_artifact_ref :: "artifact_ref \<Rightarrow> pass_failure" where
  "failure_missing_artifact_ref artifact =
     \<lparr>pf_message = ''required artifact '' @ ak_namespace (ar_key artifact) @ ''.'' @ ak_name (ar_key artifact) @
        '' with scope '' @ debug_artifact_scope (ar_scope artifact) @ '' is not available'',
      pf_missing_artifact = Some (ar_key artifact), pf_interruption = None\<rparr>"

definition failure_scope_mismatch :: "string \<Rightarrow> pass_scope \<Rightarrow> unit_key option \<Rightarrow> pass_failure" where
  "failure_scope_mismatch pass scope current_unit =
     \<lparr>pf_message = ''pass '' @ pass @ '' has scope '' @ debug_pass_scope scope @
        '' but current unit is '' @ debug_option debug_unit current_unit,
      pf_missing_artifact = None, pf_interruption = None\<rparr>"

definition failure_interrupted :: "interruption \<Rightarrow> pass_failure" where
  "failure_interrupted i = \<lparr>pf_message = in_reason i, pf_missing_artifact = None, pf_interruption = Some i\<rparr>"

record pass_result =
  rs_control :: pass_control
  rs_changed :: bool
  rs_preserved :: preserved_artifacts
  rs_produced :: artifact_set

definition result_unchanged :: pass_result where
  "result_unchanged = \<lparr>rs_control = Continue, rs_changed = False, rs_preserved = PreserveAll, rs_produced = as_new\<rparr>"

definition result_changed :: "preserved_artifacts \<Rightarrow> artifact_set \<Rightarrow> pass_result" where
  "result_changed preserved produced =
     \<lparr>rs_control = Continue, rs_changed = True, rs_preserved = preserved, rs_produced = produced\<rparr>"

definition result_stop :: pass_result where
  "result_stop = \<lparr>rs_control = Stop, rs_changed = False, rs_preserved = PreserveAll, rs_produced = as_new\<rparr>"

definition result_failed :: "string \<Rightarrow> pass_result" where
  "result_failed message =
     \<lparr>rs_control = Failed (failure_new message), rs_changed = False, rs_preserved = PreserveAll, rs_produced = as_new\<rparr>"

definition result_interrupted :: "interruption \<Rightarrow> pass_result" where
  "result_interrupted i =
     \<lparr>rs_control = Failed (failure_interrupted i), rs_changed = False, rs_preserved = PreserveAll, rs_produced = as_new\<rparr>"

datatype pass_kind = Transform | AnalysisPass | Verify | Plan | Emit

record pass_descriptor =
  pd_name :: string
  pd_kind :: pass_kind
  pd_scope :: pass_scope
  pd_granularity :: artifact_scope
  pd_requires :: artifact_set
  pd_produces :: artifact_set
  pd_invalidates :: artifact_set

definition descriptor_new :: "string \<Rightarrow> pass_kind \<Rightarrow> pass_descriptor" where
  "descriptor_new name kind =
     \<lparr>pd_name = name, pd_kind = kind, pd_scope = GlobalPass, pd_granularity = Global,
      pd_requires = as_new, pd_produces = as_new, pd_invalidates = as_new\<rparr>"

definition descriptor_scope :: "pass_scope \<Rightarrow> pass_descriptor \<Rightarrow> pass_descriptor" where
  "descriptor_scope scope d =
     d\<lparr>pd_scope := scope, pd_granularity := (case scope of GlobalPass \<Rightarrow> Global | UnitPass kind \<Rightarrow> UnitKind kind)\<rparr>"

definition descriptor_granularity :: "artifact_scope \<Rightarrow> pass_descriptor \<Rightarrow> pass_descriptor" where
  "descriptor_granularity granularity d = d\<lparr>pd_granularity := granularity\<rparr>"

definition descriptor_requires :: "artifact_set \<Rightarrow> pass_descriptor \<Rightarrow> pass_descriptor" where
  "descriptor_requires requires d = d\<lparr>pd_requires := requires\<rparr>"

definition descriptor_produces :: "artifact_set \<Rightarrow> pass_descriptor \<Rightarrow> pass_descriptor" where
  "descriptor_produces produces d =
     (let d = (if as_is_empty (pd_invalidates d) then d\<lparr>pd_invalidates := produces\<rparr> else d)
      in d\<lparr>pd_produces := produces\<rparr>)"

definition descriptor_invalidates :: "artifact_set \<Rightarrow> pass_descriptor \<Rightarrow> pass_descriptor" where
  "descriptor_invalidates invalidates d = d\<lparr>pd_invalidates := invalidates\<rparr>"

record pipeline_stats =
  st_executed :: u32
  st_skipped :: u32
  st_changed :: u32
  st_failed :: u32
  st_stopped :: u32

definition pipeline_stats_default :: pipeline_stats where
  "pipeline_stats_default = \<lparr>st_executed = 0, st_skipped = 0, st_changed = 0, st_failed = 0, st_stopped = 0\<rparr>"

record pass_timing =
  tm_pass :: string
  tm_unit :: "unit_key option"
  tm_duration :: nat

record pass_run_record =
  rr_pass :: string
  rr_unit :: "unit_key option"
  rr_control :: pass_control
  rr_changed :: bool
  rr_skipped :: bool
  rr_produced :: artifact_set
  rr_invalidated :: artifact_set
  rr_timing :: "pass_timing option"

record pipeline_run_result =
  pl_control :: pass_control
  pl_stats :: pipeline_stats
  pl_records :: "pass_run_record list"

definition run_completed :: "pipeline_stats \<Rightarrow> pass_run_record list \<Rightarrow> pipeline_run_result" where
  "run_completed stats records = \<lparr>pl_control = Continue, pl_stats = stats, pl_records = records\<rparr>"

definition run_stopped :: "pass_control \<Rightarrow> pipeline_stats \<Rightarrow> pass_run_record list \<Rightarrow> pipeline_run_result" where
  "run_stopped control stats records = \<lparr>pl_control = control, pl_stats = stats, pl_records = records\<rparr>"

record pass_context =
  px_current_unit :: "unit_key option"

section \<open>Pipelines\<close>

type_synonym pass_id = nat

datatype pipeline = Pipeline (pipe_name: string) (pipe_steps: "pipeline_step list")
  and pipeline_step = PassStep pass_id | Group pipeline | ForEach unit_selector unit_order pipeline

definition pipeline_new :: "string \<Rightarrow> pipeline" where
  "pipeline_new name = Pipeline name []"

definition push_pass :: "pass_id \<Rightarrow> pipeline \<Rightarrow> pipeline" where
  "push_pass pass p = Pipeline (pipe_name p) (pipe_steps p @ [PassStep pass])"

definition push_group :: "pipeline \<Rightarrow> pipeline \<Rightarrow> pipeline" where
  "push_group sub p = Pipeline (pipe_name p) (pipe_steps p @ [Group sub])"

definition push_for_each :: "unit_selector \<Rightarrow> unit_order \<Rightarrow> pipeline \<Rightarrow> pipeline \<Rightarrow> pipeline" where
  "push_for_each selector unit_ord sub p = Pipeline (pipe_name p) (pipe_steps p @ [ForEach selector unit_ord sub])"

section \<open>The manager\<close>

record ('h, 'v) pass_manager =
  pm_analyses :: "'v analysis_cache"
  pm_instrumentation :: "'h list"
  pm_config :: pipeline_config
  pm_artifacts :: artifact_set
  pm_records :: "pass_run_record list"
  pm_stats :: pipeline_stats
  pm_current_unit :: "unit_key option"
  pm_execution_control :: "(nat \<Rightarrow> interruption option) option"
  pm_elapsed :: "nat \<Rightarrow> nat"
  pm_ticks :: nat

record ('p, 'h, 'v, 'c) client =
  cl_descriptor :: "'p \<Rightarrow> pass_descriptor"
  cl_run :: "'p \<Rightarrow> 'c \<Rightarrow> pass_context \<Rightarrow> ('h, 'v) pass_manager \<Rightarrow> pass_result \<times> 'p \<times> 'c \<times> ('h, 'v) pass_manager"
  cl_before_pass :: "'h \<Rightarrow> pass_descriptor \<Rightarrow> pass_context \<Rightarrow> 'c \<Rightarrow> 'h"
  cl_after_pass :: "'h \<Rightarrow> pass_descriptor \<Rightarrow> pass_context \<Rightarrow> pass_result \<Rightarrow> 'c \<Rightarrow> 'h"
  cl_after_invalidation :: "'h \<Rightarrow> artifact_set \<Rightarrow> 'h"
  cl_units :: "'c \<Rightarrow> unit_selector \<Rightarrow> unit_order \<Rightarrow> unit_key list"

definition pm_new :: "(nat \<Rightarrow> nat) \<Rightarrow> ('h, 'v) pass_manager" where
  "pm_new elapsed =
     \<lparr>pm_analyses = ac_new, pm_instrumentation = [], pm_config = config_default, pm_artifacts = as_new,
      pm_records = [], pm_stats = pipeline_stats_default, pm_current_unit = None, pm_execution_control = None,
      pm_elapsed = elapsed, pm_ticks = 0\<rparr>"

definition with_config :: "(nat \<Rightarrow> nat) \<Rightarrow> pipeline_config \<Rightarrow> ('h, 'v) pass_manager" where
  "with_config elapsed config = (pm_new elapsed)\<lparr>pm_config := config\<rparr>"

definition set_execution_control :: "(nat \<Rightarrow> interruption option) \<Rightarrow> ('h, 'v) pass_manager \<Rightarrow> ('h, 'v) pass_manager" where
  "set_execution_control control m = m\<lparr>pm_execution_control := Some control\<rparr>"

definition execution_interruption :: "('h, 'v) pass_manager \<Rightarrow> interruption option \<times> ('h, 'v) pass_manager" where
  "execution_interruption m =
     (case pm_execution_control m of
        None \<Rightarrow> (None, m)
      | Some checkpoint \<Rightarrow> (checkpoint (pm_ticks m), m\<lparr>pm_ticks := pm_ticks m + 1\<rparr>))"

definition config_mut :: "(pipeline_config \<Rightarrow> pipeline_config) \<Rightarrow> ('h, 'v) pass_manager \<Rightarrow> ('h, 'v) pass_manager" where
  "config_mut f m = m\<lparr>pm_config := f (pm_config m)\<rparr>"

definition analyses_mut :: "('v analysis_cache \<Rightarrow> 'v analysis_cache) \<Rightarrow> ('h, 'v) pass_manager \<Rightarrow> ('h, 'v) pass_manager" where
  "analyses_mut f m = m\<lparr>pm_analyses := f (pm_analyses m)\<rparr>"

definition pm_analysis :: "('v \<Rightarrow> 'o option) \<Rightarrow> ('o \<Rightarrow> 'v) \<Rightarrow> ('d, 'o) analysis \<Rightarrow> 'd \<Rightarrow> ('h, 'v) pass_manager \<Rightarrow>
    ('o \<times> ('h, 'v) pass_manager) option" where
  "pm_analysis downcast box analysis context m =
     (case get_or_run downcast box analysis context (pm_analyses m) of
        None \<Rightarrow> None
      | Some (x, cache) \<Rightarrow> Some (x, m\<lparr>pm_analyses := cache\<rparr>))"

definition add_instrumentation :: "'h \<Rightarrow> ('h, 'v) pass_manager \<Rightarrow> ('h, 'v) pass_manager" where
  "add_instrumentation hook m = m\<lparr>pm_instrumentation := pm_instrumentation m @ [hook]\<rparr>"

definition mark_artifact_available :: "artifact_key \<Rightarrow> ('h, 'v) pass_manager \<Rightarrow> ('h, 'v) pass_manager" where
  "mark_artifact_available key m = m\<lparr>pm_artifacts := snd (as_insert key (pm_artifacts m))\<rparr>"

definition mark_artifact_ref_available :: "artifact_ref \<Rightarrow> ('h, 'v) pass_manager \<Rightarrow> ('h, 'v) pass_manager" where
  "mark_artifact_ref_available artifact m = m\<lparr>pm_artifacts := snd (as_insert_ref artifact (pm_artifacts m))\<rparr>"

definition mark_artifacts_available :: "artifact_set \<Rightarrow> ('h, 'v) pass_manager \<Rightarrow> ('h, 'v) pass_manager" where
  "mark_artifacts_available artifacts m = m\<lparr>pm_artifacts := as_extend (pm_artifacts m) artifacts\<rparr>"

definition resolve_artifact_ref :: "('h, 'v) pass_manager \<Rightarrow> artifact_ref \<Rightarrow> artifact_ref option" where
  "resolve_artifact_ref m artifact =
     (case ar_scope artifact of
        Global \<Rightarrow> Some artifact
      | Unit _ \<Rightarrow> Some artifact
      | UnitKind kind \<Rightarrow>
          (case pm_current_unit m of
             None \<Rightarrow> None
           | Some current \<Rightarrow> if uk_kind current = kind then Some (ar_unit (ar_key artifact) current) else None))"

definition resolve_artifact_set :: "('h, 'v) pass_manager \<Rightarrow> artifact_set \<Rightarrow> artifact_set" where
  "resolve_artifact_set m artifacts = as_from_refs (List.map_filter (resolve_artifact_ref m) (as_iter artifacts))"

definition scope_matches :: "('h, 'v) pass_manager \<Rightarrow> pass_scope \<Rightarrow> bool" where
  "scope_matches m scope =
     (case (scope, pm_current_unit m) of
        (GlobalPass, None) \<Rightarrow> True
      | (UnitPass kind, Some u) \<Rightarrow> uk_kind u = kind
      | _ \<Rightarrow> False)"

definition invalidate_after_change :: "preserved_artifacts \<Rightarrow> artifact_set \<Rightarrow> ('h, 'v) pass_manager \<Rightarrow>
    artifact_set \<times> ('h, 'v) pass_manager" where
  "invalidate_after_change preserved produced m =
     (let (analysis_invalidated, cache) = ac_invalidate preserved (pm_analyses m);
          m = m\<lparr>pm_analyses := cache\<rparr>;
          artifact_invalidated =
            (case preserved of
               PreserveAll \<Rightarrow> as_new
             | PreserveNone \<Rightarrow> as_difference (pm_artifacts m) produced
             | PreserveSome keys \<Rightarrow> as_difference (pm_artifacts m) keys);
          retained =
            (case preserved of
               PreserveAll \<Rightarrow> as_extend as_new (pm_artifacts m)
             | PreserveNone \<Rightarrow> as_new
             | PreserveSome keys \<Rightarrow> as_from_refs (filter (as_contains_ref keys) (as_iter (pm_artifacts m))));
          retained = as_extend retained produced;
          m = m\<lparr>pm_artifacts := retained\<rparr>
      in (as_extend artifact_invalidated analysis_invalidated, m))"

fun is_failed :: "pass_control \<Rightarrow> bool" where
  "is_failed (Failed _) = True"
| "is_failed _ = False"

definition count_stopped :: "('h, 'v) pass_manager \<Rightarrow> ('h, 'v) pass_manager" where
  "count_stopped m = m\<lparr>pm_stats := (pm_stats m)\<lparr>st_stopped := st_stopped (pm_stats m) + 1\<rparr>\<rparr>"

definition record_skipped :: "pass_descriptor \<Rightarrow> ('h, 'v) pass_manager \<Rightarrow> ('h, 'v) pass_manager" where
  "record_skipped descriptor m =
     m\<lparr>pm_stats := (pm_stats m)\<lparr>st_skipped := st_skipped (pm_stats m) + 1\<rparr>,
       pm_records := pm_records m @
         [\<lparr>rr_pass = pd_name descriptor, rr_unit = pm_current_unit m, rr_control = Continue,
           rr_changed = False, rr_skipped = True, rr_produced = as_new, rr_invalidated = as_new,
           rr_timing = None\<rparr>]\<rparr>"

text \<open>The bookkeeping at the end of every pass that was not skipped.\<close>

definition finish_pass :: "('p, 'h, 'v, 'c) client \<Rightarrow> pass_descriptor \<Rightarrow> pass_context \<Rightarrow> pass_result \<Rightarrow> artifact_set \<Rightarrow>
    nat option \<Rightarrow> 'c \<Rightarrow> ('h, 'v) pass_manager \<Rightarrow> pass_control \<times> ('h, 'v) pass_manager" where
  "finish_pass cl descriptor pass_context result invalidated duration context m =
     (let (result, invalidated, m) =
            (if is_failed (rs_control result)
             then (let rejected = resolve_artifact_set m (pd_produces descriptor);
                       rejected = as_extend rejected (rs_produced result);
                       invalidated = as_extend invalidated
                         (as_from_refs (filter (as_contains_ref (pm_artifacts m)) (as_iter rejected)));
                       m = m\<lparr>pm_artifacts := as_difference (pm_artifacts m) rejected\<rparr>
                   in (result\<lparr>rs_produced := as_new\<rparr>, invalidated, m))
             else (result, invalidated, m));
          m = m\<lparr>pm_instrumentation :=
                  map (\<lambda>hook. cl_after_pass cl hook descriptor pass_context result context) (pm_instrumentation m)\<rparr>;
          m = (if \<not> as_is_empty invalidated
               then m\<lparr>pm_instrumentation := map (\<lambda>hook. cl_after_invalidation cl hook invalidated) (pm_instrumentation m)\<rparr>
               else m);
          stats = pm_stats m;
          stats = stats\<lparr>st_executed := st_executed stats + 1\<rparr>;
          stats = (if rs_changed result then stats\<lparr>st_changed := st_changed stats + 1\<rparr> else stats);
          stats = (case rs_control result of
                     Continue \<Rightarrow> stats
                   | Stop \<Rightarrow> stats\<lparr>st_stopped := st_stopped stats + 1\<rparr>
                   | Failed _ \<Rightarrow> stats\<lparr>st_failed := st_failed stats + 1\<rparr>);
          control = rs_control result;
          m = m\<lparr>pm_stats := stats,
                pm_records := pm_records m @
                  [\<lparr>rr_pass = pd_name descriptor, rr_unit = px_current_unit pass_context, rr_control = control,
                    rr_changed = rs_changed result, rr_skipped = False, rr_produced = rs_produced result,
                    rr_invalidated = invalidated,
                    rr_timing = map_option (\<lambda>duration. \<lparr>tm_pass = pd_name descriptor,
                      tm_unit = px_current_unit pass_context, tm_duration = duration\<rparr>) duration\<rparr>]\<rparr>
      in if should_stop_after (pm_config m) (pd_name descriptor) \<and> control = Continue
         then (Stop, count_stopped m)
         else (control, m))"

text \<open>\<open>started.map(|started| started.elapsed())\<close>\<close>

definition elapsed :: "bool \<Rightarrow> ('h, 'v) pass_manager \<Rightarrow> nat option \<times> ('h, 'v) pass_manager" where
  "elapsed started m =
     (if started then (Some (pm_elapsed m (pm_ticks m)), m\<lparr>pm_ticks := pm_ticks m + 1\<rparr>) else (None, m))"

text \<open>The first requirement, in order, that cannot be resolved or is not available.\<close>

fun find_missing :: "('h, 'v) pass_manager \<Rightarrow> artifact_ref list \<Rightarrow> artifact_ref option" where
  "find_missing m [] = None"
| "find_missing m (artifact # artifacts) =
     (case resolve_artifact_ref m artifact of
        None \<Rightarrow> Some artifact
      | Some resolved \<Rightarrow>
          if \<not> as_contains_ref (pm_artifacts m) resolved then Some resolved else find_missing m artifacts)"

text \<open>The part of \<open>run_pass\<close> from the call of the pass to the end.\<close>

definition execute_pass :: "('p, 'h, 'v, 'c) client \<Rightarrow> 'p \<Rightarrow> pass_descriptor \<Rightarrow> pass_context \<Rightarrow> 'c \<Rightarrow> ('h, 'v) pass_manager \<Rightarrow>
    pass_control \<times> 'p \<times> 'c \<times> ('h, 'v) pass_manager" where
  "execute_pass cl pass descriptor pass_context context m =
     (let m = m\<lparr>pm_instrumentation :=
                  map (\<lambda>hook. cl_before_pass cl hook descriptor pass_context context) (pm_instrumentation m)\<rparr>;
          started = cf_collect_timing (pm_config m);
          (result, pass, context, m) = cl_run cl pass context pass_context m
      in case execution_interruption m of
           (Some i, m) \<Rightarrow>
             (let result = result_unchanged\<lparr>rs_control := Failed (failure_interrupted i)\<rparr>;
                  (duration, m) = elapsed started m;
                  (control, m) = finish_pass cl descriptor pass_context result as_new duration context m
              in (control, pass, context, m))
         | (None, m) \<Rightarrow>
             (let result = result\<lparr>rs_produced := resolve_artifact_set m (rs_produced result)\<rparr>
              in if is_failed (rs_control result)
                 then (let (invalidated, m) =
                             (if rs_changed result then invalidate_after_change (rs_preserved result) as_new m
                              else (as_new, m));
                           (duration, m) = elapsed started m;
                           (control, m) = finish_pass cl descriptor pass_context result invalidated duration context m
                       in (control, pass, context, m))
                 else (let produced = resolve_artifact_set m (pd_produces descriptor);
                           result = result\<lparr>rs_produced := as_extend (rs_produced result) produced\<rparr>;
                           (duration, m) = elapsed started m;
                           (invalidated, m) =
                             (if rs_changed result
                              then invalidate_after_change (rs_preserved result) (rs_produced result) m
                              else (as_new, m));
                           m = m\<lparr>pm_artifacts := as_extend (pm_artifacts m) (rs_produced result)\<rparr>;
                           (control, m) = finish_pass cl descriptor pass_context result invalidated duration context m
                       in (control, pass, context, m))))"

definition run_pass :: "('p, 'h, 'v, 'c) client \<Rightarrow> 'p \<Rightarrow> pass_descriptor \<Rightarrow> 'c \<Rightarrow> ('h, 'v) pass_manager \<Rightarrow>
    pass_control \<times> 'p \<times> 'c \<times> ('h, 'v) pass_manager" where
  "run_pass cl pass descriptor context m =
     (let pass_context = \<lparr>px_current_unit = pm_current_unit m\<rparr>
      in case execution_interruption m of
           (Some i, m) \<Rightarrow>
             (let result = result_unchanged\<lparr>rs_control := Failed (failure_interrupted i)\<rparr>;
                  (control, m) = finish_pass cl descriptor pass_context result as_new None context m
              in (control, pass, context, m))
         | (None, m) \<Rightarrow>
             if \<not> should_run (pm_config m) (pd_name descriptor)
             then (Continue, pass, context, record_skipped descriptor m)
             else if \<not> scope_matches m (pd_scope descriptor)
             then (let result = \<lparr>rs_control = Failed (failure_scope_mismatch (pd_name descriptor) (pd_scope descriptor)
                                    (pm_current_unit m)),
                                 rs_changed = False, rs_preserved = PreserveAll, rs_produced = as_new\<rparr>;
                       (control, m) = finish_pass cl descriptor pass_context result as_new None context m
                   in (control, pass, context, m))
             else if should_stop_before (pm_config m) (pd_name descriptor)
             then (Stop, pass, context, count_stopped m)
             else case find_missing m (as_iter (pd_requires descriptor)) of
                    Some missing \<Rightarrow>
                      (let result = \<lparr>rs_control = Failed (failure_missing_artifact_ref missing),
                                     rs_changed = False, rs_preserved = PreserveAll, rs_produced = as_new\<rparr>;
                           (control, m) = finish_pass cl descriptor pass_context result as_new None context m
                       in (control, pass, context, m))
                  | None \<Rightarrow> execute_pass cl pass descriptor pass_context context m)"

section \<open>Running pipelines\<close>

type_synonym ('p, 'h, 'v, 'c) run_state = "('h, 'v) pass_manager \<times> (pass_id \<Rightarrow> 'p) \<times> 'c"

text \<open>The loop over the units of a \<open>ForEach\<close>; \<open>run\<close> runs its pipeline once.\<close>

fun run_units :: "(('p, 'h, 'v, 'c) run_state \<Rightarrow> pass_control \<times> ('p, 'h, 'v, 'c) run_state) \<Rightarrow> unit_key list \<Rightarrow>
    ('p, 'h, 'v, 'c) run_state \<Rightarrow> pass_control \<times> ('p, 'h, 'v, 'c) run_state" where
  "run_units run [] s = (Continue, s)"
| "run_units run (u # units) (m, passes, context) =
     (case run (m\<lparr>pm_current_unit := Some u\<rparr>, passes, context) of
        (Continue, s) \<Rightarrow> run_units run units s
      | (control, s) \<Rightarrow> (control, s))"

definition run_pass_step :: "('p, 'h, 'v, 'c) client \<Rightarrow> pass_id \<Rightarrow> ('p, 'h, 'v, 'c) run_state \<Rightarrow>
    pass_control \<times> ('p, 'h, 'v, 'c) run_state" where
  "run_pass_step cl i s =
     (case s of (m, passes, context) \<Rightarrow>
        (let descriptor = cl_descriptor cl (passes i);
             (control, pass, context, m) = run_pass cl (passes i) descriptor context m
         in (control, m, passes(i := pass), context)))"

fun run_steps :: "('p, 'h, 'v, 'c) client \<Rightarrow> pipeline_step list \<Rightarrow> ('p, 'h, 'v, 'c) run_state \<Rightarrow>
    pass_control \<times> ('p, 'h, 'v, 'c) run_state"
and run_step :: "('p, 'h, 'v, 'c) client \<Rightarrow> pipeline_step \<Rightarrow> ('p, 'h, 'v, 'c) run_state \<Rightarrow>
    pass_control \<times> ('p, 'h, 'v, 'c) run_state" where
  "run_steps cl [] s = (Continue, s)"
| "run_steps cl (step # steps) s =
     (case run_step cl step s of
        (Continue, s) \<Rightarrow> run_steps cl steps s
      | (control, s) \<Rightarrow> (control, s))"
| "run_step cl (PassStep i) s = run_pass_step cl i s"
| "run_step cl (Group (Pipeline name steps)) s = run_steps cl steps s"
| "run_step cl (ForEach selector unit_ord (Pipeline name steps)) (m, passes, context) =
     (let units = cl_units cl context selector unit_ord;
          previous = pm_current_unit m;
          (control, m, passes, context) = run_units (\<lambda>s. run_steps cl steps s) units (m, passes, context)
      in (control, m\<lparr>pm_current_unit := previous\<rparr>, passes, context))"

fun run_global_steps :: "('p, 'h, 'v, 'c) client \<Rightarrow> pipeline_step list \<Rightarrow> ('p, 'h, 'v, 'c) run_state \<Rightarrow>
    pass_control \<times> ('p, 'h, 'v, 'c) run_state"
and run_global_step :: "('p, 'h, 'v, 'c) client \<Rightarrow> pipeline_step \<Rightarrow> ('p, 'h, 'v, 'c) run_state \<Rightarrow>
    pass_control \<times> ('p, 'h, 'v, 'c) run_state" where
  "run_global_steps cl [] s = (Continue, s)"
| "run_global_steps cl (step # steps) s =
     (case run_global_step cl step s of
        (Continue, s) \<Rightarrow> run_global_steps cl steps s
      | (control, s) \<Rightarrow> (control, s))"
| "run_global_step cl (PassStep i) s = run_pass_step cl i s"
| "run_global_step cl (Group (Pipeline name steps)) s = run_global_steps cl steps s"
| "run_global_step cl (ForEach selector unit_ord sub) s =
     (Failed (failure_new (''global pipeline cannot execute foreach '' @ debug_selector selector @ '' '' @
        debug_order unit_ord)), s)"

definition run_result :: "pass_control \<Rightarrow> ('h, 'v) pass_manager \<Rightarrow> pipeline_run_result" where
  "run_result control m =
     (case control of
        Continue \<Rightarrow> run_completed (pm_stats m) (pm_records m)
      | other \<Rightarrow> run_stopped other (pm_stats m) (pm_records m))"

definition reset_run :: "('h, 'v) pass_manager \<Rightarrow> ('h, 'v) pass_manager" where
  "reset_run m = m\<lparr>pm_records := [], pm_stats := pipeline_stats_default, pm_current_unit := None\<rparr>"

definition run_pipeline :: "('p, 'h, 'v, 'c) client \<Rightarrow> pipeline \<Rightarrow> ('p, 'h, 'v, 'c) run_state \<Rightarrow>
    pipeline_run_result \<times> ('p, 'h, 'v, 'c) run_state" where
  "run_pipeline cl pipeline s =
     (case s of (m, passes, context) \<Rightarrow>
        (let (control, m, passes, context) = run_steps cl (pipe_steps pipeline) (reset_run m, passes, context)
         in (run_result control m, m, passes, context)))"

definition run_global_pipeline :: "('p, 'h, 'v, 'c) client \<Rightarrow> pipeline \<Rightarrow> ('p, 'h, 'v, 'c) run_state \<Rightarrow>
    pipeline_run_result \<times> ('p, 'h, 'v, 'c) run_state" where
  "run_global_pipeline cl pipeline s =
     (case s of (m, passes, context) \<Rightarrow>
        (let (control, m, passes, context) = run_global_steps cl (pipe_steps pipeline) (reset_run m, passes, context)
         in (run_result control m, m, passes, context)))"

definition run_nested_pipeline :: "('p, 'h, 'v, 'c) client \<Rightarrow> pipeline \<Rightarrow> unit_key option \<Rightarrow> ('p, 'h, 'v, 'c) run_state \<Rightarrow>
    pass_control \<times> ('p, 'h, 'v, 'c) run_state" where
  "run_nested_pipeline cl pipeline u s =
     (case s of (m, passes, context) \<Rightarrow>
        (let current_unit = pm_current_unit m;
             (control, m, passes, context) =
               run_steps cl (pipe_steps pipeline) (m\<lparr>pm_current_unit := u\<rparr>, passes, context)
         in (control, m\<lparr>pm_current_unit := current_unit\<rparr>, passes, context)))"

section \<open>The schedule as text\<close>

definition indent :: "nat \<Rightarrow> string" where
  "indent n = concat (replicate n ''  '')"

fun collect_schedule :: "(pass_id \<Rightarrow> string) \<Rightarrow> nat \<Rightarrow> pipeline \<Rightarrow> string list"
and collect_step :: "(pass_id \<Rightarrow> string) \<Rightarrow> nat \<Rightarrow> pipeline_step \<Rightarrow> string list" where
  "collect_schedule name n (Pipeline label steps) =
     (indent n @ ''group '' @ label) # concat (map (collect_step name n) steps)"
| "collect_step name n (PassStep i) = [indent (n + 1) @ ''pass '' @ name i]"
| "collect_step name n (Group sub) = collect_schedule name (n + 1) sub"
| "collect_step name n (ForEach selector unit_ord sub) =
     (indent (n + 1) @ ''foreach '' @ debug_selector selector @ '' '' @ debug_order unit_ord) #
     collect_schedule name (n + 2) sub"

fun join_lines :: "string list \<Rightarrow> string" where
  "join_lines [] = []"
| "join_lines [l] = l"
| "join_lines (l # ls) = l @ CHR 0x0A # join_lines ls"

definition schedule_text :: "('p, 'h, 'v, 'c) client \<Rightarrow> (pass_id \<Rightarrow> 'p) \<Rightarrow> pipeline \<Rightarrow> string" where
  "schedule_text cl passes pipeline =
     join_lines (collect_schedule (\<lambda>i. pd_name (cl_descriptor cl (passes i))) 0 pipeline)"

end
