(* ===== verification/PipelineRuns.thy ===== *)
theory PipelineRuns
  imports PassManager
begin

text \<open>
  What running passes and pipelines does to the manager: the artifacts that are available, the
  records and their statistics, the current unit, and the order of execution.
\<close>

section \<open>Resolving artifacts\<close>

lemma resolve_cong: "pm_current_unit m = pm_current_unit m' \<Longrightarrow> resolve_artifact_ref m = resolve_artifact_ref m'"
  by (rule ext) (simp add: resolve_artifact_ref_def cong: artifact_scope.case_cong)

lemma resolve_set_cong: "pm_current_unit m = pm_current_unit m' \<Longrightarrow> resolve_artifact_set m = resolve_artifact_set m'"
  using resolve_cong [of m m'] by (intro ext) (simp add: resolve_artifact_set_def)

lemma set_map_filter: "y \<in> set (List.map_filter f xs) \<longleftrightarrow> (\<exists>x\<in>set xs. f x = Some y)"
  by (induction xs) (auto simp: List.map_filter_simps split: option.splits)

lemma resolve_set_iff:
  "r |\<in>| resolve_artifact_set m s \<longleftrightarrow> (\<exists>a. a |\<in>| s \<and> resolve_artifact_ref m a = Some r)"
  by (auto simp: resolve_artifact_set_def as_from_refs_def fset_of_list_elem set_map_filter)

lemma find_missing_None:
  "find_missing m xs = None \<longleftrightarrow>
     (\<forall>a\<in>set xs. \<exists>r. resolve_artifact_ref m a = Some r \<and> r |\<in>| pm_artifacts m)"
  by (induction xs) (auto simp: as_contains_ref_def split: option.splits)

lemma find_missing_Some:
  assumes "find_missing m xs = Some r"
  shows "r |\<notin>| pm_artifacts m \<or> resolve_artifact_ref m r = None"
    and "\<exists>a\<in>set xs. ar_key a = ar_key r"
  using assms
  by (induction xs) (auto simp: as_contains_ref_def resolve_artifact_ref_def ar_unit_def
      split: option.splits if_splits artifact_scope.splits)

section \<open>The end of a pass\<close>

lemma finish_pass_frame [simp]:
  "pm_analyses (snd (finish_pass cl d x r iv dur c m)) = pm_analyses m"
  "pm_config (snd (finish_pass cl d x r iv dur c m)) = pm_config m"
  "pm_current_unit (snd (finish_pass cl d x r iv dur c m)) = pm_current_unit m"
  "pm_execution_control (snd (finish_pass cl d x r iv dur c m)) = pm_execution_control m"
  "pm_ticks (snd (finish_pass cl d x r iv dur c m)) = pm_ticks m"
  by (simp_all add: finish_pass_def count_stopped_def Let_def)

definition rejected :: "('h, 'v) pass_manager \<Rightarrow> pass_descriptor \<Rightarrow> pass_result \<Rightarrow> artifact_set" where
  "rejected m d r = (if is_failed (rs_control r) then resolve_artifact_set m (pd_produces d) |\<union>| rs_produced r else {||})"

lemma finish_pass_artifacts:
  "pm_artifacts (snd (finish_pass cl d x r iv dur c m)) = pm_artifacts m |-| rejected m d r"
  by (simp add: finish_pass_def count_stopped_def rejected_def Let_def as_difference_def)

lemma finish_pass_records:
  "pm_records (snd (finish_pass cl d x r iv dur c m)) = pm_records m @
     [\<lparr>rr_pass = pd_name d, rr_unit = px_current_unit x, rr_control = rs_control r, rr_changed = rs_changed r,
       rr_skipped = False, rr_produced = (if is_failed (rs_control r) then {||} else rs_produced r),
       rr_invalidated = iv |\<union>| (pm_artifacts m |\<inter>| rejected m d r),
       rr_timing = map_option (\<lambda>duration. \<lparr>tm_pass = pd_name d, tm_unit = px_current_unit x, tm_duration = duration\<rparr>) dur\<rparr>]"
proof -
  have "fset_of_list (filter (as_contains_ref A) (as_iter B)) = A |\<inter>| B" for A B
    by (rule fset_eqI) (auto simp: fset_of_list_elem as_contains_ref_def)
  then show ?thesis
    by (simp add: finish_pass_def count_stopped_def rejected_def Let_def as_from_refs_def as_new_def)
qed

lemma finish_pass_control:
  "fst (finish_pass cl d x r iv dur c m) =
     (if should_stop_after (pm_config m) (pd_name d) \<and> rs_control r = Continue then Stop else rs_control r)"
  by (simp add: finish_pass_def Let_def)

lemma finish_pass_stats:
  "st_executed (pm_stats (snd (finish_pass cl d x r iv dur c m))) = st_executed (pm_stats m) + 1"
  "st_skipped (pm_stats (snd (finish_pass cl d x r iv dur c m))) = st_skipped (pm_stats m)"
  "st_changed (pm_stats (snd (finish_pass cl d x r iv dur c m))) = st_changed (pm_stats m) + (if rs_changed r then 1 else 0)"
  "st_failed (pm_stats (snd (finish_pass cl d x r iv dur c m))) =
     st_failed (pm_stats m) + (if is_failed (rs_control r) then 1 else 0)"
  by (simp_all add: finish_pass_def count_stopped_def Let_def split: pass_control.splits)

section \<open>Invalidation\<close>

definition retained :: "preserved_artifacts \<Rightarrow> artifact_set \<Rightarrow> artifact_set" where
  "retained p A = (case p of PreserveAll \<Rightarrow> A | PreserveNone \<Rightarrow> {||} | PreserveSome keys \<Rightarrow> A |\<inter>| keys)"

lemma invalidate_manager:
  "snd (invalidate_after_change p P m) =
     m\<lparr>pm_analyses := snd (ac_invalidate p (pm_analyses m)), pm_artifacts := retained p (pm_artifacts m) |\<union>| P\<rparr>"
proof -
  have "fset_of_list (filter (as_contains_ref B) (as_iter A)) = A |\<inter>| B" for A B
    by (rule fset_eqI) (auto simp: fset_of_list_elem as_contains_ref_def)
  then show ?thesis
    by (simp add: invalidate_after_change_def Let_def case_prod_beta retained_def as_new_def as_from_refs_def
        split: preserved_artifacts.split)
qed

lemma invalidate_set:
  "fst (invalidate_after_change p P m) =
     (case p of PreserveAll \<Rightarrow> {||} | PreserveNone \<Rightarrow> pm_artifacts m |-| P | PreserveSome keys \<Rightarrow> pm_artifacts m |-| keys) |\<union>|
     fst (ac_invalidate p (pm_analyses m))"
  by (simp add: invalidate_after_change_def Let_def case_prod_beta as_new_def as_difference_def
      split: preserved_artifacts.split)

lemma invalidate_complete:
  "pm_artifacts m |-| pm_artifacts (snd (invalidate_after_change p P m)) |\<subseteq>| fst (invalidate_after_change p P m)"
  by (auto simp: invalidate_manager invalidate_set retained_def split: preserved_artifacts.splits)

text \<open>
  With \<open>PreserveSome\<close> an artifact that the pass produced again counts as invalidated although it is
  available; with \<open>PreserveNone\<close> it does not.
\<close>

lemma reproduced_artifact_invalidated:
  assumes "a |\<in>| pm_artifacts m" "a |\<in>| P" "a |\<notin>| keys"
  shows "a |\<in>| fst (invalidate_after_change (PreserveSome keys) P m)"
    and "a |\<in>| pm_artifacts (snd (invalidate_after_change (PreserveSome keys) P m))"
    and "ar_scope a \<noteq> Global \<Longrightarrow> a |\<notin>| fst (invalidate_after_change PreserveNone P m)"
  using assms by (auto simp: invalidate_set invalidate_manager ac_invalidate_set ar_global_def)

section \<open>One pass\<close>

lemma execution_interruption_frame [simp]:
  "pm_analyses (snd (execution_interruption m)) = pm_analyses m"
  "pm_instrumentation (snd (execution_interruption m)) = pm_instrumentation m"
  "pm_config (snd (execution_interruption m)) = pm_config m"
  "pm_artifacts (snd (execution_interruption m)) = pm_artifacts m"
  "pm_records (snd (execution_interruption m)) = pm_records m"
  "pm_stats (snd (execution_interruption m)) = pm_stats m"
  "pm_current_unit (snd (execution_interruption m)) = pm_current_unit m"
  by (simp_all add: execution_interruption_def split: option.split)

lemma elapsed_frame [simp]:
  "pm_analyses (snd (elapsed b m)) = pm_analyses m"
  "pm_instrumentation (snd (elapsed b m)) = pm_instrumentation m"
  "pm_config (snd (elapsed b m)) = pm_config m"
  "pm_artifacts (snd (elapsed b m)) = pm_artifacts m"
  "pm_records (snd (elapsed b m)) = pm_records m"
  "pm_stats (snd (elapsed b m)) = pm_stats m"
  "pm_current_unit (snd (elapsed b m)) = pm_current_unit m"
  by (simp_all add: elapsed_def)

text \<open>Only unit and artifacts matter for the requirements of a pass.\<close>

lemma find_missing_cong:
  "pm_current_unit m = pm_current_unit m' \<Longrightarrow> pm_artifacts m = pm_artifacts m' \<Longrightarrow> find_missing m xs = find_missing m' xs"
  using resolve_cong [of m m'] by (induction xs) (auto split: option.splits)

lemma scope_matches_cong: "pm_current_unit m = pm_current_unit m' \<Longrightarrow> scope_matches m = scope_matches m'"
  by (rule ext) (simp add: scope_matches_def)

text \<open>When a pass is run at all.\<close>

definition admitted :: "('h, 'v) pass_manager \<Rightarrow> pass_descriptor \<Rightarrow> bool" where
  "admitted m d \<longleftrightarrow> fst (execution_interruption m) = None \<and> should_run (pm_config m) (pd_name d) \<and>
     scope_matches m (pd_scope d) \<and> \<not> should_stop_before (pm_config m) (pd_name d) \<and>
     find_missing m (as_iter (pd_requires d)) = None"

text \<open>The verdict on a pass that is not run.\<close>

definition refusal :: "('h, 'v) pass_manager \<Rightarrow> pass_descriptor \<Rightarrow> pass_control" where
  "refusal m d =
     (case fst (execution_interruption m) of
        Some i \<Rightarrow> Failed (failure_interrupted i)
      | None \<Rightarrow>
          if \<not> should_run (pm_config m) (pd_name d) then Continue
          else if \<not> scope_matches m (pd_scope d)
          then Failed (failure_scope_mismatch (pd_name d) (pd_scope d) (pm_current_unit m))
          else if should_stop_before (pm_config m) (pd_name d) then Stop
          else case find_missing m (as_iter (pd_requires d)) of
                 Some missing \<Rightarrow> Failed (failure_missing_artifact_ref missing) | None \<Rightarrow> Continue)"

lemma run_pass_admitted:
  assumes "admitted m d"
  shows "run_pass cl p d c m =
     execute_pass cl p d \<lparr>px_current_unit = pm_current_unit m\<rparr> c (snd (execution_interruption m))"
proof -
  obtain i m1 where e: "execution_interruption m = (i, m1)" by fastforce
  with execution_interruption_frame [of m] have m1: "pm_config m1 = pm_config m"
    "pm_artifacts m1 = pm_artifacts m" "pm_current_unit m1 = pm_current_unit m" by simp_all
  note cong = find_missing_cong [OF m1(3,2)] scope_matches_cong [OF m1(3)]
  show ?thesis using assms by (simp add: run_pass_def admitted_def e m1(1) cong Let_def)
qed

lemma run_pass_refused:
  assumes "\<not> admitted m d"
  obtains m' where "run_pass cl p d c m = (refusal m d, p, c, m')"
    "pm_artifacts m' = pm_artifacts m |-| (if is_failed (refusal m d) then resolve_artifact_set m (pd_produces d) else {||})"
    "pm_analyses m' = pm_analyses m" "pm_current_unit m' = pm_current_unit m" "pm_config m' = pm_config m"
proof -
  obtain i m1 where e: "execution_interruption m = (i, m1)" by fastforce
  with execution_interruption_frame [of m] have m1: "pm_analyses m1 = pm_analyses m" "pm_config m1 = pm_config m"
    "pm_artifacts m1 = pm_artifacts m" "pm_current_unit m1 = pm_current_unit m" by simp_all
  note cong = find_missing_cong [OF m1(4,3)] scope_matches_cong [OF m1(4)] resolve_set_cong [OF m1(4)]
  note defs = run_pass_def refusal_def e m1 cong Let_def case_prod_beta record_skipped_def count_stopped_def
    finish_pass_artifacts finish_pass_control rejected_def result_unchanged_def as_new_def
  let ?m' = "snd (snd (snd (run_pass cl p d c m)))"
  have "run_pass cl p d c m = (refusal m d, p, c, ?m') \<and>
    pm_artifacts ?m' = pm_artifacts m |-| (if is_failed (refusal m d) then resolve_artifact_set m (pd_produces d) else {||}) \<and>
    pm_analyses ?m' = pm_analyses m \<and> pm_current_unit ?m' = pm_current_unit m \<and> pm_config ?m' = pm_config m"
  proof (cases i)
    case (Some x)
    then show ?thesis by (simp add: defs)
  next
    case None
    show ?thesis
    proof (cases "should_run (pm_config m) (pd_name d) \<and> scope_matches m (pd_scope d) \<and>
        \<not> should_stop_before (pm_config m) (pd_name d)")
      case True
      with assms None e have "find_missing m (as_iter (pd_requires d)) \<noteq> None" by (simp add: admitted_def)
      with True None show ?thesis by (auto simp: defs)
    next
      case False
      with None show ?thesis by (auto simp: defs)
    qed
  qed
  then show thesis using that by blast
qed

text \<open>
  C6: a pass is called only when it may be. \<open>run_pass\<close> calls the pass exactly when no interruption is
  pending, the configuration lets the pass run and does not stop before it, the scope of the
  pass fits the current unit, and each required artifact resolves to one that is available. In every
  other case neither the pass nor the context changes, cached analyses stay, and the
  verdict names the reason: an interruption, a scope mismatch or a missing artifact is a
  failure, a disabled pass is skipped with \<open>Continue\<close>, and \<open>stop_before\<close> gives \<open>Stop\<close>. A failure
  for a missing artifact carries the key of a requirement that is not available.
\<close>

theorem run_pass_guards:
  "if admitted m d
   then run_pass cl p d c m = execute_pass cl p d \<lparr>px_current_unit = pm_current_unit m\<rparr> c (snd (execution_interruption m)) \<and>
     fset (pd_requires d) \<subseteq> {a. \<exists>r. resolve_artifact_ref m a = Some r \<and> r |\<in>| pm_artifacts m}
   else \<exists>m'. run_pass cl p d c m = (refusal m d, p, c, m') \<and> pm_analyses m' = pm_analyses m \<and>
     pm_artifacts m' |\<subseteq>| pm_artifacts m \<and>
     (case find_missing m (as_iter (pd_requires d)) of
        None \<Rightarrow> True
      | Some r \<Rightarrow> pf_missing_artifact (failure_missing_artifact_ref r) = Some (ar_key r) \<and>
          ar_key r \<in> ar_key ` fset (pd_requires d) \<and>
          (r |\<notin>| pm_artifacts m \<or> resolve_artifact_ref m r = None))"
proof (cases "admitted m d")
  case True
  then have "find_missing m (as_iter (pd_requires d)) = None" by (simp add: admitted_def)
  with True run_pass_admitted [OF True] show ?thesis by (auto simp: find_missing_None)
next
  case False
  then obtain m' where m': "run_pass cl p d c m = (refusal m d, p, c, m')"
    "pm_artifacts m' |\<subseteq>| pm_artifacts m" "pm_analyses m' = pm_analyses m"
    by (rule run_pass_refused [of m d cl p c]) auto
  have "case find_missing m (as_iter (pd_requires d)) of
        None \<Rightarrow> True
      | Some r \<Rightarrow> pf_missing_artifact (failure_missing_artifact_ref r) = Some (ar_key r) \<and>
          ar_key r \<in> ar_key ` fset (pd_requires d) \<and>
          (r |\<notin>| pm_artifacts m \<or> resolve_artifact_ref m r = None)"
  proof (cases "find_missing m (as_iter (pd_requires d))")
    case (Some r)
    from find_missing_Some(2) [OF Some] have "ar_key r \<in> ar_key ` fset (pd_requires d)"
      unfolding set_as_iter by (metis imageI)
    with Some find_missing_Some(1) [OF Some] show ?thesis by (simp add: failure_missing_artifact_ref_def)
  qed simp
  with m' False show ?thesis by auto
qed

text \<open>The state of the manager that a pass is called with, and the artifacts it declares in the end.\<close>

definition prepared :: "('p, 'h, 'v, 'c) client \<Rightarrow> pass_descriptor \<Rightarrow> 'c \<Rightarrow> ('h, 'v) pass_manager \<Rightarrow> ('h, 'v) pass_manager" where
  "prepared cl d c m = (snd (execution_interruption m))\<lparr>pm_instrumentation :=
     map (\<lambda>hook. cl_before_pass cl hook d \<lparr>px_current_unit = pm_current_unit m\<rparr> c) (pm_instrumentation m)\<rparr>"

definition declared :: "('h, 'v) pass_manager \<Rightarrow> pass_descriptor \<Rightarrow> pass_result \<Rightarrow> artifact_set" where
  "declared m d r = resolve_artifact_set m (rs_produced r) |\<union>| resolve_artifact_set m (pd_produces d)"

lemma execute_pass_ledger:
  assumes run: "cl_run cl p c x (m\<lparr>pm_instrumentation := map (\<lambda>hook. cl_before_pass cl hook d x c) (pm_instrumentation m)\<rparr>) = (r, p', c', m1)"
    and go: "execution_interruption m1 = (None, m2)"
    and res: "execute_pass cl p d x c m = (control, q, c'', m')"
  shows "q = p' \<and> c'' = c' \<and>
    pm_artifacts m' =
      (let A = (if rs_changed r then retained (rs_preserved r) (pm_artifacts m1) else pm_artifacts m1)
       in if is_failed (rs_control r) then A |-| declared m1 d r else A |\<union>| declared m1 d r) \<and>
    (\<exists>rec. pm_records m' = pm_records m1 @ [rec] \<and> rr_control rec = rs_control r \<and> rr_changed rec = rs_changed r \<and>
       \<not> rr_skipped rec \<and> rr_produced rec = (if is_failed (rs_control r) then {||} else declared m1 d r) \<and>
       pm_artifacts m1 |-| pm_artifacts m' |\<subseteq>| rr_invalidated rec)"
proof -
  have m2: "pm_analyses m2 = pm_analyses m1" "pm_artifacts m2 = pm_artifacts m1" "pm_records m2 = pm_records m1"
    "pm_current_unit m2 = pm_current_unit m1"
    using execution_interruption_frame [of m1] by (simp_all add: go)
  note cong = resolve_set_cong [OF m2(4)]
  show ?thesis
  proof (cases "is_failed (rs_control r)")
    case True
    let ?iv = "if rs_changed r then invalidate_after_change (rs_preserved r) as_new m2 else (as_new, m2)"
    obtain iv m3 where iv: "?iv = (iv, m3)" by fastforce
    then have m3: "pm_artifacts m3 = (if rs_changed r then retained (rs_preserved r) (pm_artifacts m1) else pm_artifacts m1)"
      "pm_records m3 = pm_records m1" "pm_current_unit m3 = pm_current_unit m1"
      "pm_artifacts m1 |-| pm_artifacts m3 |\<subseteq>| iv"
      using invalidate_manager [of "rs_preserved r" as_new m2] invalidate_complete [of m2 "rs_preserved r" as_new] m2
      by (auto simp: as_new_def split: if_splits)
    obtain dur m4 where dur: "elapsed (cf_collect_timing (pm_config m)) m3 = (dur, m4)" by fastforce
    then have m4: "pm_artifacts m4 = pm_artifacts m3" "pm_records m4 = pm_records m3" "pm_current_unit m4 = pm_current_unit m3"
      using elapsed_frame [of "cf_collect_timing (pm_config m)" m3] by simp_all
    let ?r = "r\<lparr>rs_produced := resolve_artifact_set m1 (rs_produced r)\<rparr>"
    have "(control, q, c'', m') = (case finish_pass cl d x ?r iv dur c' m4 of (control, m) \<Rightarrow> (control, p', c', m))"
      using res True iv dur by (cases "rs_changed r") (simp_all add: execute_pass_def Let_def run go cong)
    then have m': "q = p'" "c'' = c'" "m' = snd (finish_pass cl d x ?r iv dur c' m4)"
      by (simp_all add: case_prod_beta)
    have rej: "rejected m4 d ?r = declared m1 d r"
      using True resolve_set_cong [of m4 m1] m3 m4 by (auto simp: rejected_def declared_def)
    show ?thesis
      unfolding m' finish_pass_artifacts finish_pass_records rej m4 m3(1,2)
      using True m3(4) by (auto simp: Let_def m3(1))
  next
    case False
    obtain dur m3 where dur: "elapsed (cf_collect_timing (pm_config m)) m2 = (dur, m3)" by fastforce
    then have m3: "pm_artifacts m3 = pm_artifacts m1" "pm_records m3 = pm_records m1" "pm_current_unit m3 = pm_current_unit m1"
      using elapsed_frame [of "cf_collect_timing (pm_config m)" m2] m2 by simp_all
    let ?P = "declared m1 d r"
    let ?iv = "if rs_changed r then invalidate_after_change (rs_preserved r) ?P m3 else (as_new, m3)"
    obtain iv m4 where iv: "?iv = (iv, m4)" by fastforce
    then have m4: "pm_artifacts m4 |\<union>| ?P = (if rs_changed r then retained (rs_preserved r) (pm_artifacts m1) else pm_artifacts m1) |\<union>| ?P"
      "pm_records m4 = pm_records m1" "pm_artifacts m1 |-| pm_artifacts m4 |\<subseteq>| iv"
      using invalidate_manager [of "rs_preserved r" ?P m3] invalidate_complete [of m3 "rs_preserved r" ?P] m3
      by (auto simp: as_new_def split: if_splits)
    let ?r = "r\<lparr>rs_produced := ?P\<rparr>" and ?m = "m4\<lparr>pm_artifacts := pm_artifacts m4 |\<union>| ?P\<rparr>"
    have "(control, q, c'', m') = (case finish_pass cl d x ?r iv dur c' ?m of (control, m) \<Rightarrow> (control, p', c', m))"
      using res False iv dur by (cases "rs_changed r") (simp_all add: execute_pass_def Let_def run go cong declared_def)
    then have m': "q = p'" "c'' = c'" "m' = snd (finish_pass cl d x ?r iv dur c' ?m)"
      by (simp_all add: case_prod_beta)
    have rej: "rejected ?m d ?r = {||}" using False by (simp add: rejected_def)
    have art: "pm_artifacts m' = pm_artifacts m4 |\<union>| ?P" unfolding m' finish_pass_artifacts rej by simp
    then have "pm_artifacts m1 |-| pm_artifacts m' |\<subseteq>| iv" using m4(3) by auto
    moreover have "\<exists>rec. pm_records m' = pm_records m1 @ [rec] \<and> rr_control rec = rs_control r \<and> rr_changed rec = rs_changed r \<and>
       \<not> rr_skipped rec \<and> rr_produced rec = ?P \<and> rr_invalidated rec = iv"
      unfolding m'(3) finish_pass_records rej using False by (simp add: m4(2))
    ultimately show ?thesis using False m'(1,2) art m4(1) by (auto simp: Let_def)
  qed
qed


text \<open>How every run of a pass ends, with the manager the pass left behind.\<close>

definition same_run :: "('h, 'v) pass_manager \<Rightarrow> ('h, 'v) pass_manager \<Rightarrow> bool" where
  "same_run m m' \<longleftrightarrow> pm_records m = pm_records m' \<and> pm_stats m = pm_stats m' \<and> pm_current_unit m = pm_current_unit m'"

definition left_by :: "('p, 'h, 'v, 'c) client \<Rightarrow> ('h, 'v) pass_manager \<Rightarrow> ('h, 'v) pass_manager \<Rightarrow> bool" where
  "left_by cl m m' \<longleftrightarrow> same_run m' m \<or>
     (\<exists>p c x m0 r p' c' m1. same_run m0 m \<and> cl_run cl p c x m0 = (r, p', c', m1) \<and> same_run m' m1)"

lemma invalidate_same_run: "same_run (snd (invalidate_after_change q P m)) m"
  by (simp add: invalidate_manager same_run_def)

lemma elapsed_same_run: "same_run (snd (elapsed b m)) m"
  by (simp add: same_run_def)

lemma same_run_trans: "same_run a b \<Longrightarrow> same_run b c \<Longrightarrow> same_run a c"
  by (simp add: same_run_def)

lemma execute_pass_ends:
  assumes "execute_pass cl p d x c m = (control, q, c'', m')"
  shows "\<exists>r iv dur c1 m0. finish_pass cl d x r iv dur c1 m0 = (control, m') \<and> left_by cl m m0"
proof -
  let ?m = "m\<lparr>pm_instrumentation := map (\<lambda>hook. cl_before_pass cl hook d x c) (pm_instrumentation m)\<rparr>"
  obtain r p' c' m1 where run: "cl_run cl p c x ?m = (r, p', c', m1)" by (cases "cl_run cl p c x ?m") auto
  obtain i m2 where e: "execution_interruption m1 = (i, m2)" by fastforce
  then have "same_run m2 m1" using execution_interruption_frame [of m1] by (simp add: same_run_def)
  moreover have "same_run ?m m" by (simp add: same_run_def)
  ultimately have left: "left_by cl m m0" if "same_run m0 m2" for m0
    using run same_run_trans [OF that] unfolding left_by_def by blast
  let ?b = "cf_collect_timing (pm_config m)"
  consider (interrupted) r' where "finish_pass cl d x r' as_new (fst (elapsed ?b m2)) c' (snd (elapsed ?b m2)) = (control, m')"
    | (failed) r' iv m3 where "finish_pass cl d x r' iv (fst (elapsed ?b m3)) c' (snd (elapsed ?b m3)) = (control, m')" "same_run m3 m2"
    | (finished) r' iv dur m3 P where "finish_pass cl d x r' iv dur c' (m3\<lparr>pm_artifacts := P\<rparr>) = (control, m')" "same_run m3 m2"
  proof (cases i)
    case (Some j)
    with assms interrupted show ?thesis by (simp add: execute_pass_def Let_def run e case_prod_beta) (metis prod.collapse)
  next
    case None
    let ?r = "r\<lparr>rs_produced := resolve_artifact_set m2 (rs_produced r)\<rparr>"
    show ?thesis
    proof (cases "is_failed (rs_control r)")
      case True
      let ?iv = "if rs_changed r then invalidate_after_change (rs_preserved r) as_new m2 else (as_new, m2)"
      have "same_run (snd ?iv) m2" using invalidate_same_run [of _ _ m2] by (simp add: same_run_def)
      moreover have "finish_pass cl d x ?r (fst ?iv) (fst (elapsed ?b (snd ?iv))) c' (snd (elapsed ?b (snd ?iv))) = (control, m')"
        using assms True None by (cases "rs_changed r") (auto simp: execute_pass_def Let_def run e case_prod_beta prod_eq_iff)
      ultimately show ?thesis using failed by blast
    next
      case False
      let ?m3 = "snd (elapsed ?b m2)" and ?P = "resolve_artifact_set m2 (rs_produced r) |\<union>| resolve_artifact_set m2 (pd_produces d)"
      let ?iv = "if rs_changed r then invalidate_after_change (rs_preserved r) ?P ?m3 else (as_new, ?m3)"
      have "same_run (snd ?iv) m2"
        by (auto intro: same_run_trans [OF invalidate_same_run elapsed_same_run] elapsed_same_run)
      moreover have "finish_pass cl d x (r\<lparr>rs_produced := ?P\<rparr>) (fst ?iv) (fst (elapsed ?b m2)) c'
          ((snd ?iv)\<lparr>pm_artifacts := pm_artifacts (snd ?iv) |\<union>| ?P\<rparr>) = (control, m')"
        using assms False None by (cases "rs_changed r") (auto simp: execute_pass_def Let_def run e case_prod_beta prod_eq_iff)
      ultimately show ?thesis using finished by blast
    qed
  qed
  then show ?thesis
  proof cases
    case interrupted
    then show ?thesis using left [OF elapsed_same_run] by blast
  next
    case failed
    then show ?thesis using left [OF same_run_trans [OF elapsed_same_run]] by blast
  next
    case finished
    have "same_run (m3\<lparr>pm_artifacts := P\<rparr>) m2" using finished(2) by (simp add: same_run_def)
    with finished(1) left show ?thesis by blast
  qed
qed

lemma run_pass_ends:
  assumes "run_pass cl p d c m = (control, q, c'', m')"
  shows "(\<exists>m0. control = Continue \<and> m' = record_skipped d m0 \<and> same_run m0 m) \<or>
    (\<exists>m0. control = Stop \<and> m' = count_stopped m0 \<and> same_run m0 m) \<or>
    (\<exists>x r iv dur c1 m0. finish_pass cl d x r iv dur c1 m0 = (control, m') \<and> left_by cl m m0)"
proof -
  obtain i m1 where e: "execution_interruption m = (i, m1)" by fastforce
  then have same: "same_run m1 m" using execution_interruption_frame [of m] by (simp add: same_run_def)
  then have left: "left_by cl m m1" by (simp add: left_by_def)
  have ex: "left_by cl m m0" if "left_by cl m1 m0" for m0
    using that same by (auto simp: left_by_def same_run_def)
  let ?x = "\<lparr>px_current_unit = pm_current_unit m\<rparr>"
  consider (fin) r where "finish_pass cl d ?x r as_new None c m1 = (control, m')"
    | (skip) "control = Continue" "m' = record_skipped d m1"
    | (stop) "control = Stop" "m' = count_stopped m1"
    | (exec) "execute_pass cl p d ?x c m1 = (control, q, c'', m')"
    using assms unfolding run_pass_def e Let_def prod.case
    by (auto simp: case_prod_beta prod_eq_iff split: option.splits if_splits)
  then show ?thesis
  proof cases
    case fin
    with left show ?thesis by blast
  next
    case exec
    from execute_pass_ends [OF exec] ex show ?thesis by blast
  qed (use same in auto)
qed

text \<open>
  C37: a failed pass leaves nothing behind. Whenever \<open>run_pass\<close> returns a failure, for whatever reason,
  none of the artifacts the pass declares, resolved for the current unit, is available
  afterwards, and the last record reports the failure and no produced artifact.
\<close>

theorem failed_pass_withdraws:
  assumes "run_pass cl p d c m = (Failed f, p', c', m')"
  shows "resolve_artifact_set m' (pd_produces d) |\<inter>| pm_artifacts m' = {||} \<and>
    (\<exists>recs rec. pm_records m' = recs @ [rec] \<and> rr_pass rec = pd_name d \<and> rr_control rec = Failed f \<and>
       \<not> rr_skipped rec \<and> rr_produced rec = {||})"
proof -
  from run_pass_ends [OF assms] obtain x r iv dur c1 m0 where fin: "finish_pass cl d x r iv dur c1 m0 = (Failed f, m')"
    by auto
  then have r: "rs_control r = Failed f" using finish_pass_control [of cl d x r iv dur c1 m0] by (auto split: if_splits)
  have m': "m' = snd (finish_pass cl d x r iv dur c1 m0)" by (simp add: fin)
  then have unit: "resolve_artifact_set m' = resolve_artifact_set m0" by (intro resolve_set_cong) simp
  have art: "pm_artifacts m' = pm_artifacts m0 |-| (resolve_artifact_set m0 (pd_produces d) |\<union>| rs_produced r)"
    unfolding m' finish_pass_artifacts rejected_def by (simp add: r)
  have "resolve_artifact_set m' (pd_produces d) |\<inter>| pm_artifacts m' = {||}" unfolding unit art by auto
  moreover have "\<exists>recs rec. pm_records m' = recs @ [rec] \<and> rr_pass rec = pd_name d \<and> rr_control rec = Failed f \<and>
       \<not> rr_skipped rec \<and> rr_produced rec = {||}"
    unfolding m' finish_pass_records by (auto simp: r)
  ultimately show ?thesis by blast
qed

section \<open>Invariants of runs\<close>

text \<open>
  What a property of the records and statistics must satisfy to survive every run: it must depend on
  nothing else and be kept by the three ways in which a pass is recorded. It is then kept
  by whole pipelines, provided the passes keep it when they use the manager themselves.
\<close>

definition keeps :: "('p, 'h, 'v, 'c) client \<Rightarrow> (('h, 'v) pass_manager \<Rightarrow> bool) \<Rightarrow> bool" where
  "keeps cl I \<longleftrightarrow> (\<forall>p c x m. I m \<longrightarrow> I (snd (snd (snd (cl_run cl p c x m)))))"

locale run_invariant =
  fixes cl :: "('p, 'h, 'v, 'c) client" and I :: "('h, 'v) pass_manager \<Rightarrow> bool"
  assumes frame: "I m \<Longrightarrow> pm_records m' = pm_records m \<Longrightarrow> pm_stats m' = pm_stats m \<Longrightarrow> I m'"
    and skipped: "I m \<Longrightarrow> I (record_skipped d m)"
    and stopped: "I m \<Longrightarrow> I (count_stopped m)"
    and finished: "I m \<Longrightarrow> I (snd (finish_pass cl d x r iv dur c m))"
begin

lemma same_run_I: "same_run m' m \<Longrightarrow> I m \<Longrightarrow> I m'"
  by (rule frame) (simp_all add: same_run_def)

lemma run_pass_I:
  assumes "keeps cl I" "I m" "run_pass cl p d c m = (control, p', c', m')"
  shows "I m'"
proof -
  have left: "I m0" if "left_by cl m m0" for m0
    using that unfolding left_by_def
  proof (elim disjE exE conjE)
    fix p c x m2 r p' c' m1 assume *: "same_run m2 m" "cl_run cl p c x m2 = (r, p', c', m1)" "same_run m0 m1"
    have "I m1" using assms(1) same_run_I [OF *(1) assms(2)] *(2) unfolding keeps_def by (metis snd_conv)
    then show "I m0" using same_run_I [OF *(3)] by blast
  qed (use assms(2) same_run_I in blast)
  from run_pass_ends [OF assms(3)] show ?thesis
  proof (elim disjE exE conjE)
    fix x r iv dur c1 m0 assume "finish_pass cl d x r iv dur c1 m0 = (control, m')" "left_by cl m m0"
    then show ?thesis using finished [OF left, of m0 d x r iv dur c1] by simp
  qed (use assms(2) same_run_I skipped stopped in blast)+
qed

lemma unit_I: "I (m\<lparr>pm_current_unit := u\<rparr>) \<longleftrightarrow> I m"
  by (auto elim!: frame)

lemma run_units_I:
  assumes "\<And>s. I (fst s) \<Longrightarrow> I (fst (snd (run s)))" "I (fst s)"
  shows "I (fst (snd (run_units run us s)))"
  using assms(2)
proof (induction us arbitrary: s)
  case (Cons u us)
  obtain m ps c where s: "s = (m, ps, c)" by (cases s) auto
  obtain control s' where r: "run (m\<lparr>pm_current_unit := Some u\<rparr>, ps, c) = (control, s')" using prod.exhaust by blast
  have "I (fst s')" using assms(1) [of "(m\<lparr>pm_current_unit := Some u\<rparr>, ps, c)"] Cons.prems by (simp add: s r unit_I)
  with Cons.IH [of s'] show ?case by (cases control) (simp_all add: s r)
qed simp

lemma run_steps_I:
  assumes "keeps cl I"
  shows "I (fst s) \<Longrightarrow> I (fst (snd (run_steps cl steps s)))" "I (fst s) \<Longrightarrow> I (fst (snd (run_step cl step s)))"
proof (induction cl\<equiv>cl steps s and cl\<equiv>cl step s rule: run_steps_run_step.induct)
  case (2 step steps s)
  obtain control s' where r: "run_step cl step s = (control, s')" using prod.exhaust by blast
  with 2 have "I (fst s')" by simp
  with 2 r show ?case by (cases control) simp_all
next
  case (3 i s)
  obtain m ps c where s: "s = (m, ps, c)" by (cases s) auto
  obtain control p c' m' where r: "run_pass cl (ps i) (cl_descriptor cl (ps i)) c m = (control, p, c', m')"
    by (cases "run_pass cl (ps i) (cl_descriptor cl (ps i)) c m") auto
  with run_pass_I [OF assms _ r] 3 show ?case by (simp add: s run_pass_step_def r)
next
  case (5 selector unit_ord name steps m ps c)
  have "I (fst (snd (run_units (run_steps cl steps) (cl_units cl c selector unit_ord) (m, ps, c))))"
    using 5 by (intro run_units_I) auto
  then show ?case by (simp add: Let_def case_prod_beta unit_I)
qed simp_all

lemma run_pipeline_I:
  assumes "keeps cl I" "I (reset_run (fst s))"
  shows "I (fst (snd (run_pipeline cl p s)))"
  using run_steps_I(1) [OF assms(1), of "(reset_run (fst s), snd s)" "pipe_steps p"] assms(2)
  by (cases s) (simp add: run_pipeline_def case_prod_beta)

end

section \<open>Records and statistics\<close>

definition count_records :: "(pass_run_record \<Rightarrow> bool) \<Rightarrow> pass_run_record list \<Rightarrow> u32" where
  "count_records P records = of_nat (length (filter P records))"

lemma count_records_snoc: "count_records P (rs @ [r]) = count_records P rs + (if P r then 1 else 0)"
  by (simp add: count_records_def)

definition stats_agree :: "('h, 'v) pass_manager \<Rightarrow> bool" where
  "stats_agree m \<longleftrightarrow>
     st_executed (pm_stats m) = count_records (\<lambda>r. \<not> rr_skipped r) (pm_records m) \<and>
     st_skipped (pm_stats m) = count_records rr_skipped (pm_records m) \<and>
     st_changed (pm_stats m) = count_records rr_changed (pm_records m) \<and>
     st_failed (pm_stats m) = count_records (\<lambda>r. is_failed (rr_control r)) (pm_records m)"

definition records_ok :: "('h, 'v) pass_manager \<Rightarrow> bool" where
  "records_ok m \<longleftrightarrow> list_all (\<lambda>r.
     (is_failed (rr_control r) \<longrightarrow> rr_produced r = {||}) \<and>
     (rr_skipped r \<longrightarrow> rr_control r = Continue \<and> \<not> rr_changed r \<and> rr_produced r = {||} \<and> rr_invalidated r = {||})) (pm_records m)"

interpretation stats_inv: run_invariant cl stats_agree for cl
  by unfold_locales
    (auto simp: stats_agree_def record_skipped_def count_stopped_def finish_pass_records finish_pass_stats count_records_snoc)

interpretation records_inv: run_invariant cl records_ok for cl
  by unfold_locales
    (auto simp: records_ok_def record_skipped_def count_stopped_def finish_pass_records as_new_def)

lemma run_pipeline_result:
  "pl_stats (fst (run_pipeline cl p s)) = pm_stats (fst (snd (run_pipeline cl p s)))"
  "pl_records (fst (run_pipeline cl p s)) = pm_records (fst (snd (run_pipeline cl p s)))"
  by (cases s; simp add: run_pipeline_def case_prod_beta run_result_def run_completed_def run_stopped_def
      split: pass_control.splits)+

text \<open>
  The counter \<open>stopped\<close> belongs to the verdict and not to the records: a pass that is stopped at before it runs
  has no record, and one that is stopped after has the record of a pass that continues.
\<close>

definition leaves_stopped :: "('p, 'h, 'v, 'c) client \<Rightarrow> bool" where
  "leaves_stopped cl \<longleftrightarrow>
     (\<forall>p c x m. st_stopped (pm_stats (snd (snd (snd (cl_run cl p c x m))))) = st_stopped (pm_stats m))"

definition stops :: "pass_control \<Rightarrow> u32" where
  "stops control = (if control = Stop then 1 else 0)"

lemma finish_pass_stopped:
  assumes "finish_pass cl d x r iv dur c m = (control, m')"
  shows "st_stopped (pm_stats m') = st_stopped (pm_stats m) + stops control"
proof -
  have "st_stopped (pm_stats (snd (finish_pass cl d x r iv dur c m))) =
      st_stopped (pm_stats m) + stops (fst (finish_pass cl d x r iv dur c m))"
    by (cases "rs_control r") (simp_all add: finish_pass_def count_stopped_def stops_def Let_def)
  with assms show ?thesis by simp
qed

lemma run_pass_stopped:
  assumes "leaves_stopped cl" "run_pass cl p d c m = (control, p', c', m')"
  shows "st_stopped (pm_stats m') = st_stopped (pm_stats m) + stops control"
proof -
  have left: "st_stopped (pm_stats m0) = st_stopped (pm_stats m)" if "left_by cl m m0" for m0
    using that assms(1) by (auto simp: left_by_def same_run_def leaves_stopped_def) (metis snd_conv)
  from run_pass_ends [OF assms(2)] show ?thesis
  proof (elim disjE exE conjE)
    fix x r iv dur c1 m0 assume "finish_pass cl d x r iv dur c1 m0 = (control, m')" "left_by cl m m0"
    then show ?thesis using finish_pass_stopped left by metis
  qed (auto simp: record_skipped_def count_stopped_def same_run_def stops_def)
qed

lemma run_units_stopped:
  assumes "\<And>s. st_stopped (pm_stats (fst (snd (run s)))) = st_stopped (pm_stats (fst s)) + stops (fst (run s))"
  shows "st_stopped (pm_stats (fst (snd (run_units run us s)))) =
    st_stopped (pm_stats (fst s)) + stops (fst (run_units run us s))"
proof (induction us arbitrary: s)
  case (Cons u us)
  obtain m ps c where s: "s = (m, ps, c)" by (cases s) auto
  obtain control s' where r: "run (m\<lparr>pm_current_unit := Some u\<rparr>, ps, c) = (control, s')" using prod.exhaust by blast
  from assms [of "(m\<lparr>pm_current_unit := Some u\<rparr>, ps, c)"] Cons.IH [of s'] show ?case
    by (cases control) (simp_all add: s r stops_def)
qed (simp add: stops_def)

lemma run_steps_stopped:
  assumes "leaves_stopped cl"
  shows "st_stopped (pm_stats (fst (snd (run_steps cl steps s)))) = st_stopped (pm_stats (fst s)) + stops (fst (run_steps cl steps s))"
    and "st_stopped (pm_stats (fst (snd (run_step cl step s)))) = st_stopped (pm_stats (fst s)) + stops (fst (run_step cl step s))"
proof (induction cl\<equiv>cl steps s and cl\<equiv>cl step s rule: run_steps_run_step.induct)
  case (2 step steps s)
  obtain control s' where r: "run_step cl step s = (control, s')" using prod.exhaust by blast
  with 2 show ?case by (cases control) (simp_all add: stops_def)
next
  case (3 i s)
  obtain m ps c where s: "s = (m, ps, c)" by (cases s) auto
  obtain control p c' m' where r: "run_pass cl (ps i) (cl_descriptor cl (ps i)) c m = (control, p, c', m')"
    by (cases "run_pass cl (ps i) (cl_descriptor cl (ps i)) c m") auto
  with run_pass_stopped [OF assms r] show ?case by (simp add: s run_pass_step_def r)
next
  case (5 selector unit_ord name steps m ps c)
  have "st_stopped (pm_stats (fst (snd (run_units (run_steps cl steps) (cl_units cl c selector unit_ord) (m, ps, c))))) =
      st_stopped (pm_stats m) + stops (fst (run_units (run_steps cl steps) (cl_units cl c selector unit_ord) (m, ps, c)))"
    using 5 run_units_stopped [of "run_steps cl steps" _ "(m, ps, c)"] by simp
  then show ?case by (simp add: Let_def case_prod_beta)
qed (simp_all add: stops_def)

text \<open>
  C38: the statistics a run of a pipeline returns agree with its records and its verdict. If the passes
  preserve the agreement of statistics and records, and the form of the records, when they use the manager
  themselves, then the numbers of passes executed, skipped, changed and failed are, modulo the
  width of the counters, the numbers of the records that say so; a record of a failed pass has no
  produced artifacts, and that of a skipped pass no change. The counter \<open>stopped\<close> is no count of records: it
  is 1 if the verdict of the run is \<open>Stop\<close> and 0 otherwise, if the passes leave that counter alone.
\<close>

theorem pipeline_stats_match_records:
  assumes "keeps cl (\<lambda>m. stats_agree m)" "keeps cl (\<lambda>m. records_ok m)"
  shows "let result = fst (run_pipeline cl p s); rs = pl_records result in
    st_executed (pl_stats result) = of_nat (length (filter (\<lambda>r. \<not> rr_skipped r) rs)) \<and>
    st_skipped (pl_stats result) = of_nat (length (filter rr_skipped rs)) \<and>
    st_changed (pl_stats result) = of_nat (length (filter rr_changed rs)) \<and>
    st_failed (pl_stats result) = of_nat (length (filter (\<lambda>r. is_failed (rr_control r)) rs)) \<and>
    (\<forall>r\<in>set rs. (is_failed (rr_control r) \<longrightarrow> rr_produced r = {||}) \<and> (rr_skipped r \<longrightarrow> \<not> rr_changed r)) \<and>
    (leaves_stopped cl \<longrightarrow> st_stopped (pl_stats result) = (if pl_control result = Stop then 1 else 0))"
proof -
  let ?m = "fst (snd (run_pipeline cl p s))"
  have "stats_agree (reset_run (fst s))" "records_ok (reset_run (fst s))"
    by (simp_all add: stats_agree_def records_ok_def reset_run_def pipeline_stats_default_def count_records_def)
  then have "stats_agree ?m" "records_ok ?m"
    using stats_inv.run_pipeline_I [OF assms(1)] records_inv.run_pipeline_I [OF assms(2)] by blast+
  moreover have "st_stopped (pm_stats ?m) = (if pl_control (fst (run_pipeline cl p s)) = Stop then 1 else 0)"
    if "leaves_stopped cl"
    using run_steps_stopped(1) [OF that, of "pipe_steps p" "(reset_run (fst s), snd s)"]
    by (cases s) (auto simp: run_pipeline_def case_prod_beta stops_def reset_run_def pipeline_stats_default_def
        run_result_def run_completed_def run_stopped_def split: pass_control.splits)
  ultimately show ?thesis
    by (simp add: run_pipeline_result Let_def stats_agree_def records_ok_def count_records_def list_all_iff)
qed

section \<open>The current unit\<close>

definition keeps_unit :: "('p, 'h, 'v, 'c) client \<Rightarrow> bool" where
  "keeps_unit cl \<longleftrightarrow> (\<forall>p c x m. pm_current_unit (snd (snd (snd (cl_run cl p c x m)))) = pm_current_unit m)"

lemma run_pass_unit:
  assumes "keeps_unit cl" "run_pass cl p d c m = (control, p', c', m')"
  shows "pm_current_unit m' = pm_current_unit m"
proof -
  have left: "pm_current_unit m0 = pm_current_unit m" if "left_by cl m m0" for m0
    using that assms(1) by (auto simp: left_by_def same_run_def keeps_unit_def) (metis snd_conv)
  from run_pass_ends [OF assms(2)] show ?thesis
  proof (elim disjE exE conjE)
    fix x r iv dur c1 m0 assume f: "finish_pass cl d x r iv dur c1 m0 = (control, m')" "left_by cl m m0"
    have "pm_current_unit m' = pm_current_unit m0" using finish_pass_frame(3) [of cl d x r iv dur c1 m0] by (simp add: f(1))
    with left [OF f(2)] show ?thesis by simp
  qed (auto simp: record_skipped_def count_stopped_def same_run_def)
qed

lemma run_steps_unit:
  assumes "keeps_unit cl"
  shows "pm_current_unit (fst (snd (run_steps cl steps s))) = pm_current_unit (fst s)"
    and "pm_current_unit (fst (snd (run_step cl step s))) = pm_current_unit (fst s)"
proof (induction cl\<equiv>cl steps s and cl\<equiv>cl step s rule: run_steps_run_step.induct)
  case (2 step steps s)
  obtain control s' where r: "run_step cl step s = (control, s')" using prod.exhaust by blast
  with 2 show ?case by (cases control) simp_all
next
  case (3 i s)
  obtain m ps c where s: "s = (m, ps, c)" by (cases s) auto
  obtain control p c' m' where r: "run_pass cl (ps i) (cl_descriptor cl (ps i)) c m = (control, p, c', m')"
    by (cases "run_pass cl (ps i) (cl_descriptor cl (ps i)) c m") auto
  with run_pass_unit [OF assms r] show ?case by (simp add: s run_pass_step_def r)
qed (simp_all add: Let_def case_prod_beta)

text \<open>
  Units are scoped. A nested pipeline runs with the unit it is given and restores the unit of its
  caller afterwards, whatever its passes do; and so does every list of steps, with its
  loops over units, if the passes themselves leave the current unit alone. A loop over no units does
  nothing.
\<close>

theorem current_unit_restored:
  "pm_current_unit (fst (snd (run_nested_pipeline cl p u s))) = pm_current_unit (fst s) \<and>
   (keeps_unit cl \<longrightarrow> pm_current_unit (fst (snd (run_steps cl steps s))) = pm_current_unit (fst s)) \<and>
   (cl_units cl (snd (snd s)) selector unit_ord = [] \<longrightarrow> run_step cl (ForEach selector unit_ord p) s = (Continue, s))"
proof (intro conjI impI)
  show "pm_current_unit (fst (snd (run_nested_pipeline cl p u s))) = pm_current_unit (fst s)"
    by (simp add: run_nested_pipeline_def case_prod_beta Let_def)
  show "pm_current_unit (fst (snd (run_steps cl steps s))) = pm_current_unit (fst s)" if "keeps_unit cl"
    using that by (rule run_steps_unit(1))
  show "run_step cl (ForEach selector unit_ord p) s = (Continue, s)"
    if "cl_units cl (snd (snd s)) selector unit_ord = []"
    using that by (cases s; cases p) simp
qed

section \<open>The order of execution\<close>

lemma run_steps_append:
  "run_steps cl (xs @ ys) s =
     (case run_steps cl xs s of (Continue, s') \<Rightarrow> run_steps cl ys s' | (control, s') \<Rightarrow> (control, s'))"
proof (induction xs arbitrary: s)
  case (Cons x xs)
  obtain control s' where r: "run_step cl x s = (control, s')" using prod.exhaust by blast
  with Cons show ?case by (cases control) simp_all
qed simp

fun nested_units :: "('p, 'h, 'v, 'c) client \<Rightarrow> pipeline \<Rightarrow> unit_key list \<Rightarrow> ('p, 'h, 'v, 'c) run_state \<Rightarrow>
    pass_control \<times> ('p, 'h, 'v, 'c) run_state" where
  "nested_units cl p [] s = (Continue, s)"
| "nested_units cl p (u # us) s =
     (case run_nested_pipeline cl p (Some u) s of
        (Continue, s') \<Rightarrow> nested_units cl p us s'
      | (control, s') \<Rightarrow> (control, s'))"

lemma run_units_nested:
  "(case run_units (run_steps cl (pipe_steps p)) us (m, ps, c) of
      (control, m', ps', c') \<Rightarrow> (control, m'\<lparr>pm_current_unit := v\<rparr>, ps', c')) =
    nested_units cl p us (m\<lparr>pm_current_unit := v\<rparr>, ps, c)"
proof (induction us arbitrary: m ps c)
  case (Cons u us)
  obtain control m' ps' c' where
    r: "run_steps cl (pipe_steps p) (m\<lparr>pm_current_unit := Some u\<rparr>, ps, c) = (control, m', ps', c')"
    by (metis prod.exhaust)
  then show ?case using Cons.IH [of m' ps' c'] by (cases control) (simp_all add: run_nested_pipeline_def)
qed simp

fun no_for_each :: "pipeline_step \<Rightarrow> bool" where
  "no_for_each (PassStep _) \<longleftrightarrow> True"
| "no_for_each (Group (Pipeline _ steps)) \<longleftrightarrow> list_all no_for_each steps"
| "no_for_each (ForEach _ _ _) \<longleftrightarrow> False"

lemma run_global_steps_eq:
  "list_all no_for_each steps \<Longrightarrow> run_global_steps cl steps s = run_steps cl steps s"
  "no_for_each step \<Longrightarrow> run_global_step cl step s = run_step cl step s"
proof (induction cl steps s and cl step s rule: run_steps_run_step.induct)
  case (2 cl step steps s)
  obtain control s' where r: "run_step cl step s = (control, s')" using prod.exhaust by blast
  with 2 show ?case by (cases control) simp_all
qed simp_all

text \<open>
  C39: the order of execution. Steps run one after the other and the first verdict other than \<open>Continue\<close>
  ends the run; a group is the same as its steps; a loop over units is the same as
  running its pipeline nested once per unit, in the order in which the context lists the units, up
  to the first such verdict; and a pipeline without loops runs in the same way as a
  global pipeline, with the same result.
\<close>

theorem pipeline_structure:
  "run_steps cl (xs @ ys) s =
     (case run_steps cl xs s of (Continue, s') \<Rightarrow> run_steps cl ys s' | (control, s') \<Rightarrow> (control, s')) \<and>
   run_steps cl (Group (Pipeline name xs) # ys) s = run_steps cl (xs @ ys) s \<and>
   run_step cl (ForEach selector unit_ord p) s = nested_units cl p (cl_units cl (snd (snd s)) selector unit_ord) s \<and>
   (list_all no_for_each (pipe_steps p) \<longrightarrow> run_global_pipeline cl p s = run_pipeline cl p s)"
proof (intro conjI impI)
  obtain m ps c where s: "s = (m, ps, c)" by (cases s) auto
  show "run_step cl (ForEach selector unit_ord p) s = nested_units cl p (cl_units cl (snd (snd s)) selector unit_ord) s"
    using run_units_nested [where cl = cl and p = p and us = "cl_units cl c selector unit_ord" and m = m and ps = ps
        and c = c and v = "pm_current_unit m"]
    by (cases p) (simp add: s Let_def case_prod_beta)
  show "run_global_pipeline cl p s = run_pipeline cl p s" if "list_all no_for_each (pipe_steps p)"
    using that by (simp add: run_global_pipeline_def run_pipeline_def run_global_steps_eq)
qed (simp_all add: run_steps_append)

section \<open>An example\<close>

text \<open>Passes that return a fixed result: the first produces an artifact, the second requires it, the third fails.\<close>

definition sample_key :: artifact_key where
  "sample_key = ArtifactKey ''hir'' ''module''"

definition sample_client :: "(pass_descriptor \<times> pass_result, unit, unit, unit) client" where
  "sample_client =
     \<lparr>cl_descriptor = fst, cl_run = (\<lambda>p c x m. (snd p, p, c, m)), cl_before_pass = (\<lambda>h d x c. h),
      cl_after_pass = (\<lambda>h d x r c. h), cl_after_invalidation = (\<lambda>h iv. h), cl_units = (\<lambda>c selector unit_ord. [])\<rparr>"

definition sample_passes :: "pass_id \<Rightarrow> pass_descriptor \<times> pass_result" where
  "sample_passes i =
     (if i = 0 then (descriptor_produces (as_one sample_key) (descriptor_new ''lower'' Transform), result_unchanged)
      else if i = 1 then (descriptor_requires (as_one sample_key) (descriptor_new ''check'' Verify), result_unchanged)
      else (descriptor_produces (as_one sample_key) (descriptor_new ''emit'' Emit), result_failed ''no target''))"

definition sample_pipeline :: pipeline where
  "sample_pipeline = push_pass 2 (push_pass 1 (push_pass 0 (pipeline_new ''main'')))"

abbreviation sample_manager :: "(unit, unit) pass_manager" where
  "sample_manager \<equiv> pm_new (\<lambda>_. 0)"

lemma as_iter_singleton [simp]: "as_iter {|r|} = [r]" and as_iter_empty [simp]: "as_iter {||} = []"
  by (simp_all add: as_iter_def sorted_list_of_fset.rep_eq)

lemma sample_keeps: "keeps sample_client I" "keeps_unit sample_client" "leaves_stopped sample_client"
  by (simp_all add: keeps_def keeps_unit_def leaves_stopped_def sample_client_def)

lemmas sample_defs = sample_client_def sample_passes_def sample_pipeline_def sample_key_def push_pass_def pipeline_new_def
  pm_new_def descriptor_produces_def descriptor_requires_def descriptor_new_def result_unchanged_def result_failed_def
  failure_new_def as_one_def as_from_keys_def as_new_def as_is_empty_def config_default_def ac_new_def ar_global_def

lemma sample_admitted:
  "admitted sample_manager (fst (sample_passes 0))"
  by (simp add: admitted_def sample_defs execution_interruption_def should_run_def scope_matches_def should_stop_before_def)

theorem run_pass_guards_witness:
  "\<exists>m'. run_pass sample_client (sample_passes 1) (fst (sample_passes 1)) () sample_manager =
     (Failed (failure_missing_artifact_ref (ar_global sample_key)), sample_passes 1, (), m')"
proof -
  let ?d = "fst (sample_passes 1)"
  have missing: "find_missing sample_manager (as_iter (pd_requires ?d)) = Some (ar_global sample_key)"
    by (simp add: sample_defs resolve_artifact_ref_def as_contains_ref_def)
  then have "\<not> admitted sample_manager ?d" by (simp add: admitted_def)
  moreover have "refusal sample_manager ?d = Failed (failure_missing_artifact_ref (ar_global sample_key))"
    using missing by (simp add: refusal_def execution_interruption_def)
      (simp add: sample_defs should_run_def scope_matches_def should_stop_before_def)
  ultimately show ?thesis using run_pass_guards [of sample_manager ?d sample_client "sample_passes 1" "()"] by auto
qed


theorem failed_pass_withdraws_witness:
  "\<exists>f m'. run_pass sample_client (sample_passes 2) (fst (sample_passes 2)) ()
       (mark_artifact_available sample_key sample_manager) = (Failed f, sample_passes 2, (), m') \<and>
     ar_global sample_key |\<notin>| pm_artifacts m'"
proof -
  let ?d = "fst (sample_passes 2)" and ?m = "mark_artifact_available sample_key sample_manager"
  have adm: "admitted ?m ?d"
    by (simp add: admitted_def sample_defs execution_interruption_def should_run_def scope_matches_def
        should_stop_before_def mark_artifact_available_def)
  obtain m' where run: "run_pass sample_client (sample_passes 2) ?d () ?m =
      (Failed (failure_new ''no target''), sample_passes 2, (), m')"
    unfolding run_pass_admitted [OF adm]
    by (auto simp: execute_pass_def sample_defs execution_interruption_def mark_artifact_available_def Let_def elapsed_def
        case_prod_beta finish_pass_control prod_eq_iff)
  from failed_pass_withdraws [OF run] have "resolve_artifact_set m' (pd_produces ?d) |\<inter>| pm_artifacts m' = {||}" by blast
  moreover have "ar_global sample_key |\<in>| resolve_artifact_set m' (pd_produces ?d)"
    by (simp add: resolve_set_iff sample_defs resolve_artifact_ref_def)
  ultimately show ?thesis using run by blast
qed

theorem pipeline_stats_match_records_witness:
  "let result = fst (run_pipeline sample_client sample_pipeline (sample_manager, sample_passes, ())) in
     map rr_pass (pl_records result) = [''lower'', ''check'', ''emit''] \<and>
     st_executed (pl_stats result) = 3 \<and> st_failed (pl_stats result) = 1 \<and> st_stopped (pl_stats result) = 0"
proof -
  let ?result = "fst (run_pipeline sample_client sample_pipeline (sample_manager, sample_passes, ()))"
  have "map (\<lambda>r. (rr_pass r, rr_skipped r, is_failed (rr_control r))) (pl_records ?result) =
      [(''lower'', False, False), (''check'', False, False), (''emit'', False, True)]" "pl_control ?result \<noteq> Stop"
    by (simp_all add: run_pipeline_def run_pass_step_def run_pass_def execute_pass_def finish_pass_def sample_defs reset_run_def
        execution_interruption_def should_run_def scope_matches_def should_stop_before_def should_stop_after_def elapsed_def
        Let_def resolve_artifact_set_def resolve_artifact_ref_def as_from_refs_def List.map_filter_simps as_contains_ref_def
        as_difference_def run_result_def run_completed_def run_stopped_def)
  moreover from this(1) obtain a b c where "pl_records ?result = [a, b, c]" "rr_pass a = ''lower''" "rr_pass b = ''check''" "rr_pass c = ''emit''"
    "\<not> rr_skipped a" "\<not> rr_skipped b" "\<not> rr_skipped c"
    "\<not> is_failed (rr_control a)" "\<not> is_failed (rr_control b)" "is_failed (rr_control c)"
    by (auto simp: map_eq_Cons_conv)
  ultimately show ?thesis
    using pipeline_stats_match_records [OF sample_keeps(1) sample_keeps(1), of sample_pipeline "(sample_manager, sample_passes, ())"]
      sample_keeps(3) by (simp add: Let_def)
qed

theorem current_unit_restored_witness:
  "pm_current_unit (fst (snd (run_steps sample_client (pipe_steps sample_pipeline) (sample_manager, sample_passes, ())))) = None \<and>
   run_step sample_client (ForEach (Kind (UnitKindKey ''a'' ''b'')) Stable sample_pipeline) (sample_manager, sample_passes, ()) =
     (Continue, sample_manager, sample_passes, ())"
  using current_unit_restored [of sample_client sample_pipeline None "(sample_manager, sample_passes, ())" "pipe_steps sample_pipeline"
      "Kind (UnitKindKey ''a'' ''b'')" Stable] sample_keeps(2)
  by (simp add: sample_client_def) (simp add: pm_new_def)

theorem pipeline_structure_witness:
  "run_global_pipeline sample_client sample_pipeline (sample_manager, sample_passes, ()) =
   run_pipeline sample_client sample_pipeline (sample_manager, sample_passes, ())"
  using pipeline_structure [of sample_client "[]" "[]" "(sample_manager, sample_passes, ())" "[]"
      "Kind (UnitKindKey ''a'' ''b'')" Stable sample_pipeline]
  by (simp add: sample_pipeline_def push_pass_def pipeline_new_def)

end
