(* ===== verification/Canonical.thy ===== *)
theory Canonical
  imports Prelude
begin

text \<open>
  \<open>etas_code/src/identity/canonical.rs\<close> and \<open>fingerprint.rs\<close>: the canonical byte encoding that every
  content identity of the code crate is computed from. \<open>blake3\<close> is a parameter \<open>h\<close> of the model, the
  function from a domain and the bytes written so far to the 32 bytes of the digest; the calls of
  \<open>update\<close> on a hasher append to those bytes. A \<open>String\<close> is the list of its UTF-8 bytes, a HOL
  \<open>string\<close>.

  The locale \<open>prefix_code\<close> is what the encodings promise: the value and the rest of the stream can be
  read back from any stream that starts with the encoded value. Its interpretations here and in the
  theory of the identities show that no two identities write the same bytes.
\<close>

type_synonym byte = "8 word"
type_synonym u64 = "64 word"
type_synonym hasher = "string \<Rightarrow> byte list \<Rightarrow> byte list"

definition as_bytes :: "string \<Rightarrow> byte list" where
  "as_bytes s = map (\<lambda>c. word_of_nat (of_char c)) s"

text \<open>\<open>to_le_bytes\<close> of the unsigned integer types, \<open>n\<close> the number of bytes of the type.\<close>

definition to_le_bytes :: "nat \<Rightarrow> 'a::len word \<Rightarrow> byte list" where
  "to_le_bytes n w = map (\<lambda>i. ucast (drop_bit (8 * i) w)) [0..<n]"

definition identity_schema_version :: u32 where
  "identity_schema_version = 1"

datatype code_fingerprint = CodeFingerprint (fp_bytes: "byte list")

definition fp_ok :: "code_fingerprint \<Rightarrow> bool" where
  "fp_ok f \<longleftrightarrow> length (fp_bytes f) = 32"

record canonical_encoder =
  enc_domain :: string
  enc_data :: "byte list"

section \<open>The encoder\<close>

definition enc_update :: "byte list \<Rightarrow> canonical_encoder \<Rightarrow> canonical_encoder" where
  "enc_update bs e = e\<lparr>enc_data := enc_data e @ bs\<rparr>"

definition enc_new :: "string \<Rightarrow> canonical_encoder" where
  "enc_new domain =
     enc_update (to_le_bytes 4 identity_schema_version) \<lparr>enc_domain = domain, enc_data = []\<rparr>"

definition enc_tag :: "byte \<Rightarrow> canonical_encoder \<Rightarrow> canonical_encoder" where
  "enc_tag value e = enc_update [value] e"

definition enc_number :: "u64 \<Rightarrow> canonical_encoder \<Rightarrow> canonical_encoder" where
  "enc_number value e = enc_update (to_le_bytes 8 value) e"

definition enc_bytes :: "byte list \<Rightarrow> canonical_encoder \<Rightarrow> canonical_encoder" where
  "enc_bytes value e = enc_update value (enc_update (to_le_bytes 8 (of_nat (length value) :: u64)) e)"

definition enc_path :: "string list \<Rightarrow> canonical_encoder \<Rightarrow> canonical_encoder" where
  "enc_path value e =
     fold (\<lambda>segment. enc_bytes (as_bytes segment)) value
       (enc_update (to_le_bytes 8 (of_nat (length value) :: u64)) e)"

definition enc_fingerprint :: "code_fingerprint \<Rightarrow> canonical_encoder \<Rightarrow> canonical_encoder" where
  "enc_fingerprint value e = enc_update (fp_bytes value) e"

definition enc_finish :: "hasher \<Rightarrow> canonical_encoder \<Rightarrow> code_fingerprint" where
  "enc_finish h e = CodeFingerprint (h (enc_domain e) (enc_data e))"

definition of_parts :: "hasher \<Rightarrow> string \<Rightarrow> byte list list \<Rightarrow> code_fingerprint" where
  "of_parts h domain parts = enc_finish h (fold enc_bytes parts (enc_new domain))"

definition of_bytes :: "hasher \<Rightarrow> string \<Rightarrow> byte list \<Rightarrow> code_fingerprint" where
  "of_bytes h domain bytes = of_parts h domain [bytes]"

text \<open>What the documentation of \<open>blake3\<close> says of the digest: it has 32 bytes.\<close>

definition digest32 :: "hasher \<Rightarrow> bool" where
  "digest32 h \<longleftrightarrow> (\<forall>domain bytes. length (h domain bytes) = 32)"

lemma fp_ok_finish: "digest32 h \<Longrightarrow> fp_ok (enc_finish h e)"
  by (simp add: digest32_def fp_ok_def enc_finish_def)

section \<open>What the encoder writes\<close>

text \<open>A sequence with its length in front.\<close>

definition counted :: "('a \<Rightarrow> byte list) \<Rightarrow> 'a list \<Rightarrow> byte list" where
  "counted code xs = to_le_bytes 8 (of_nat (length xs) :: u64) @ concat (map code xs)"

definition text_code :: "byte list \<Rightarrow> byte list" where
  "text_code value = counted (\<lambda>b. [b]) value"

definition path_code :: "string list \<Rightarrow> byte list" where
  "path_code value = counted (\<lambda>segment. text_code (as_bytes segment)) value"

lemma enc_data_update [simp]: "enc_data (enc_update bs e) = enc_data e @ bs"
  and enc_domain_update [simp]: "enc_domain (enc_update bs e) = enc_domain e"
  by (simp_all add: enc_update_def)

lemma enc_data_new: "enc_data (enc_new domain) = to_le_bytes 4 identity_schema_version"
  and enc_domain_new: "enc_domain (enc_new domain) = domain"
  by (simp_all add: enc_new_def)

lemma enc_data_bytes: "enc_data (enc_bytes value e) = enc_data e @ text_code value"
  and enc_domain_bytes: "enc_domain (enc_bytes value e) = enc_domain e"
  by (simp_all add: enc_bytes_def text_code_def counted_def)

lemma enc_data_fold:
  assumes "\<And>x e. enc_data (f x e) = enc_data e @ code x" "\<And>x e. enc_domain (f x e) = enc_domain e"
  shows "enc_data (fold f xs e) = enc_data e @ concat (map code xs)" "enc_domain (fold f xs e) = enc_domain e"
  using assms by (induction xs arbitrary: e) simp_all

lemma enc_data_path: "enc_data (enc_path value e) = enc_data e @ path_code value"
  and enc_domain_path: "enc_domain (enc_path value e) = enc_domain e"
  by (simp_all add: enc_path_def path_code_def counted_def enc_data_fold [OF enc_data_bytes enc_domain_bytes])

lemma enc_data_basic:
  "enc_data (enc_tag t e) = enc_data e @ [t]"
  "enc_data (enc_number n e) = enc_data e @ to_le_bytes 8 n"
  "enc_data (enc_fingerprint f e) = enc_data e @ fp_bytes f"
  "enc_domain (enc_tag t e) = enc_domain e"
  "enc_domain (enc_number n e) = enc_domain e"
  "enc_domain (enc_fingerprint f e) = enc_domain e"
  by (simp_all add: enc_tag_def enc_number_def enc_fingerprint_def)

lemmas enc_simps = enc_data_new enc_domain_new enc_data_bytes enc_domain_bytes enc_data_path
  enc_domain_path enc_data_basic

section \<open>Reading the bytes back\<close>

lemma length_to_le_bytes [simp]: "length (to_le_bytes n w) = n"
  by (simp add: to_le_bytes_def)

lemma bit_to_le_bytes:
  assumes "k < 8 * n"
  shows "bit (to_le_bytes n w ! (k div 8)) (k mod 8) \<longleftrightarrow> bit w k"
proof -
  from assms have "k div 8 < n" by auto
  then show ?thesis by (simp add: to_le_bytes_def bit_simps)
qed

lemma to_le_bytes_inject:
  fixes w w' :: "'a::len word"
  assumes "to_le_bytes n w = to_le_bytes n w'" "LENGTH('a) \<le> 8 * n"
  shows "w = w'"
proof (rule bit_word_eqI)
  fix k assume "k < LENGTH('a)"
  with assms(2) have "k < 8 * n" by simp
  with bit_to_le_bytes [of k n w] bit_to_le_bytes [of k n w'] assms(1) show "bit w k = bit w' k" by simp
qed

lemma of_nat_word_inject:
  assumes "(word_of_nat m :: 'a::len word) = word_of_nat n" "m < 2 ^ LENGTH('a)" "n < 2 ^ LENGTH('a)"
  shows "m = n"
  using arg_cong [OF assms(1), of unat] assms(2,3) by (simp add: unsigned_of_nat take_bit_nat_eq_self)

lemma as_bytes_inject [simp]: "as_bytes s = as_bytes t \<longleftrightarrow> s = t"
proof -
  have "inj (\<lambda>c. word_of_nat (of_char c) :: byte)"
  proof (rule injI)
    fix c d assume eq: "(word_of_nat (of_char c) :: byte) = word_of_nat (of_char d)"
    have "(of_char c :: nat) < 2 ^ LENGTH(8)" for c
      using nat_of_char_less_256 [of c] by simp
    with of_nat_word_inject [OF eq] have "(of_char c :: nat) = of_char d" by blast
    then show "c = d" by simp
  qed
  then show ?thesis by (simp add: as_bytes_def inj_map_eq_map)
qed

lemma length_as_bytes [simp]: "length (as_bytes s) = length s"
  by (simp add: as_bytes_def)

locale prefix_code =
  fixes code :: "'a \<Rightarrow> byte list" and codable :: "'a \<Rightarrow> bool"
  assumes readable: "codable x \<Longrightarrow> codable y \<Longrightarrow> code x @ r = code y @ s \<Longrightarrow> x = y \<and> r = s"
begin

lemma inject: "codable x \<Longrightarrow> codable y \<Longrightarrow> code x = code y \<Longrightarrow> x = y"
  using readable [of x y "[]" "[]"] by simp

lemma readable_all:
  "length xs = length ys \<Longrightarrow> list_all codable xs \<Longrightarrow> list_all codable ys \<Longrightarrow>
   concat (map code xs) @ r = concat (map code ys) @ s \<Longrightarrow> xs = ys \<and> r = s"
proof (induction xs ys arbitrary: r s rule: list_induct2)
  case (Cons x xs y ys)
  from readable [of x y "concat (map code xs) @ r" "concat (map code ys) @ s"] Cons.prems Cons.IH [of r s]
  show ?case by simp
qed simp

end

text \<open>A code with one length for all values is one.\<close>

locale fixed_code =
  fixes code :: "'a \<Rightarrow> byte list" and codable :: "'a \<Rightarrow> bool" and width :: nat
  assumes width: "codable x \<Longrightarrow> length (code x) = width"
    and code_inject: "codable x \<Longrightarrow> codable y \<Longrightarrow> code x = code y \<Longrightarrow> x = y"

sublocale fixed_code \<subseteq> prefix_code
proof
  fix x y r s assume ok: "codable x" "codable y" and eq: "code x @ r = code y @ s"
  from width ok have "length (code x) = length (code y)" by simp
  with eq have "code x = code y" "r = s" by simp_all
  with code_inject ok show "x = y \<and> r = s" by blast
qed

interpretation number_code: fixed_code "to_le_bytes 8 :: u64 \<Rightarrow> byte list" "\<lambda>_. True" 8
  by unfold_locales (auto dest: to_le_bytes_inject)

interpretation tag_code: fixed_code "\<lambda>t. [t]" "\<lambda>_. True" 1
  by unfold_locales auto

interpretation fingerprint_code: fixed_code fp_bytes fp_ok 32
  by unfold_locales (auto simp: fp_ok_def intro: code_fingerprint.expand)

definition short :: "'a list \<Rightarrow> bool" where
  "short xs \<longleftrightarrow> length xs < 2 ^ 64"

context prefix_code
begin

lemma counted_readable:
  assumes "short xs" "short ys" "list_all codable xs" "list_all codable ys"
    and eq: "counted code xs @ r = counted code ys @ s"
  shows "xs = ys \<and> r = s"
proof -
  from eq have "to_le_bytes 8 (of_nat (length xs) :: u64) @ concat (map code xs) @ r =
      to_le_bytes 8 (of_nat (length ys) :: u64) @ concat (map code ys) @ s"
    by (simp only: counted_def append_assoc)
  from number_code.readable [OF TrueI TrueI this]
  have len: "(of_nat (length xs) :: u64) = of_nat (length ys)"
    and rest: "concat (map code xs) @ r = concat (map code ys) @ s" by blast+
  from assms(1,2) have "length xs = length ys"
    by (intro of_nat_word_inject [OF len]) (simp_all only: short_def len_num1 len_bit0, simp_all)
  from readable_all [OF this assms(3,4) rest] show ?thesis .
qed

end

interpretation text_code: prefix_code text_code short
proof
  fix x y r s assume "short x" "short y" "text_code x @ r = text_code y @ s"
  then show "x = y \<and> r = s"
    using tag_code.counted_readable [of x y r s] by (simp add: text_code_def list_all_iff)
qed

definition path_short :: "string list \<Rightarrow> bool" where
  "path_short path \<longleftrightarrow> short path \<and> list_all short path"

interpretation segment_code: prefix_code "\<lambda>segment. text_code (as_bytes segment)" short
proof
  fix x y :: string and r s assume "short x" "short y" "text_code (as_bytes x) @ r = text_code (as_bytes y) @ s"
  then show "x = y \<and> r = s"
    using text_code.readable [of "as_bytes x" "as_bytes y" r s] by (simp add: short_def)
qed

interpretation path_code: prefix_code path_code path_short
proof
  fix x y r s assume "path_short x" "path_short y" "path_code x @ r = path_code y @ s"
  then show "x = y \<and> r = s"
    using segment_code.counted_readable [of x y r s] by (simp add: path_code_def path_short_def)
qed

lemmas codes_readable = number_code.readable tag_code.readable fingerprint_code.readable
  text_code.readable segment_code.readable path_code.readable

end
