(* ===== verification/Identity.thy ===== *)
theory Identity
  imports Canonical "HOL-Library.List_Lexorder" "HOL-Library.Char_ord" "HOL-Library.Product_Lexorder"
begin

text \<open>
  \<open>etas_code/src/identity\<close>: \<open>definition.rs\<close>, \<open>method.rs\<close>, \<open>header.rs\<close>, \<open>source_revision.rs\<close> and
  \<open>revision.rs\<close>. The keys of declarations, implementations, methods, callables, sources and revisions,
  their checked constructors, their wire form and their fingerprints. A key that \<open>serde\<close> writes is the
  record of the fields that its \<open>Serialize\<close> writes, which is the record that its \<open>Wire\<close> type reads; the
  keys inside it are read by their own \<open>TryFrom\<close> before it.
\<close>

section \<open>Definitions\<close>

datatype package_key = PackageKey (pk_fingerprint: code_fingerprint)

datatype definition_kind =
    KindAgent
  | KindFlow
  | KindTool
  | KindType
  | KindEffect
  | KindSpec
  | KindValue
  | KindEnumVariant
  | KindRequirement
  | KindProtocol

datatype identity_error =
    EmptyDeclaration
  | InvalidSegment string nat
  | UnsupportedSchema u32
  | NotSpec definition_kind
  | NotCallable definition_kind

datatype definition_key =
  DefinitionKey (dk_package: package_key) (dk_module: "string list") (dk_declaration: "string list")
    (dk_kind: definition_kind)

fun kind_tag :: "definition_kind \<Rightarrow> byte" where
  "kind_tag KindAgent = 1"
| "kind_tag KindFlow = 2"
| "kind_tag KindTool = 3"
| "kind_tag KindType = 4"
| "kind_tag KindEffect = 5"
| "kind_tag KindSpec = 6"
| "kind_tag KindValue = 7"
| "kind_tag KindEnumVariant = 8"
| "kind_tag KindRequirement = 9"
| "kind_tag KindProtocol = 10"

definition is_callable :: "definition_kind \<Rightarrow> bool" where
  "is_callable kind \<longleftrightarrow> kind = KindAgent \<or> kind = KindFlow \<or> kind = KindTool"

text \<open>\<open>segment.is_empty() || segment.contains('\0')\<close>.\<close>

definition bad_segment :: "string \<Rightarrow> bool" where
  "bad_segment segment \<longleftrightarrow> segment = [] \<or> CHR 0x00 \<in> set segment"

fun validate_segments :: "nat \<Rightarrow> string list \<Rightarrow> string \<Rightarrow> identity_error + unit" where
  "validate_segments index [] part = Inr ()"
| "validate_segments index (segment # path) part =
     (if bad_segment segment then Inl (InvalidSegment part index)
      else validate_segments (Suc index) path part)"

definition validate_path :: "string list \<Rightarrow> string \<Rightarrow> identity_error + unit" where
  "validate_path path part = validate_segments 0 path part"

definition validate_schema :: "u32 \<Rightarrow> identity_error + unit" where
  "validate_schema schema = ensure (schema = identity_schema_version) (UnsupportedSchema schema)"

definition package_from_name_and_version :: "hasher \<Rightarrow> string \<Rightarrow> string \<Rightarrow> identity_error + package_key" where
  "package_from_name_and_version h name version =
     bind_r (validate_segments 0 [name, version] ''package'')
       (\<lambda>_. Inr (PackageKey (of_parts h ''etas.code.local-package-origin.v2'' [as_bytes name, as_bytes version])))"

definition definition_new ::
  "package_key \<Rightarrow> string list \<Rightarrow> string list \<Rightarrow> definition_kind \<Rightarrow> identity_error + definition_key" where
  "definition_new package module declaration kind =
     bind_r (validate_path module ''module'') (\<lambda>_.
     bind_r (ensure (declaration \<noteq> []) EmptyDeclaration) (\<lambda>_.
     bind_r (validate_path declaration ''declaration'') (\<lambda>_.
       Inr (DefinitionKey package module declaration kind))))"

definition definition_encoder :: "definition_key \<Rightarrow> canonical_encoder" where
  "definition_encoder k =
     enc_tag (kind_tag (dk_kind k))
       (enc_path (dk_declaration k)
         (enc_path (dk_module k)
           (enc_fingerprint (pk_fingerprint (dk_package k)) (enc_new ''etas.code.definition.v1''))))"

definition definition_fingerprint :: "hasher \<Rightarrow> definition_key \<Rightarrow> code_fingerprint" where
  "definition_fingerprint h k = enc_finish h (definition_encoder k)"

record wire_definition =
  wd_schema :: u32
  wd_package :: package_key
  wd_module :: "string list"
  wd_declaration :: "string list"
  wd_kind :: definition_kind

definition serialize_definition :: "definition_key \<Rightarrow> wire_definition" where
  "serialize_definition k =
     \<lparr>wd_schema = identity_schema_version, wd_package = dk_package k, wd_module = dk_module k,
      wd_declaration = dk_declaration k, wd_kind = dk_kind k\<rparr>"

definition deserialize_definition :: "wire_definition \<Rightarrow> identity_error + definition_key" where
  "deserialize_definition value =
     bind_r (validate_schema (wd_schema value)) (\<lambda>_.
       definition_new (wd_package value) (wd_module value) (wd_declaration value) (wd_kind value))"

section \<open>Implementations and methods\<close>

datatype implementation_key =
  ImplementationKey (ik_package: package_key) (ik_module: "string list") (ik_subject: definition_key)
    (ik_selected_spec: "definition_key option") (ik_header: code_fingerprint)

definition implementation_new ::
  "package_key \<Rightarrow> string list \<Rightarrow> definition_key \<Rightarrow> definition_key option \<Rightarrow> code_fingerprint \<Rightarrow>
   identity_error + implementation_key" where
  "implementation_new package module subject selected_spec header =
     bind_r (validate_path module ''implementation module'') (\<lambda>_.
     bind_r (case selected_spec of
               None \<Rightarrow> Inr ()
             | Some spec \<Rightarrow> ensure (dk_kind spec = KindSpec) (NotSpec (dk_kind spec))) (\<lambda>_.
       Inr (ImplementationKey package module subject selected_spec header)))"

definition implementation_encoder :: "hasher \<Rightarrow> implementation_key \<Rightarrow> canonical_encoder" where
  "implementation_encoder h k =
     enc_fingerprint (ik_header k)
       ((case ik_selected_spec k of
           Some spec \<Rightarrow> enc_fingerprint (definition_fingerprint h spec) \<circ> enc_tag 1
         | None \<Rightarrow> enc_tag 0)
         (enc_fingerprint (definition_fingerprint h (ik_subject k))
           (enc_path (ik_module k)
             (enc_fingerprint (pk_fingerprint (ik_package k)) (enc_new ''etas.code.implementation.v1'')))))"

definition implementation_fingerprint :: "hasher \<Rightarrow> implementation_key \<Rightarrow> code_fingerprint" where
  "implementation_fingerprint h k = enc_finish h (implementation_encoder h k)"

record wire_implementation =
  wi_schema :: u32
  wi_package :: package_key
  wi_module :: "string list"
  wi_subject :: wire_definition
  wi_selected_spec :: "wire_definition option"
  wi_header :: code_fingerprint

definition serialize_implementation :: "implementation_key \<Rightarrow> wire_implementation" where
  "serialize_implementation k =
     \<lparr>wi_schema = identity_schema_version, wi_package = ik_package k, wi_module = ik_module k,
      wi_subject = serialize_definition (ik_subject k),
      wi_selected_spec = map_option serialize_definition (ik_selected_spec k), wi_header = ik_header k\<rparr>"

definition deserialize_option :: "('w \<Rightarrow> 'e + 'k) \<Rightarrow> 'w option \<Rightarrow> 'e + 'k option" where
  "deserialize_option f value = (case value of None \<Rightarrow> Inr None | Some w \<Rightarrow> bind_r (f w) (\<lambda>k. Inr (Some k)))"

definition deserialize_implementation :: "wire_implementation \<Rightarrow> identity_error + implementation_key" where
  "deserialize_implementation value =
     bind_r (deserialize_definition (wi_subject value)) (\<lambda>subject.
     bind_r (deserialize_option deserialize_definition (wi_selected_spec value)) (\<lambda>selected_spec.
     bind_r (validate_schema (wi_schema value)) (\<lambda>_.
       implementation_new (wi_package value) (wi_module value) subject selected_spec (wi_header value))))"

datatype method_id = MethodId (mi_implementation: implementation_key) (mi_name: string)

definition method_new :: "implementation_key \<Rightarrow> string \<Rightarrow> identity_error + method_id" where
  "method_new implementation name =
     bind_r (validate_path [name] ''method'') (\<lambda>_. Inr (MethodId implementation name))"

definition select_spec :: "method_id \<Rightarrow> definition_key \<Rightarrow> identity_error + method_id" where
  "select_spec method spec =
     (let owner = mi_implementation method in
      bind_r (implementation_new (ik_package owner) (ik_module owner) (ik_subject owner) (Some spec) (ik_header owner))
        (\<lambda>implementation. method_new implementation (mi_name method)))"

definition method_encoder :: "hasher \<Rightarrow> method_id \<Rightarrow> canonical_encoder" where
  "method_encoder h m =
     enc_bytes (as_bytes (mi_name m))
       (enc_fingerprint (implementation_fingerprint h (mi_implementation m)) (enc_new ''etas.code.method.v1''))"

definition method_fingerprint :: "hasher \<Rightarrow> method_id \<Rightarrow> code_fingerprint" where
  "method_fingerprint h m = enc_finish h (method_encoder h m)"

record wire_method =
  wm_schema :: u32
  wm_implementation :: wire_implementation
  wm_name :: string

definition serialize_method :: "method_id \<Rightarrow> wire_method" where
  "serialize_method m =
     \<lparr>wm_schema = identity_schema_version, wm_implementation = serialize_implementation (mi_implementation m),
      wm_name = mi_name m\<rparr>"

definition deserialize_method :: "wire_method \<Rightarrow> identity_error + method_id" where
  "deserialize_method value =
     bind_r (deserialize_implementation (wm_implementation value)) (\<lambda>implementation.
     bind_r (validate_schema (wm_schema value)) (\<lambda>_. method_new implementation (wm_name value)))"

section \<open>Callables\<close>

datatype callable_id = CallableDeclaration definition_key | CallableMethod method_id

definition callable_declaration :: "definition_key \<Rightarrow> identity_error + callable_id" where
  "callable_declaration d =
     bind_r (ensure (is_callable (dk_kind d)) (NotCallable (dk_kind d))) (\<lambda>_. Inr (CallableDeclaration d))"

definition callable_method :: "method_id \<Rightarrow> callable_id" where
  "callable_method m = CallableMethod m"

fun as_declaration :: "callable_id \<Rightarrow> definition_key option" where
  "as_declaration (CallableDeclaration d) = Some d"
| "as_declaration (CallableMethod m) = None"

fun as_method :: "callable_id \<Rightarrow> method_id option" where
  "as_method (CallableDeclaration d) = None"
| "as_method (CallableMethod m) = Some m"

fun callable_encoder :: "hasher \<Rightarrow> callable_id \<Rightarrow> canonical_encoder" where
  "callable_encoder h (CallableDeclaration d) =
     enc_fingerprint (definition_fingerprint h d) (enc_tag 1 (enc_new ''etas.code.callable.v1''))"
| "callable_encoder h (CallableMethod m) =
     enc_fingerprint (method_fingerprint h m) (enc_tag 2 (enc_new ''etas.code.callable.v1''))"

definition callable_fingerprint :: "hasher \<Rightarrow> callable_id \<Rightarrow> code_fingerprint" where
  "callable_fingerprint h c = enc_finish h (callable_encoder h c)"

datatype wire_callable = WireDeclaration wire_definition | WireMethod wire_method

fun serialize_callable :: "callable_id \<Rightarrow> wire_callable" where
  "serialize_callable (CallableDeclaration d) = WireDeclaration (serialize_definition d)"
| "serialize_callable (CallableMethod m) = WireMethod (serialize_method m)"

fun deserialize_callable :: "wire_callable \<Rightarrow> identity_error + callable_id" where
  "deserialize_callable (WireDeclaration w) = bind_r (deserialize_definition w) callable_declaration"
| "deserialize_callable (WireMethod w) = bind_r (deserialize_method w) (\<lambda>m. Inr (callable_method m))"

section \<open>Implementation headers\<close>

datatype implementation_spec_identity =
  ImplementationSpecIdentity (si_definition: definition_key) (si_arguments: "code_fingerprint list")

text \<open>The derived order of \<open>DefinitionKey\<close> and of \<open>ImplementationSpecIdentity\<close>: lexicographic in the fields.\<close>

definition definition_tuple :: "definition_key \<Rightarrow> byte list \<times> string list \<times> string list \<times> byte" where
  "definition_tuple k = (fp_bytes (pk_fingerprint (dk_package k)), dk_module k, dk_declaration k, kind_tag (dk_kind k))"

definition spec_tuple ::
  "implementation_spec_identity \<Rightarrow> (byte list \<times> string list \<times> string list \<times> byte) \<times> byte list list" where
  "spec_tuple s = (definition_tuple (si_definition s), map fp_bytes (si_arguments s))"

lemma kind_tag_inject [simp]: "kind_tag a = kind_tag b \<longleftrightarrow> a = b"
  by (cases a; cases b) simp_all

lemma definition_tuple_inj: "inj definition_tuple"
  by (auto simp: inj_def definition_tuple_def intro: definition_key.expand package_key.expand code_fingerprint.expand)

lemma spec_tuple_inj: "inj spec_tuple"
proof (rule injI)
  fix s t assume "spec_tuple s = spec_tuple t"
  moreover have "inj fp_bytes" by (auto simp: inj_def intro: code_fingerprint.expand)
  ultimately show "s = t"
    using injD [OF definition_tuple_inj]
    by (auto simp: spec_tuple_def inj_map_eq_map intro: implementation_spec_identity.expand)
qed

instantiation implementation_spec_identity :: linorder
begin

definition less_eq_implementation_spec_identity ::
  "implementation_spec_identity \<Rightarrow> implementation_spec_identity \<Rightarrow> bool" where
  "less_eq_implementation_spec_identity a b \<longleftrightarrow> spec_tuple a \<le> spec_tuple b"

definition less_implementation_spec_identity ::
  "implementation_spec_identity \<Rightarrow> implementation_spec_identity \<Rightarrow> bool" where
  "less_implementation_spec_identity a b \<longleftrightarrow> spec_tuple a < spec_tuple b"

instance
  by intro_classes
    (auto simp: less_eq_implementation_spec_identity_def less_implementation_spec_identity_def
      intro: order_trans dest: injD [OF spec_tuple_inj])

end

record implementation_header =
  ih_specs :: "implementation_spec_identity list"
  ih_subject_arguments :: "code_fingerprint list"

fun check_specs :: "implementation_spec_identity list \<Rightarrow> identity_error + unit" where
  "check_specs [] = Inr ()"
| "check_specs (spec # specs) =
     (if dk_kind (si_definition spec) \<noteq> KindSpec then Inl (NotSpec (dk_kind (si_definition spec)))
      else check_specs specs)"

text \<open>\<open>Vec::dedup\<close> drops an element that is equal to the one before it.\<close>

definition header_new :: "implementation_spec_identity list \<Rightarrow> identity_error + implementation_header" where
  "header_new specs =
     bind_r (check_specs specs) (\<lambda>_. Inr \<lparr>ih_specs = remdups_adj (sort specs), ih_subject_arguments = []\<rparr>)"

definition with_subject_arguments ::
  "code_fingerprint list \<Rightarrow> implementation_header \<Rightarrow> implementation_header" where
  "with_subject_arguments arguments header = header\<lparr>ih_subject_arguments := arguments\<rparr>"

definition enc_fingerprints :: "code_fingerprint list \<Rightarrow> canonical_encoder \<Rightarrow> canonical_encoder" where
  "enc_fingerprints fs e = fold enc_fingerprint fs (enc_number (of_nat (length fs)) e)"

definition header_encoder :: "hasher \<Rightarrow> implementation_header \<Rightarrow> canonical_encoder" where
  "header_encoder h header =
     (let arguments = ih_subject_arguments header;
          e = enc_new (if arguments = [] then ''etas.code.implementation-header.v1''
                       else ''etas.code.implementation-header.v2'');
          e = (if arguments = [] then e else enc_fingerprints arguments e)
      in fold (\<lambda>spec e. enc_fingerprints (si_arguments spec)
                          (enc_fingerprint (definition_fingerprint h (si_definition spec)) e))
           (ih_specs header) (enc_number (of_nat (length (ih_specs header))) e))"

definition header_fingerprint :: "hasher \<Rightarrow> implementation_header \<Rightarrow> code_fingerprint" where
  "header_fingerprint h header = enc_finish h (header_encoder h header)"

definition implementation_from_header ::
  "hasher \<Rightarrow> package_key \<Rightarrow> string list \<Rightarrow> definition_key \<Rightarrow> definition_key option \<Rightarrow> implementation_header \<Rightarrow>
   identity_error + implementation_key" where
  "implementation_from_header h package module subject selected_spec header =
     implementation_new package module subject selected_spec (header_fingerprint h header)"

section \<open>Sources and revisions\<close>

datatype stable_source_origin =
    OriginProject code_fingerprint
  | OriginPackage package_key
  | OriginGenerated code_fingerprint

datatype source_identity_error = EmptyPath | InvalidPathSegment | InvalidSourceRange

datatype stable_source_key = StableSourceKey (ssk_fingerprint: code_fingerprint)

datatype source_revision_key = SourceRevisionKey (srk_fingerprint: code_fingerprint)

definition bad_source_segment :: "string \<Rightarrow> bool" where
  "bad_source_segment part \<longleftrightarrow>
     part = [] \<or> part = ''.'' \<or> part = ''..'' \<or>
     CHR ''/'' \<in> set part \<or> CHR 0x5C \<in> set part \<or> CHR 0x00 \<in> set part"

fun enc_origin :: "stable_source_origin \<Rightarrow> canonical_encoder \<Rightarrow> canonical_encoder" where
  "enc_origin (OriginProject key) e = enc_fingerprint key (enc_tag 1 e)"
| "enc_origin (OriginPackage key) e = enc_fingerprint (pk_fingerprint key) (enc_tag 2 e)"
| "enc_origin (OriginGenerated key) e = enc_fingerprint key (enc_tag 3 e)"

definition stable_source_new ::
  "hasher \<Rightarrow> stable_source_origin \<Rightarrow> string list \<Rightarrow> source_identity_error + stable_source_key" where
  "stable_source_new h origin logical_path =
     bind_r (ensure (logical_path \<noteq> []) EmptyPath) (\<lambda>_.
     bind_r (ensure (\<not> list_ex bad_source_segment logical_path) InvalidPathSegment) (\<lambda>_.
       Inr (StableSourceKey
         (enc_finish h (enc_path logical_path (enc_origin origin (enc_new ''etas.code.stable-source.v1'')))))))"

definition source_revision_new :: "hasher \<Rightarrow> stable_source_key \<Rightarrow> byte list \<Rightarrow> source_revision_key" where
  "source_revision_new h source bytes =
     (let content = of_bytes h ''etas.code.source-bytes.v1'' bytes
      in SourceRevisionKey
           (enc_finish h
             (enc_fingerprint content
               (enc_fingerprint (ssk_fingerprint source) (enc_new ''etas.code.source-revision.v1'')))))"

definition generated_body ::
  "hasher \<Rightarrow> stable_source_key \<Rightarrow> byte list \<Rightarrow> u64 \<Rightarrow> u64 \<Rightarrow> source_identity_error + stable_source_key" where
  "generated_body h parent parent_bytes declaration_start declaration_end =
     (if declaration_end < declaration_start \<or> of_nat (length parent_bytes) < declaration_end
      then Inl InvalidSourceRange
      else
        let e = enc_number declaration_end
                  (enc_number declaration_start
                    (enc_fingerprint (srk_fingerprint (source_revision_new h parent parent_bytes))
                      (enc_new ''etas.code.generated-body-origin.v1'')))
        in stable_source_new h (OriginGenerated (enc_finish h e)) [''body''])"

datatype revision_key = RevisionKey (rk_fingerprint: code_fingerprint)

record revision_inputs =
  ri_definition :: callable_id
  ri_content :: code_fingerprint
  ri_environment :: code_fingerprint
  ri_contract :: code_fingerprint
  ri_compilation :: code_fingerprint
  ri_parent :: "revision_key option"

definition revision_encoder :: "hasher \<Rightarrow> revision_inputs \<Rightarrow> canonical_encoder" where
  "revision_encoder h inputs =
     (case ri_parent inputs of
        Some parent \<Rightarrow> enc_fingerprint (rk_fingerprint parent) \<circ> enc_tag 1
      | None \<Rightarrow> enc_tag 0)
       (enc_fingerprint (ri_compilation inputs)
         (enc_fingerprint (ri_contract inputs)
           (enc_fingerprint (ri_environment inputs)
             (enc_fingerprint (ri_content inputs)
               (enc_fingerprint (callable_fingerprint h (ri_definition inputs))
                 (enc_new ''etas.code.revision.v1''))))))"

definition revision_from_inputs :: "hasher \<Rightarrow> revision_inputs \<Rightarrow> revision_key" where
  "revision_from_inputs h inputs = RevisionKey (enc_finish h (revision_encoder h inputs))"

record revision_info =
  rv_key :: revision_key
  rv_inputs :: revision_inputs

definition revision_info_new :: "hasher \<Rightarrow> revision_inputs \<Rightarrow> revision_info" where
  "revision_info_new h inputs = \<lparr>rv_key = revision_from_inputs h inputs, rv_inputs = inputs\<rparr>"

section \<open>What the constructors check\<close>

definition path_ok :: "string list \<Rightarrow> bool" where
  "path_ok path \<longleftrightarrow> list_all (\<lambda>segment. \<not> bad_segment segment) path"

definition definition_ok :: "definition_key \<Rightarrow> bool" where
  "definition_ok k \<longleftrightarrow> path_ok (dk_module k) \<and> dk_declaration k \<noteq> [] \<and> path_ok (dk_declaration k)"

definition implementation_ok :: "implementation_key \<Rightarrow> bool" where
  "implementation_ok k \<longleftrightarrow>
     path_ok (ik_module k) \<and> definition_ok (ik_subject k) \<and>
     pred_option (\<lambda>spec. definition_ok spec \<and> dk_kind spec = KindSpec) (ik_selected_spec k)"

definition method_ok :: "method_id \<Rightarrow> bool" where
  "method_ok m \<longleftrightarrow> implementation_ok (mi_implementation m) \<and> \<not> bad_segment (mi_name m)"

fun callable_ok :: "callable_id \<Rightarrow> bool" where
  "callable_ok (CallableDeclaration d) = (definition_ok d \<and> is_callable (dk_kind d))"
| "callable_ok (CallableMethod m) = method_ok m"

lemma validate_segments_Inr: "validate_segments index path part = Inr u \<longleftrightarrow> path_ok path"
  by (induction index path part rule: validate_segments.induct) (auto simp: path_ok_def)

lemma validate_path_Inr: "validate_path path part = Inr u \<longleftrightarrow> path_ok path"
  by (simp add: validate_path_def validate_segments_Inr)

text \<open>The error names the first bad segment.\<close>

lemma validate_segments_Inl:
  "validate_segments index path part = Inl e \<longleftrightarrow>
   (\<exists>i < length path. e = InvalidSegment part (index + i) \<and> bad_segment (path ! i) \<and>
      (\<forall>j < i. \<not> bad_segment (path ! j)))"
proof (induction index path part rule: validate_segments.induct)
  case (2 index segment path part)
  show ?case
  proof (cases "bad_segment segment")
    case True
    then show ?thesis by (auto simp: less_Suc_eq_0_disj)
  next
    case False
    then show ?thesis using 2 [OF False] by (simp add: Ex_less_Suc2 All_less_Suc2)
  qed
qed simp

lemmas validate_iffs = validate_path_Inr result_iffs

lemma definition_new_Inr:
  "definition_new package module declaration kind = Inr k \<longleftrightarrow>
   k = DefinitionKey package module declaration kind \<and> definition_ok k"
  by (auto simp: definition_new_def definition_ok_def validate_iffs)

lemma implementation_new_Inr:
  "implementation_new package module subject selected_spec header = Inr k \<longleftrightarrow>
   k = ImplementationKey package module subject selected_spec header \<and> path_ok module \<and>
   pred_option (\<lambda>spec. dk_kind spec = KindSpec) selected_spec"
  by (cases selected_spec) (auto simp: implementation_new_def validate_iffs)

lemma method_new_Inr:
  "method_new implementation name = Inr m \<longleftrightarrow> m = MethodId implementation name \<and> \<not> bad_segment name"
  by (auto simp: method_new_def validate_iffs path_ok_def)

lemma callable_declaration_Inr:
  "callable_declaration d = Inr c \<longleftrightarrow> c = CallableDeclaration d \<and> is_callable (dk_kind d)"
  by (auto simp: callable_declaration_def validate_iffs)

text \<open>Replacing the selected spec keeps everything else.\<close>

lemma select_spec_Inr:
  "select_spec method spec = Inr m \<longleftrightarrow>
   (let owner = mi_implementation method in
    m = MethodId (ImplementationKey (ik_package owner) (ik_module owner) (ik_subject owner) (Some spec) (ik_header owner))
          (mi_name method) \<and>
    path_ok (ik_module owner) \<and> dk_kind spec = KindSpec \<and> \<not> bad_segment (mi_name method))"
  by (auto simp: select_spec_def Let_def bind_r_Inr_iff implementation_new_Inr method_new_Inr)

section \<open>The wire form\<close>

lemma deserialize_definition_Inr:
  "deserialize_definition w = Inr k \<longleftrightarrow> definition_ok k \<and> w = serialize_definition k"
  by (cases w)
    (auto simp: deserialize_definition_def serialize_definition_def validate_schema_def result_iffs definition_new_Inr)

lemma deserialize_option_Inr:
  assumes "\<And>w k. f w = Inr k \<longleftrightarrow> ok k \<and> w = g k"
  shows "deserialize_option f w = Inr k \<longleftrightarrow> pred_option ok k \<and> w = map_option g k"
  using assms by (cases w; cases k) (auto simp: deserialize_option_def bind_r_Inr_iff)

lemma deserialize_implementation_Inr:
  "deserialize_implementation w = Inr k \<longleftrightarrow> implementation_ok k \<and> w = serialize_implementation k"
  by (cases w; cases k)
    (auto simp: deserialize_implementation_def serialize_implementation_def validate_schema_def result_iffs
      implementation_new_Inr implementation_ok_def deserialize_definition_Inr
      deserialize_option_Inr [OF deserialize_definition_Inr] option.pred_set)

lemma deserialize_method_Inr:
  "deserialize_method w = Inr m \<longleftrightarrow> method_ok m \<and> w = serialize_method m"
  by (cases w; cases m)
    (auto simp: deserialize_method_def serialize_method_def validate_schema_def result_iffs
      method_new_Inr method_ok_def deserialize_implementation_Inr)

text \<open>
  C7: The wire form of a callable identity round-trips exactly. \<open>Deserialize\<close> returns the identity \<open>c\<close>
  on precisely one input, the one \<open>Serialize\<close> writes for \<open>c\<close>, and only when \<open>c\<close> is an identity that the
  checked constructors build: every path segment of its declarations, implementation and method is
  non-empty and without a NUL byte, declaration paths are not empty, a selected spec is a spec and a
  declaration is an agent, a flow or a tool. Every other input, such as another schema number at any
  level, is an error.
\<close>

theorem callable_wire_roundtrip:
  "deserialize_callable w = Inr c \<longleftrightarrow> callable_ok c \<and> w = serialize_callable c"
  by (cases w; cases c)
    (auto simp: bind_r_Inr_iff deserialize_definition_Inr deserialize_method_Inr callable_declaration_Inr
      callable_method_def)

section \<open>Headers do not depend on the order of the specs\<close>

lemma check_specs_Inr: "check_specs specs = Inr u \<longleftrightarrow> (\<forall>spec\<in>set specs. dk_kind (si_definition spec) = KindSpec)"
  by (induction specs) auto

lemma distinct_dedup_sorted: "sorted (xs :: 'a :: linorder list) \<Longrightarrow> distinct (remdups_adj xs)"
  by (induction xs rule: remdups_adj.induct) (auto simp: order_le_less)

lemma dedup_sort_canonical:
  assumes "set xs = set ys"
  shows "remdups_adj (sort xs) = remdups_adj (sort ys)"
  using assms
  by (intro sorted_distinct_set_unique) (simp_all add: distinct_dedup_sorted sorted_remdups_adj)

lemma header_new_canonical:
  "header_new specs = Inr header \<Longrightarrow> set specs' = set specs \<Longrightarrow> header_new specs' = Inr header"
  using dedup_sort_canonical [of specs' specs] by (auto simp: header_new_def bind_r_Inr_iff check_specs_Inr)

section \<open>Fingerprints identify\<close>

text \<open>
  The inputs of the hash function on the way to a fingerprint, and the sizes for which the length
  prefixes of the encoding do not wrap, which every value in the memory of a 64-bit machine has.
\<close>

definition enc_input :: "canonical_encoder \<Rightarrow> string \<times> byte list" where
  "enc_input e = (enc_domain e, enc_data e)"

definition definition_inputs :: "definition_key \<Rightarrow> (string \<times> byte list) set" where
  "definition_inputs k = {enc_input (definition_encoder k)}"

definition implementation_inputs :: "hasher \<Rightarrow> implementation_key \<Rightarrow> (string \<times> byte list) set" where
  "implementation_inputs h k =
     insert (enc_input (implementation_encoder h k))
       (definition_inputs (ik_subject k) \<union>
        (case ik_selected_spec k of None \<Rightarrow> {} | Some spec \<Rightarrow> definition_inputs spec))"

definition method_inputs :: "hasher \<Rightarrow> method_id \<Rightarrow> (string \<times> byte list) set" where
  "method_inputs h m = insert (enc_input (method_encoder h m)) (implementation_inputs h (mi_implementation m))"

definition callable_inputs :: "hasher \<Rightarrow> callable_id \<Rightarrow> (string \<times> byte list) set" where
  "callable_inputs h c =
     insert (enc_input (callable_encoder h c))
       (case c of CallableDeclaration d \<Rightarrow> definition_inputs d | CallableMethod m \<Rightarrow> method_inputs h m)"

definition revision_hash_inputs :: "hasher \<Rightarrow> revision_inputs \<Rightarrow> (string \<times> byte list) set" where
  "revision_hash_inputs h inputs =
     insert (enc_input (revision_encoder h inputs)) (callable_inputs h (ri_definition inputs))"

definition definition_short :: "definition_key \<Rightarrow> bool" where
  "definition_short k \<longleftrightarrow>
     fp_ok (pk_fingerprint (dk_package k)) \<and> path_short (dk_module k) \<and> path_short (dk_declaration k)"

definition implementation_short :: "implementation_key \<Rightarrow> bool" where
  "implementation_short k \<longleftrightarrow>
     fp_ok (pk_fingerprint (ik_package k)) \<and> path_short (ik_module k) \<and> definition_short (ik_subject k) \<and>
     pred_option definition_short (ik_selected_spec k) \<and> fp_ok (ik_header k)"

definition method_short :: "method_id \<Rightarrow> bool" where
  "method_short m \<longleftrightarrow> implementation_short (mi_implementation m) \<and> short (mi_name m)"

definition callable_short :: "callable_id \<Rightarrow> bool" where
  "callable_short c \<longleftrightarrow> (case c of CallableDeclaration d \<Rightarrow> definition_short d | CallableMethod m \<Rightarrow> method_short m)"

definition revision_short :: "revision_inputs \<Rightarrow> bool" where
  "revision_short i \<longleftrightarrow>
     callable_short (ri_definition i) \<and> fp_ok (ri_content i) \<and> fp_ok (ri_environment i) \<and>
     fp_ok (ri_contract i) \<and> fp_ok (ri_compilation i) \<and> pred_option (\<lambda>k. fp_ok (rk_fingerprint k)) (ri_parent i)"

definition collision_free :: "hasher \<Rightarrow> (string \<times> byte list) set \<Rightarrow> bool" where
  "collision_free h inputs \<longleftrightarrow> inj_on (\<lambda>(domain, bytes). h domain bytes) inputs"

lemma collision_free_subset: "collision_free h B \<Longrightarrow> A \<subseteq> B \<Longrightarrow> collision_free h A"
  unfolding collision_free_def by (rule inj_on_subset)

lemma finish_inject:
  assumes "collision_free h A" "enc_input e \<in> A" "enc_input e' \<in> A" "enc_finish h e = enc_finish h e'"
  shows "enc_data e = enc_data e'"
  using inj_onD [OF assms(1) [unfolded collision_free_def], of "enc_input e" "enc_input e'"] assms(2-)
  by (simp add: enc_input_def enc_finish_def)

lemma definition_encoder_inject:
  assumes "definition_short k" "definition_short k'" "enc_data (definition_encoder k) = enc_data (definition_encoder k')"
  shows "k = k'"
proof -
  from assms(3) have
    "fp_bytes (pk_fingerprint (dk_package k)) @ path_code (dk_module k) @ path_code (dk_declaration k) @ [kind_tag (dk_kind k)] =
     fp_bytes (pk_fingerprint (dk_package k')) @ path_code (dk_module k') @ path_code (dk_declaration k') @ [kind_tag (dk_kind k')]"
    by (simp add: definition_encoder_def enc_simps)
  from fingerprint_code.readable [OF _ _ this] assms(1,2)
  have package: "pk_fingerprint (dk_package k) = pk_fingerprint (dk_package k')"
    and rest: "path_code (dk_module k) @ path_code (dk_declaration k) @ [kind_tag (dk_kind k)] =
      path_code (dk_module k') @ path_code (dk_declaration k') @ [kind_tag (dk_kind k')]"
    by (simp_all add: definition_short_def)
  from path_code.readable [OF _ _ rest] assms(1,2)
  have module: "dk_module k = dk_module k'"
    and rest: "path_code (dk_declaration k) @ [kind_tag (dk_kind k)] = path_code (dk_declaration k') @ [kind_tag (dk_kind k')]"
    by (simp_all add: definition_short_def)
  from path_code.readable [OF _ _ rest] assms(1,2) package module show ?thesis
    by (auto simp: definition_short_def intro: definition_key.expand package_key.expand)
qed

lemma definition_fingerprint_inject:
  assumes "collision_free h A" "definition_inputs k \<subseteq> A" "definition_inputs k' \<subseteq> A"
    "definition_short k" "definition_short k'" "definition_fingerprint h k = definition_fingerprint h k'"
  shows "k = k'"
  using finish_inject [OF assms(1), of "definition_encoder k" "definition_encoder k'"] assms(2-)
    definition_encoder_inject [of k k']
  by (simp add: definition_inputs_def definition_fingerprint_def)

lemma fp_ok_fingerprints:
  assumes "digest32 h"
  shows "fp_ok (definition_fingerprint h d)" "fp_ok (implementation_fingerprint h i)"
    "fp_ok (method_fingerprint h m)" "fp_ok (callable_fingerprint h c)"
  using assms
  by (simp_all add: definition_fingerprint_def implementation_fingerprint_def method_fingerprint_def
      callable_fingerprint_def fp_ok_finish)

text \<open>The optional fingerprint behind its tag, as implementations and revisions write it.\<close>

definition option_code :: "code_fingerprint option \<Rightarrow> byte list" where
  "option_code x = (case x of None \<Rightarrow> [0] | Some f \<Rightarrow> 1 # fp_bytes f)"

interpretation option_code: prefix_code option_code "pred_option fp_ok"
proof
  fix x y r s assume "pred_option fp_ok x" "pred_option fp_ok y" "option_code x @ r = option_code y @ s"
  then show "x = y \<and> r = s"
    by (cases x; cases y) (auto simp: option_code_def dest: fingerprint_code.readable)
qed

lemma implementation_data:
  "enc_data (implementation_encoder h k) =
     to_le_bytes 4 identity_schema_version @ fp_bytes (pk_fingerprint (ik_package k)) @ path_code (ik_module k) @
     fp_bytes (definition_fingerprint h (ik_subject k)) @
     option_code (map_option (definition_fingerprint h) (ik_selected_spec k)) @ fp_bytes (ik_header k)"
  by (cases "ik_selected_spec k") (simp_all add: implementation_encoder_def enc_simps option_code_def)

lemma implementation_fingerprint_inject:
  assumes free: "collision_free h A" and digest: "digest32 h"
    and "implementation_inputs h k \<subseteq> A" "implementation_inputs h k' \<subseteq> A"
    and short: "implementation_short k" "implementation_short k'"
    and eq: "implementation_fingerprint h k = implementation_fingerprint h k'"
  shows "k = k'"
proof -
  note fps = fp_ok_fingerprints [OF digest]
  from finish_inject [OF free _ _ eq [unfolded implementation_fingerprint_def]] assms(3,4)
  have "fp_bytes (pk_fingerprint (ik_package k)) @ path_code (ik_module k) @
      fp_bytes (definition_fingerprint h (ik_subject k)) @
      option_code (map_option (definition_fingerprint h) (ik_selected_spec k)) @ fp_bytes (ik_header k) =
    fp_bytes (pk_fingerprint (ik_package k')) @ path_code (ik_module k') @
      fp_bytes (definition_fingerprint h (ik_subject k')) @
      option_code (map_option (definition_fingerprint h) (ik_selected_spec k')) @ fp_bytes (ik_header k')"
    by (simp add: implementation_inputs_def implementation_data)
  from fingerprint_code.readable [OF _ _ this] short
  have package: "pk_fingerprint (ik_package k) = pk_fingerprint (ik_package k')"
    and "path_code (ik_module k) @ fp_bytes (definition_fingerprint h (ik_subject k)) @
      option_code (map_option (definition_fingerprint h) (ik_selected_spec k)) @ fp_bytes (ik_header k) =
     path_code (ik_module k') @ fp_bytes (definition_fingerprint h (ik_subject k')) @
      option_code (map_option (definition_fingerprint h) (ik_selected_spec k')) @ fp_bytes (ik_header k')"
    by (simp_all add: implementation_short_def)
  from path_code.readable [OF _ _ this(2)] short
  have module: "ik_module k = ik_module k'"
    and "fp_bytes (definition_fingerprint h (ik_subject k)) @
      option_code (map_option (definition_fingerprint h) (ik_selected_spec k)) @ fp_bytes (ik_header k) =
     fp_bytes (definition_fingerprint h (ik_subject k')) @
      option_code (map_option (definition_fingerprint h) (ik_selected_spec k')) @ fp_bytes (ik_header k')"
    by (simp_all add: implementation_short_def)
  from fingerprint_code.readable [OF fps(1) fps(1) this(2)]
  have subject: "definition_fingerprint h (ik_subject k) = definition_fingerprint h (ik_subject k')"
    and "option_code (map_option (definition_fingerprint h) (ik_selected_spec k)) @ fp_bytes (ik_header k) =
      option_code (map_option (definition_fingerprint h) (ik_selected_spec k')) @ fp_bytes (ik_header k')"
    by blast+
  from option_code.readable [OF _ _ this(2)]
  have spec: "map_option (definition_fingerprint h) (ik_selected_spec k) =
      map_option (definition_fingerprint h) (ik_selected_spec k')"
    and header: "fp_bytes (ik_header k) = fp_bytes (ik_header k')"
    by (simp_all add: option.pred_map comp_def fps option.pred_True)
  from definition_fingerprint_inject [OF free _ _ _ _ subject] assms(3,4) short
  have "ik_subject k = ik_subject k'" by (simp add: implementation_inputs_def implementation_short_def)
  moreover have "ik_selected_spec k = ik_selected_spec k'"
    using spec definition_fingerprint_inject [OF free] assms(3,4) short
    by (cases "ik_selected_spec k"; cases "ik_selected_spec k'")
      (simp_all add: implementation_inputs_def implementation_short_def)
  ultimately show ?thesis
    using package module header
    by (auto intro: implementation_key.expand package_key.expand code_fingerprint.expand)
qed

lemma method_fingerprint_inject:
  assumes free: "collision_free h A" and digest: "digest32 h"
    and "method_inputs h m \<subseteq> A" "method_inputs h m' \<subseteq> A" and short: "method_short m" "method_short m'"
    and eq: "method_fingerprint h m = method_fingerprint h m'"
  shows "m = m'"
proof -
  from finish_inject [OF free _ _ eq [unfolded method_fingerprint_def]] assms(3,4)
  have "fp_bytes (implementation_fingerprint h (mi_implementation m)) @ text_code (as_bytes (mi_name m)) =
      fp_bytes (implementation_fingerprint h (mi_implementation m')) @ text_code (as_bytes (mi_name m'))"
    by (simp add: method_inputs_def method_encoder_def enc_simps)
  from fingerprint_code.readable [OF _ _ this]
  have "implementation_fingerprint h (mi_implementation m) = implementation_fingerprint h (mi_implementation m')"
    and name: "text_code (as_bytes (mi_name m)) = text_code (as_bytes (mi_name m'))"
    by (simp_all add: fp_ok_fingerprints [OF digest])
  from implementation_fingerprint_inject [OF free digest _ _ _ _ this(1)] assms(3,4) short
  have "mi_implementation m = mi_implementation m'" by (simp add: method_inputs_def method_short_def)
  moreover from segment_code.inject [OF _ _ name] short have "mi_name m = mi_name m'"
    by (simp add: method_short_def)
  ultimately show ?thesis by (auto intro: method_id.expand)
qed

lemma callable_fingerprint_inject:
  assumes free: "collision_free h A" and digest: "digest32 h"
    and "callable_inputs h c \<subseteq> A" "callable_inputs h c' \<subseteq> A" and short: "callable_short c" "callable_short c'"
    and eq: "callable_fingerprint h c = callable_fingerprint h c'"
  shows "c = c'"
proof -
  note fps = fp_ok_fingerprints [OF digest]
  from finish_inject [OF free _ _ eq [unfolded callable_fingerprint_def]] assms(3,4)
  have data: "enc_data (callable_encoder h c) = enc_data (callable_encoder h c')"
    by (simp add: callable_inputs_def)
  show ?thesis
  proof (cases c; cases c')
    fix d d' assume c: "c = CallableDeclaration d" "c' = CallableDeclaration d'"
    with data fingerprint_code.inject [OF fps(1) fps(1)] have "definition_fingerprint h d = definition_fingerprint h d'"
      by (simp add: enc_simps)
    from definition_fingerprint_inject [OF free _ _ _ _ this] c assms(3,4) short show ?thesis
      by (simp add: callable_inputs_def callable_short_def)
  next
    fix m m' assume c: "c = CallableMethod m" "c' = CallableMethod m'"
    with data fingerprint_code.inject [OF fps(3) fps(3)] have "method_fingerprint h m = method_fingerprint h m'"
      by (simp add: enc_simps)
    from method_fingerprint_inject [OF free digest _ _ _ _ this] c assms(3,4) short show ?thesis
      by (simp add: callable_inputs_def callable_short_def)
  qed (use data in \<open>simp_all add: enc_simps\<close>)
qed

lemma revision_data:
  "enc_data (revision_encoder h i) =
     to_le_bytes 4 identity_schema_version @
     concat (map fp_bytes [callable_fingerprint h (ri_definition i), ri_content i, ri_environment i, ri_contract i,
       ri_compilation i]) @ option_code (map_option rk_fingerprint (ri_parent i))"
  by (cases "ri_parent i") (simp_all add: revision_encoder_def enc_simps option_code_def)

text \<open>
  C16: A revision key identifies the revision. If the hash function does not collide on the inputs that
  are hashed on the way to the two keys (those of the callable, its method, implementation and
  definitions, and of the revisions themselves), two revisions with the same key have the same
  callable, content, environment, contract, compilation and parent: no field is left out of the
  encoding and no two values of the fields run together in it.
\<close>

theorem revision_key_identifies:
  assumes "digest32 h" and "collision_free h (revision_hash_inputs h i \<union> revision_hash_inputs h j)"
    and "revision_short i" "revision_short j" and "revision_from_inputs h i = revision_from_inputs h j"
  shows "i = j"
proof -
  have data: "enc_data (revision_encoder h i) = enc_data (revision_encoder h j)"
    using assms(5) finish_inject [OF assms(2)]
    by (auto simp: revision_from_inputs_def revision_hash_inputs_def)
  have ok: "list_all fp_ok [callable_fingerprint h (ri_definition i), ri_content i, ri_environment i, ri_contract i,
      ri_compilation i]" if "revision_short i" for i
    using that fp_ok_fingerprints [OF assms(1)] by (simp add: revision_short_def)
  from data have "concat (map fp_bytes [callable_fingerprint h (ri_definition i), ri_content i, ri_environment i,
      ri_contract i, ri_compilation i]) @ option_code (map_option rk_fingerprint (ri_parent i)) =
    concat (map fp_bytes [callable_fingerprint h (ri_definition j), ri_content j, ri_environment j,
      ri_contract j, ri_compilation j]) @ option_code (map_option rk_fingerprint (ri_parent j))"
    by (simp add: revision_data del: concat.simps list.map)
  from fingerprint_code.readable_all [OF _ ok [OF assms(3)] ok [OF assms(4)] this]
  have fields: "callable_fingerprint h (ri_definition i) = callable_fingerprint h (ri_definition j)"
    "ri_content i = ri_content j" "ri_environment i = ri_environment j" "ri_contract i = ri_contract j"
    "ri_compilation i = ri_compilation j"
    and parent: "option_code (map_option rk_fingerprint (ri_parent i)) = option_code (map_option rk_fingerprint (ri_parent j))"
    by simp_all
  from option_code.inject [OF _ _ parent] assms(3,4)
  have "map_option rk_fingerprint (ri_parent i) = map_option rk_fingerprint (ri_parent j)"
    by (simp add: revision_short_def option.pred_map comp_def)
  then have "ri_parent i = ri_parent j"
    by (cases "ri_parent i"; cases "ri_parent j") (auto intro: revision_key.expand)
  moreover from callable_fingerprint_inject [OF assms(2,1) _ _ _ _ fields(1)] assms(3,4)
  have "ri_definition i = ri_definition j" by (auto simp: revision_hash_inputs_def revision_short_def)
  ultimately show ?thesis using fields by (auto intro: revision_inputs.equality)
qed

definition sample_hash :: hasher where
  "sample_hash domain bytes =
     replicate 31 (if domain = ''etas.code.definition.v1'' then 1 else if domain = ''etas.code.callable.v1'' then 2 else 3) @
     [last bytes]"

definition sample_fp :: "byte \<Rightarrow> code_fingerprint" where
  "sample_fp b = CodeFingerprint (replicate 32 b)"

definition sample_flow :: definition_key where
  "sample_flow = DefinitionKey (PackageKey (sample_fp 8)) [''app''] [''main''] KindFlow"

definition sample_revision :: "revision_key option \<Rightarrow> revision_inputs" where
  "sample_revision parent =
     \<lparr>ri_definition = CallableDeclaration sample_flow, ri_content = sample_fp 1, ri_environment = sample_fp 2,
      ri_contract = sample_fp 3, ri_compilation = sample_fp 4, ri_parent = parent\<rparr>"

lemma sample_digest: "digest32 sample_hash"
  by (simp add: digest32_def sample_hash_def)

lemma sample_short:
  "revision_short (sample_revision None)" "revision_short (sample_revision (Some (RevisionKey (sample_fp 5))))"
  by (simp_all add: revision_short_def sample_revision_def callable_short_def definition_short_def sample_flow_def
      fp_ok_def sample_fp_def path_short_def short_def)

lemma sample_free:
  "collision_free sample_hash
     (revision_hash_inputs sample_hash (sample_revision None) \<union>
      revision_hash_inputs sample_hash (sample_revision (Some (RevisionKey (sample_fp 5)))))"
proof -
  have "revision_hash_inputs sample_hash (sample_revision parent) =
      {(''etas.code.revision.v1'', enc_data (revision_encoder sample_hash (sample_revision parent))),
       (''etas.code.callable.v1'', enc_data (callable_encoder sample_hash (CallableDeclaration sample_flow))),
       (''etas.code.definition.v1'', enc_data (definition_encoder sample_flow))}" for parent
    by (cases parent)
      (simp_all add: revision_hash_inputs_def callable_inputs_def sample_revision_def definition_inputs_def
        enc_input_def revision_encoder_def definition_encoder_def enc_simps)
  moreover have "last (enc_data (revision_encoder sample_hash (sample_revision None))) = 0"
    "last (enc_data (revision_encoder sample_hash (sample_revision (Some (RevisionKey (sample_fp 5)))))) = 5"
    by (simp_all add: sample_revision_def revision_encoder_def enc_simps sample_fp_def last_replicate)
  ultimately show ?thesis by (auto simp: collision_free_def inj_on_def sample_hash_def)
qed

theorem revision_key_identifies_witness:
  "revision_from_inputs sample_hash (sample_revision None) \<noteq>
   revision_from_inputs sample_hash (sample_revision (Some (RevisionKey (sample_fp 5))))"
  using revision_key_identifies [OF sample_digest sample_free sample_short]
  by (auto simp: sample_revision_def)

end
