(* ===== verification/Descriptors.thy ===== *)
theory Descriptors
  imports Identity
begin

text \<open>
  \<open>etas_code/src/descriptor\<close>: the flat descriptor graph (\<open>types.rs\<close>, \<open>callable.rs\<close>, \<open>behavior.rs\<close>,
  \<open>graph.rs\<close>), the references of a node (\<open>traversal.rs\<close>) and the fingerprint of the part of the graph
  that a node reaches (\<open>fingerprint.rs\<close>). References are 32-bit indices into the vectors of the graph;
  indexing outside a vector panics, the outer \<open>None\<close>.
\<close>

section \<open>References\<close>

datatype type_info_ref = TypeInfoRef (tir_index: u32)
datatype effect_row_info_ref = EffectRowInfoRef (rir_index: u32)
datatype generic_parameter_ref = GenericParameterRef (gpr_index: u32)
datatype trace_info_ref = TraceInfoRef (trr_index: u32)

datatype descriptor_node =
    NodeType type_info_ref
  | NodeRow effect_row_info_ref
  | NodeBinder generic_parameter_ref
  | NodeTrace trace_info_ref

datatype descriptor_error =
    InvalidDescription string
  | DescriptorLimit string nat
  | MissingReference descriptor_node descriptor_node
  | InvalidNode descriptor_node string
  | DuplicateName descriptor_node string
  | UnguardedCycle descriptor_node

definition vec_get :: "'a list \<Rightarrow> u32 \<Rightarrow> 'a option" where
  "vec_get xs i = (if unat i < length xs then Some (xs ! unat i) else None)"

section \<open>Types\<close>

datatype primitive_info =
    PUnit | PNever | PBool | PI8 | PI16 | PI32 | PI64 | PI128 | PIsize | PU8 | PU16 | PU32 | PU64 | PU128
  | PUsize | PF32 | PF64 | PChar | PString | PBytes

datatype builtin_type_info =
    BArray | BList | BMap | BSet | BRange | BSlice | BOption | BResult | BSchema | BPrompt | BPromptPart
  | BMessage | BMemorySelection | BStore | BMemoryRegion | BMemoryRegionHandle | BExternalToolHandle
  | BTrusted | BUntrusted | BSecret | BPublic | BSanitized | BCallableDefinition

definition builtin_arity :: "builtin_type_info \<Rightarrow> nat" where
  "builtin_arity b =
     (if b = BPrompt \<or> b = BPromptPart then 0 else if b = BMap \<or> b = BResult \<or> b = BStore then 2 else 1)"

record field_info =
  fi_name :: string
  fi_ty :: type_info_ref

datatype variant_payload_info =
    PayloadNone
  | PayloadPositional "type_info_ref list"
  | PayloadNamed "field_info list"

record variant_info =
  vi_name :: string
  vi_payload :: variant_payload_info

record spec_info =
  sp_definition :: definition_key
  sp_arguments :: "type_info_ref list"

record parameter_info =
  pa_name :: "string option"
  pa_ty :: type_info_ref

record signature_info =
  sg_generics :: "generic_parameter_ref list"
  sg_parameters :: "parameter_info list"
  sg_output :: type_info_ref
  sg_declared_output :: "type_info_ref option"
  sg_effects :: "effect_row_info_ref option"

datatype type_info =
    TypeExistential "spec_info list"
  | TypePrimitive primitive_info
  | TypeBuiltin builtin_type_info "type_info_ref list"
  | TypeParameter generic_parameter_ref
  | TypeTuple "type_info_ref list"
  | TypeRecord "field_info list"
  | TypeNominal definition_key "generic_parameter_ref list" "type_info_ref option"
  | TypeAlias definition_key "generic_parameter_ref list" type_info_ref
  | TypeEnum definition_key "generic_parameter_ref list" "variant_info list"
  | TypeApplied type_info_ref "type_info_ref list"
  | TypeFunction signature_info
  | TypeHandler effect_row_info_ref "effect_row_info_ref option" "type_info_ref option"
  | TypeTask type_info_ref effect_row_info_ref

datatype generic_owner =
    OwnerDeclaration definition_key
  | OwnerMethod method_id
  | OwnerImplementation implementation_key
  | OwnerImplementationPattern definition_key

fun alpha_scoped :: "generic_owner \<Rightarrow> bool" where
  "alpha_scoped (OwnerImplementation _) = True"
| "alpha_scoped (OwnerImplementationPattern _) = True"
| "alpha_scoped _ = False"

datatype generic_parameter_kind = ParameterType | ParameterEffectRow

record generic_parameter_info =
  gp_owner :: generic_owner
  gp_position :: u32
  gp_name :: string
  gp_kind :: generic_parameter_kind
  gp_bounds :: "spec_info list"

section \<open>Behaviour\<close>

datatype effect_target_info = TargetEffect definition_key | TargetAction definition_key string

datatype static_effect_arg_info =
    ArgType type_info_ref
  | ArgResource definition_key
  | ArgCallable callable_id
  | ArgString string
  | ArgInteger string
  | ArgWildcard

record effect_info =
  ef_target :: effect_target_info
  ef_arguments :: "static_effect_arg_info list"

record effect_row_info =
  er_effects :: "effect_info list"
  er_tail :: "generic_parameter_ref option"

datatype parameter_argument_info =
    ArgumentBool bool
  | ArgumentInteger bool "128 word"
  | ArgumentInput u32

datatype return_observation_info =
    ObservedAny
  | ObservedUnit
  | ObservedBool bool
  | ObservedVariant definition_key string

datatype parameter_handler_completion_info =
    CompletionResume (completion_result_type: type_info_ref) (completion_value: return_observation_info)
  | CompletionFinish (completion_result_type: type_info_ref) (completion_value: return_observation_info)

record parameter_handler_arm_info =
  ha_action :: effect_info
  ha_trace :: trace_info_ref
  ha_completion :: parameter_handler_completion_info

datatype parameter_handler_scope_info = ScopeHandle "parameter_handler_arm_info list"

record parameter_call_info =
  pc_callable :: callable_id
  pc_signature :: type_info_ref
  pc_position :: u32
  pc_arguments :: "parameter_argument_info list option"
  pc_handlers :: "parameter_handler_scope_info list option"

datatype callable_outcome_info =
    OutcomeReturned type_info_ref return_observation_info
  | OutcomeRaised type_info_ref
  | OutcomeNonReturn
  | OutcomeParameterNonReturn parameter_call_info
  | OutcomeParameterNonReturnTemplate parameter_call_info

datatype trace_info =
    TraceEmpty
  | TraceEvent effect_info
  | TraceOutcome callable_outcome_info
  | TraceParameterCall parameter_call_info
  | TraceSeq "trace_info_ref list"
  | TraceChoice "trace_info_ref list"
  | TraceRepeat trace_info_ref
  | TraceUnknownOrder effect_row_info_ref
  | TraceWidened effect_row_info_ref "parameter_call_info list"

section \<open>The graph\<close>

record descriptor_graph =
  dg_types :: "type_info list"
  dg_rows :: "effect_row_info list"
  dg_binders :: "generic_parameter_info list"
  dg_traces :: "trace_info list"

definition graph_type_info :: "descriptor_graph \<Rightarrow> type_info_ref \<Rightarrow> type_info option" where
  "graph_type_info g reference = vec_get (dg_types g) (tir_index reference)"

definition graph_effect_row :: "descriptor_graph \<Rightarrow> effect_row_info_ref \<Rightarrow> effect_row_info option" where
  "graph_effect_row g reference = vec_get (dg_rows g) (rir_index reference)"

definition graph_binder :: "descriptor_graph \<Rightarrow> generic_parameter_ref \<Rightarrow> generic_parameter_info option" where
  "graph_binder g reference = vec_get (dg_binders g) (gpr_index reference)"

definition graph_trace :: "descriptor_graph \<Rightarrow> trace_info_ref \<Rightarrow> trace_info option" where
  "graph_trace g reference = vec_get (dg_traces g) (trr_index reference)"

end
