(* ===== verification/Fingerprints.thy ===== *)
theory Fingerprints
  imports Descriptors
begin

text \<open>
  \<open>etas_code/src/descriptor/traversal.rs\<close> (\<open>node_index\<close>, \<open>references\<close>) and \<open>fingerprint.rs\<close>: the walk of
  the descriptors that a node reaches, and the canonical bytes it writes. \<open>references\<close> returns the list
  of the nodes that it calls \<open>visit\<close> on.
\<close>

section \<open>References of a node\<close>

definition node_index :: "descriptor_graph \<Rightarrow> descriptor_node \<Rightarrow> nat option" where
  "node_index g node =
     (case node of
        NodeType r \<Rightarrow> if unat (tir_index r) < length (dg_types g) then Some (unat (tir_index r)) else None
      | NodeRow r \<Rightarrow>
          if unat (rir_index r) < length (dg_rows g) then Some (length (dg_types g) + unat (rir_index r)) else None
      | NodeBinder r \<Rightarrow>
          if unat (gpr_index r) < length (dg_binders g)
          then Some (length (dg_types g) + length (dg_rows g) + unat (gpr_index r)) else None
      | NodeTrace r \<Rightarrow>
          if unat (trr_index r) < length (dg_traces g)
          then Some (length (dg_types g) + length (dg_rows g) + length (dg_binders g) + unat (trr_index r)) else None)"

definition node_at :: "descriptor_graph \<Rightarrow> nat \<Rightarrow> descriptor_node" where
  "node_at g index =
     (let types = length (dg_types g); rows = length (dg_rows g); binders = length (dg_binders g) in
      if index < types then NodeType (TypeInfoRef (of_nat index))
      else if index < types + rows then NodeRow (EffectRowInfoRef (of_nat (index - types)))
      else if index < types + rows + binders then NodeBinder (GenericParameterRef (of_nat (index - types - rows)))
      else NodeTrace (TraceInfoRef (of_nat (index - types - rows - binders))))"

definition spec_references :: "spec_info list \<Rightarrow> descriptor_node list" where
  "spec_references bounds = concat (map (\<lambda>bound. map NodeType (sp_arguments bound)) bounds)"

definition effect_references :: "effect_info \<Rightarrow> descriptor_node list" where
  "effect_references effect =
     concat (map (\<lambda>arg. case arg of ArgType ty \<Rightarrow> [NodeType ty] | _ \<Rightarrow> []) (ef_arguments effect))"

definition option_list :: "('a \<Rightarrow> 'b) \<Rightarrow> 'a option \<Rightarrow> 'b list" where
  "option_list f x = (case x of None \<Rightarrow> [] | Some a \<Rightarrow> [f a])"

definition payload_references :: "variant_payload_info \<Rightarrow> descriptor_node list" where
  "payload_references payload =
     (case payload of
        PayloadNone \<Rightarrow> []
      | PayloadPositional types \<Rightarrow> map NodeType types
      | PayloadNamed members \<Rightarrow> map (\<lambda>field. NodeType (fi_ty field)) members)"

definition type_references :: "bool \<Rightarrow> type_info \<Rightarrow> descriptor_node list" where
  "type_references expand_definitions ty =
     (case ty of
        TypeExistential bounds \<Rightarrow> spec_references bounds
      | TypePrimitive _ \<Rightarrow> []
      | TypeBuiltin _ arguments \<Rightarrow> map NodeType arguments
      | TypeParameter parameter \<Rightarrow> [NodeBinder parameter]
      | TypeTuple elements \<Rightarrow> map NodeType elements
      | TypeRecord members \<Rightarrow> map (\<lambda>field. NodeType (fi_ty field)) members
      | TypeNominal _ parameters representation \<Rightarrow>
          map NodeBinder parameters @ (if expand_definitions then option_list NodeType representation else [])
      | TypeAlias _ parameters target \<Rightarrow> map NodeBinder parameters @ [NodeType target]
      | TypeEnum _ parameters variants \<Rightarrow>
          map NodeBinder parameters @
          (if expand_definitions then concat (map (\<lambda>variant. payload_references (vi_payload variant)) variants) else [])
      | TypeApplied constructor arguments \<Rightarrow> NodeType constructor # map NodeType arguments
      | TypeFunction signature \<Rightarrow>
          map NodeBinder (sg_generics signature) @
          map (\<lambda>parameter. NodeType (pa_ty parameter)) (sg_parameters signature) @
          [NodeType (sg_output signature)] @
          option_list NodeType (sg_declared_output signature) @
          option_list NodeRow (sg_effects signature)
      | TypeHandler handled produced result \<Rightarrow>
          [NodeRow handled] @ option_list NodeRow produced @ option_list NodeType result
      | TypeTask output effects \<Rightarrow> [NodeType output, NodeRow effects])"

definition arm_references :: "parameter_handler_arm_info \<Rightarrow> descriptor_node list" where
  "arm_references arm =
     [NodeTrace (ha_trace arm), NodeType (completion_result_type (ha_completion arm))] @
     effect_references (ha_action arm)"

definition parameter_call_references :: "parameter_call_info \<Rightarrow> descriptor_node list" where
  "parameter_call_references call =
     NodeType (pc_signature call) #
     concat (map (\<lambda>handler. case handler of ScopeHandle arms \<Rightarrow> concat (map arm_references arms))
       (case pc_handlers call of None \<Rightarrow> [] | Some handlers \<Rightarrow> handlers))"

definition trace_references :: "trace_info \<Rightarrow> descriptor_node list" where
  "trace_references trace =
     (case trace of
        TraceEmpty \<Rightarrow> []
      | TraceOutcome outcome \<Rightarrow>
          (case outcome of
             OutcomeReturned ty _ \<Rightarrow> [NodeType ty]
           | OutcomeRaised error \<Rightarrow> [NodeType error]
           | OutcomeNonReturn \<Rightarrow> []
           | OutcomeParameterNonReturn call \<Rightarrow> parameter_call_references call
           | OutcomeParameterNonReturnTemplate call \<Rightarrow> parameter_call_references call)
      | TraceParameterCall call \<Rightarrow> parameter_call_references call
      | TraceEvent effect \<Rightarrow> effect_references effect
      | TraceSeq parts \<Rightarrow> map NodeTrace parts
      | TraceChoice parts \<Rightarrow> map NodeTrace parts
      | TraceRepeat inner \<Rightarrow> [NodeTrace inner]
      | TraceUnknownOrder actions \<Rightarrow> [NodeRow actions]
      | TraceWidened actions parameter_calls \<Rightarrow>
          NodeRow actions # concat (map parameter_call_references parameter_calls))"

definition references :: "descriptor_graph \<Rightarrow> bool \<Rightarrow> descriptor_node \<Rightarrow> descriptor_node list option" where
  "references g expand_definitions node =
     (case node of
        NodeType r \<Rightarrow> map_option (type_references expand_definitions) (vec_get (dg_types g) (tir_index r))
      | NodeRow r \<Rightarrow>
          map_option (\<lambda>row. option_list NodeBinder (er_tail row) @ concat (map effect_references (er_effects row)))
            (vec_get (dg_rows g) (rir_index r))
      | NodeBinder r \<Rightarrow>
          if expand_definitions
          then map_option (\<lambda>binder. spec_references (gp_bounds binder)) (vec_get (dg_binders g) (gpr_index r))
          else Some []
      | NodeTrace r \<Rightarrow> map_option trace_references (vec_get (dg_traces g) (trr_index r)))"

section \<open>The bytes of a node\<close>

definition primitive_tag :: "primitive_info \<Rightarrow> byte" where
  "primitive_tag p =
     (case p of PUnit \<Rightarrow> 0 | PNever \<Rightarrow> 1 | PBool \<Rightarrow> 2 | PI8 \<Rightarrow> 3 | PI16 \<Rightarrow> 4 | PI32 \<Rightarrow> 5 | PI64 \<Rightarrow> 6
      | PI128 \<Rightarrow> 18 | PIsize \<Rightarrow> 7 | PU8 \<Rightarrow> 8 | PU16 \<Rightarrow> 9 | PU32 \<Rightarrow> 10 | PU64 \<Rightarrow> 11 | PU128 \<Rightarrow> 19
      | PUsize \<Rightarrow> 12 | PF32 \<Rightarrow> 13 | PF64 \<Rightarrow> 14 | PChar \<Rightarrow> 15 | PString \<Rightarrow> 16 | PBytes \<Rightarrow> 17)"

definition builtin_tag :: "builtin_type_info \<Rightarrow> byte" where
  "builtin_tag b =
     (case b of BArray \<Rightarrow> 0 | BList \<Rightarrow> 1 | BMap \<Rightarrow> 2 | BSet \<Rightarrow> 3 | BRange \<Rightarrow> 4 | BSlice \<Rightarrow> 5 | BOption \<Rightarrow> 6
      | BResult \<Rightarrow> 7 | BSchema \<Rightarrow> 8 | BPrompt \<Rightarrow> 9 | BPromptPart \<Rightarrow> 10 | BMessage \<Rightarrow> 11
      | BMemorySelection \<Rightarrow> 12 | BStore \<Rightarrow> 13 | BMemoryRegion \<Rightarrow> 14 | BMemoryRegionHandle \<Rightarrow> 15
      | BExternalToolHandle \<Rightarrow> 16 | BTrusted \<Rightarrow> 17 | BUntrusted \<Rightarrow> 18 | BSecret \<Rightarrow> 19 | BPublic \<Rightarrow> 20
      | BSanitized \<Rightarrow> 21 | BCallableDefinition \<Rightarrow> 22)"

definition enc_len :: "'a list \<Rightarrow> canonical_encoder \<Rightarrow> canonical_encoder" where
  "enc_len xs = enc_number (of_nat (length xs))"

definition enc_bool :: "bool \<Rightarrow> canonical_encoder \<Rightarrow> canonical_encoder" where
  "enc_bool b = enc_tag (if b then 1 else 0)"

definition enc_text :: "string \<Rightarrow> canonical_encoder \<Rightarrow> canonical_encoder" where
  "enc_text s = enc_bytes (as_bytes s)"

definition encode_argument :: "hasher \<Rightarrow> static_effect_arg_info \<Rightarrow> canonical_encoder \<Rightarrow> canonical_encoder" where
  "encode_argument h argument e =
     (case argument of
        ArgType _ \<Rightarrow> enc_tag 1 e
      | ArgResource key \<Rightarrow> enc_fingerprint (definition_fingerprint h key) (enc_tag 2 e)
      | ArgString value \<Rightarrow> enc_text value (enc_tag 3 e)
      | ArgInteger value \<Rightarrow> enc_text value (enc_tag 4 e)
      | ArgWildcard \<Rightarrow> enc_tag 5 e
      | ArgCallable c \<Rightarrow> enc_fingerprint (callable_fingerprint h c) (enc_tag 6 e))"

definition encode_effect :: "hasher \<Rightarrow> effect_info \<Rightarrow> canonical_encoder \<Rightarrow> canonical_encoder" where
  "encode_effect h effect e =
     (let e = (case ef_target effect of
                 TargetEffect key \<Rightarrow> enc_fingerprint (definition_fingerprint h key) (enc_tag 0 e)
               | TargetAction key name \<Rightarrow>
                   enc_text name (enc_fingerprint (definition_fingerprint h key) (enc_tag 1 e)))
      in fold (encode_argument h) (ef_arguments effect) (enc_len (ef_arguments effect) e))"

definition encode_signature :: "signature_info \<Rightarrow> canonical_encoder \<Rightarrow> canonical_encoder" where
  "encode_signature signature e =
     (let e = fold (\<lambda>parameter e.
                      case pa_name parameter of Some name \<Rightarrow> enc_text name (enc_tag 1 e) | None \<Rightarrow> enc_tag 0 e)
                (sg_parameters signature)
                (enc_len (sg_parameters signature) (enc_len (sg_generics signature) e))
      in enc_bool (sg_effects signature \<noteq> None) (enc_bool (sg_declared_output signature \<noteq> None) e))"

definition encode_parameter_argument :: "parameter_argument_info \<Rightarrow> canonical_encoder \<Rightarrow> canonical_encoder" where
  "encode_parameter_argument argument e =
     (case argument of
        ArgumentBool value \<Rightarrow> enc_bool value (enc_tag 0 e)
      | ArgumentInput position \<Rightarrow> enc_number (ucast position) (enc_tag 1 e)
      | ArgumentInteger negative magnitude \<Rightarrow>
          enc_bytes (to_le_bytes 16 magnitude) (enc_bool negative (enc_tag 2 e)))"

definition encode_arm :: "hasher \<Rightarrow> parameter_handler_arm_info \<Rightarrow> canonical_encoder \<Rightarrow> canonical_encoder" where
  "encode_arm h arm e =
     (let e = encode_effect h (ha_action arm) e;
          e = enc_tag (case ha_completion arm of CompletionResume _ _ \<Rightarrow> 0 | CompletionFinish _ _ \<Rightarrow> 1) e
      in case completion_value (ha_completion arm) of
           ObservedUnit \<Rightarrow> enc_tag 0 e
         | ObservedBool value \<Rightarrow> enc_bool value (enc_tag 1 e)
         | ObservedAny \<Rightarrow> enc_tag 2 e
         | ObservedVariant owner name \<Rightarrow>
             enc_text name (enc_fingerprint (definition_fingerprint h owner) (enc_tag 3 e)))"

definition encode_handler :: "hasher \<Rightarrow> parameter_handler_scope_info \<Rightarrow> canonical_encoder \<Rightarrow> canonical_encoder" where
  "encode_handler h handler e =
     (case handler of ScopeHandle arms \<Rightarrow> fold (encode_arm h) arms (enc_len arms (enc_tag 0 e)))"

definition encode_parameter_call :: "hasher \<Rightarrow> parameter_call_info \<Rightarrow> canonical_encoder \<Rightarrow> canonical_encoder" where
  "encode_parameter_call h call e =
     (let e = enc_number (ucast (pc_position call)) (enc_fingerprint (callable_fingerprint h (pc_callable call)) e);
          e = (case pc_arguments call of
                 None \<Rightarrow> enc_tag 0 e
               | Some arguments \<Rightarrow> fold encode_parameter_argument arguments (enc_len arguments (enc_tag 1 e)))
      in case pc_handlers call of
           None \<Rightarrow> enc_tag 0 e
         | Some handlers \<Rightarrow> fold (encode_handler h) handlers (enc_len handlers (enc_tag 1 e)))"

definition encode_spec :: "hasher \<Rightarrow> spec_info \<Rightarrow> canonical_encoder \<Rightarrow> canonical_encoder" where
  "encode_spec h bound e =
     enc_len (sp_arguments bound) (enc_fingerprint (definition_fingerprint h (sp_definition bound)) e)"

definition encode_variant :: "variant_info \<Rightarrow> canonical_encoder \<Rightarrow> canonical_encoder" where
  "encode_variant variant e =
     (let e = enc_text (vi_name variant) e
      in case vi_payload variant of
           PayloadNone \<Rightarrow> enc_tag 0 e
         | PayloadPositional types \<Rightarrow> enc_len types (enc_tag 1 e)
         | PayloadNamed members \<Rightarrow> fold (\<lambda>field. enc_text (fi_name field)) members (enc_len members (enc_tag 2 e)))"

definition encode_type :: "hasher \<Rightarrow> type_info \<Rightarrow> canonical_encoder \<Rightarrow> canonical_encoder" where
  "encode_type h ty e =
     (case ty of
        TypeExistential bounds \<Rightarrow> fold (encode_spec h) bounds (enc_len bounds (enc_tag 12 e))
      | TypePrimitive primitive \<Rightarrow> enc_tag (primitive_tag primitive) (enc_tag 1 e)
      | TypeBuiltin constructor arguments \<Rightarrow> enc_len arguments (enc_tag (builtin_tag constructor) (enc_tag 11 e))
      | TypeParameter _ \<Rightarrow> enc_tag 2 e
      | TypeTuple elements \<Rightarrow> enc_len elements (enc_tag 3 e)
      | TypeRecord members \<Rightarrow> fold (\<lambda>field. enc_text (fi_name field)) members (enc_len members (enc_tag 4 e))
      | TypeNominal d parameters representation \<Rightarrow>
          enc_bool (representation \<noteq> None)
            (enc_len parameters (enc_fingerprint (definition_fingerprint h d) (enc_tag 5 e)))
      | TypeAlias d parameters _ \<Rightarrow> enc_len parameters (enc_fingerprint (definition_fingerprint h d) (enc_tag 6 e))
      | TypeEnum d parameters variants \<Rightarrow>
          fold encode_variant variants
            (enc_len variants (enc_len parameters (enc_fingerprint (definition_fingerprint h d) (enc_tag 7 e))))
      | TypeApplied _ arguments \<Rightarrow> enc_len arguments (enc_tag 8 e)
      | TypeFunction signature \<Rightarrow> encode_signature signature (enc_tag 9 e)
      | TypeHandler _ produced result \<Rightarrow> enc_bool (result \<noteq> None) (enc_bool (produced \<noteq> None) (enc_tag 10 e))
      | TypeTask _ _ \<Rightarrow> enc_tag 13 e)"

definition encode_row :: "hasher \<Rightarrow> effect_row_info \<Rightarrow> canonical_encoder \<Rightarrow> canonical_encoder" where
  "encode_row h row e =
     fold (encode_effect h) (er_effects row) (enc_len (er_effects row) (enc_bool (er_tail row \<noteq> None) e))"

definition encode_binder :: "hasher \<Rightarrow> generic_parameter_info \<Rightarrow> canonical_encoder \<Rightarrow> canonical_encoder" where
  "encode_binder h binder e =
     (let e = (case gp_owner binder of
                 OwnerDeclaration key \<Rightarrow> enc_fingerprint (definition_fingerprint h key) (enc_tag 0 e)
               | OwnerMethod method \<Rightarrow> enc_fingerprint (method_fingerprint h method) (enc_tag 1 e)
               | OwnerImplementation implementation \<Rightarrow>
                   enc_fingerprint (implementation_fingerprint h implementation) (enc_tag 2 e)
               | OwnerImplementationPattern subject \<Rightarrow>
                   enc_fingerprint (definition_fingerprint h subject) (enc_tag 3 e));
          e = enc_number (ucast (gp_position binder)) e;
          e = (if alpha_scoped (gp_owner binder) then e else enc_text (gp_name binder) e);
          e = enc_tag (case gp_kind binder of ParameterType \<Rightarrow> 0 | ParameterEffectRow \<Rightarrow> 1) e
      in fold (encode_spec h) (gp_bounds binder) (enc_len (gp_bounds binder) e))"

definition encode_outcome :: "hasher \<Rightarrow> callable_outcome_info \<Rightarrow> canonical_encoder \<Rightarrow> canonical_encoder" where
  "encode_outcome h outcome e =
     (case outcome of
        OutcomeNonReturn \<Rightarrow> enc_tag 0 e
      | OutcomeParameterNonReturn call \<Rightarrow> encode_parameter_call h call (enc_tag 3 e)
      | OutcomeParameterNonReturnTemplate call \<Rightarrow> encode_parameter_call h call (enc_tag 4 e)
      | OutcomeRaised _ \<Rightarrow> enc_tag 1 e
      | OutcomeReturned _ observation \<Rightarrow>
          (let e = enc_tag 2 e
           in case observation of
                ObservedAny \<Rightarrow> enc_tag 0 e
              | ObservedUnit \<Rightarrow> enc_tag 1 e
              | ObservedBool value \<Rightarrow> enc_bool value (enc_tag 2 e)
              | ObservedVariant owner name \<Rightarrow>
                  enc_text name (enc_fingerprint (definition_fingerprint h owner) (enc_tag 3 e))))"

definition encode_trace :: "hasher \<Rightarrow> trace_info \<Rightarrow> canonical_encoder \<Rightarrow> canonical_encoder" where
  "encode_trace h trace e =
     (case trace of
        TraceEmpty \<Rightarrow> enc_tag 0 e
      | TraceOutcome outcome \<Rightarrow> encode_outcome h outcome (enc_tag 8 e)
      | TraceEvent effect \<Rightarrow> encode_effect h effect (enc_tag 1 e)
      | TraceParameterCall call \<Rightarrow> encode_parameter_call h call (enc_tag 2 e)
      | TraceSeq parts \<Rightarrow> enc_len parts (enc_tag 3 e)
      | TraceChoice parts \<Rightarrow> enc_len parts (enc_tag 4 e)
      | TraceRepeat _ \<Rightarrow> enc_tag 5 e
      | TraceUnknownOrder _ \<Rightarrow> enc_tag 6 e
      | TraceWidened _ parameter_calls \<Rightarrow>
          fold (encode_parameter_call h) parameter_calls (enc_len parameter_calls (enc_tag 7 e)))"

definition encode_node ::
  "hasher \<Rightarrow> descriptor_graph \<Rightarrow> descriptor_node \<Rightarrow> canonical_encoder \<Rightarrow> canonical_encoder option" where
  "encode_node h g node e =
     (case node of
        NodeType r \<Rightarrow> map_option (\<lambda>ty. encode_type h ty (enc_tag 1 e)) (vec_get (dg_types g) (tir_index r))
      | NodeRow r \<Rightarrow> map_option (\<lambda>row. encode_row h row (enc_tag 2 e)) (vec_get (dg_rows g) (rir_index r))
      | NodeBinder r \<Rightarrow> map_option (\<lambda>binder. encode_binder h binder (enc_tag 3 e)) (vec_get (dg_binders g) (gpr_index r))
      | NodeTrace r \<Rightarrow> map_option (\<lambda>trace. encode_trace h trace (enc_tag 4 e)) (vec_get (dg_traces g) (trr_index r)))"

section \<open>The walk\<close>

record fingerprint_budget =
  fb_limit :: nat
  fb_remaining :: nat

definition fingerprint_budget_new :: "nat \<Rightarrow> fingerprint_budget" where
  "fingerprint_budget_new limit = \<lparr>fb_limit = limit, fb_remaining = limit\<rparr>"

definition budget_visit :: "fingerprint_budget \<Rightarrow> descriptor_error + fingerprint_budget" where
  "budget_visit budget =
     (if fb_remaining budget = 0 then Inl (DescriptorLimit ''fingerprint work'' (fb_limit budget))
      else Inr (budget\<lparr>fb_remaining := fb_remaining budget - 1\<rparr>))"

text \<open>
  \<open>visited\<close> is the list of the nodes with their encounter numbers, the newest first: only absent nodes
  are inserted. The loop ends because every turn takes one from the budget.
\<close>

function fingerprint_loop ::
  "hasher \<Rightarrow> descriptor_graph \<Rightarrow> descriptor_node list \<Rightarrow> (descriptor_node \<times> u64) list \<Rightarrow> canonical_encoder \<Rightarrow>
   fingerprint_budget \<Rightarrow> (descriptor_error + canonical_encoder \<times> fingerprint_budget) option" where
  "fingerprint_loop h g work visited e budget =
     (case work of
        [] \<Rightarrow> Some (Inr (e, budget))
      | node # work' \<Rightarrow>
          (case budget_visit budget of
             Inl err \<Rightarrow> Some (Inl err)
           | Inr budget' \<Rightarrow>
               (case map_of visited node of
                  Some label \<Rightarrow> fingerprint_loop h g work' visited (enc_number label (enc_tag 0 e)) budget'
                | None \<Rightarrow>
                    let label = of_nat (length visited);
                        e = enc_number label (enc_tag 1 e)
                    in case (encode_node h g node e, references g True node) of
                         (Some e, Some children) \<Rightarrow>
                           fingerprint_loop h g (children @ work') ((node, label) # visited)
                             (enc_len children e) budget'
                       | _ \<Rightarrow> None)))"
  by pat_completeness auto

termination
  by (relation "measure (\<lambda>(h, g, work, visited, e, budget). fb_remaining budget)")
    (auto simp: budget_visit_def split: if_splits)

declare fingerprint_loop.simps [simp del]

definition node_fingerprint_with_budget ::
  "hasher \<Rightarrow> descriptor_graph \<Rightarrow> descriptor_node \<Rightarrow> string \<Rightarrow> fingerprint_budget \<Rightarrow>
   (descriptor_error + code_fingerprint \<times> fingerprint_budget) option" where
  "node_fingerprint_with_budget h g root domain budget =
     (if node_index g root = None then Some (Inl (MissingReference root root))
      else
        (case fingerprint_loop h g [root] [] (enc_new domain) budget of
           None \<Rightarrow> None
         | Some (Inl err) \<Rightarrow> Some (Inl err)
         | Some (Inr (e, budget')) \<Rightarrow> Some (Inr (enc_finish h e, budget'))))"

definition node_fingerprint ::
  "hasher \<Rightarrow> descriptor_graph \<Rightarrow> descriptor_node \<Rightarrow> string \<Rightarrow> (descriptor_error + code_fingerprint) option" where
  "node_fingerprint h g root domain =
     map_option (map_sum id fst) (node_fingerprint_with_budget h g root domain (fingerprint_budget_new usize_max))"

definition type_fingerprint ::
  "hasher \<Rightarrow> descriptor_graph \<Rightarrow> type_info_ref \<Rightarrow> (descriptor_error + code_fingerprint) option" where
  "type_fingerprint h g root = node_fingerprint h g (NodeType root) ''etas.code.type-descriptor.v1''"

definition row_fingerprint ::
  "hasher \<Rightarrow> descriptor_graph \<Rightarrow> effect_row_info_ref \<Rightarrow> (descriptor_error + code_fingerprint) option" where
  "row_fingerprint h g root = node_fingerprint h g (NodeRow root) ''etas.code.row-descriptor.v1''"

definition trace_fingerprint ::
  "hasher \<Rightarrow> descriptor_graph \<Rightarrow> trace_info_ref \<Rightarrow> (descriptor_error + code_fingerprint) option" where
  "trace_fingerprint h g root = node_fingerprint h g (NodeTrace root) ''etas.code.trace-descriptor.v1''"

section \<open>The walk returns\<close>

definition descriptor_nodes :: "descriptor_graph \<Rightarrow> descriptor_node list" where
  "descriptor_nodes g =
     map (\<lambda>i. NodeType (TypeInfoRef (of_nat i))) [0..<length (dg_types g)] @
     map (\<lambda>i. NodeRow (EffectRowInfoRef (of_nat i))) [0..<length (dg_rows g)] @
     map (\<lambda>i. NodeBinder (GenericParameterRef (of_nat i))) [0..<length (dg_binders g)] @
     map (\<lambda>i. NodeTrace (TraceInfoRef (of_nat i))) [0..<length (dg_traces g)]"

definition node_references :: "descriptor_graph \<Rightarrow> descriptor_node \<Rightarrow> descriptor_node list" where
  "node_references g node = (case references g True node of None \<Rightarrow> [] | Some children \<Rightarrow> children)"

text \<open>Every reference of the graph is in range, which \<open>DescriptorGraph::new\<close> validates.\<close>

definition graph_closed :: "descriptor_graph \<Rightarrow> bool" where
  "graph_closed g \<longleftrightarrow>
     list_all (\<lambda>node. list_all (\<lambda>child. node_index g child \<noteq> None) (node_references g node)) (descriptor_nodes g)"

definition graph_reference_count :: "descriptor_graph \<Rightarrow> nat" where
  "graph_reference_count g = sum_list (map (\<lambda>node. length (node_references g node)) (descriptor_nodes g))"

lemma node_index_in_descriptor_nodes:
  assumes "node_index g node \<noteq> None"
  shows "node \<in> set (descriptor_nodes g)"
proof -
  have of_unat: "\<exists>i \<in> {0..<length xs}. w = of_nat i" if "unat (w :: u32) < length xs" for w and xs :: "'a list"
    using that by (intro bexI [of _ "unat w"]) auto
  show ?thesis
  proof (cases node)
    case (NodeType r)
    with assms of_unat [of "tir_index r" "dg_types g"] show ?thesis
      by (cases r) (auto simp: node_index_def descriptor_nodes_def split: if_splits)
  next
    case (NodeRow r)
    with assms of_unat [of "rir_index r" "dg_rows g"] show ?thesis
      by (cases r) (auto simp: node_index_def descriptor_nodes_def split: if_splits)
  next
    case (NodeBinder r)
    with assms of_unat [of "gpr_index r" "dg_binders g"] show ?thesis
      by (cases r) (auto simp: node_index_def descriptor_nodes_def split: if_splits)
  next
    case (NodeTrace r)
    with assms of_unat [of "trr_index r" "dg_traces g"] show ?thesis
      by (cases r) (auto simp: node_index_def descriptor_nodes_def split: if_splits)
  qed
qed

lemma node_in_range:
  assumes "node_index g node \<noteq> None"
  shows "\<exists>e'. encode_node h g node e = Some e'" "references g True node = Some (node_references g node)"
  using assms
  by (auto simp: node_index_def encode_node_def references_def node_references_def vec_get_def
      split: descriptor_node.splits if_splits)

lemma graph_closedD:
  "graph_closed g \<Longrightarrow> node_index g node \<noteq> None \<Longrightarrow> child \<in> set (node_references g node) \<Longrightarrow> node_index g child \<noteq> None"
  using node_index_in_descriptor_nodes [of g node] by (auto simp: graph_closed_def list_all_iff)

definition pending_references :: "descriptor_graph \<Rightarrow> (descriptor_node \<times> u64) list \<Rightarrow> nat" where
  "pending_references g visited =
     (\<Sum>node \<in> set (descriptor_nodes g) - fst ` set visited. length (node_references g node))"

lemma pending_references_visit:
  assumes "node_index g node \<noteq> None" "map_of visited node = None"
  shows "pending_references g visited =
    length (node_references g node) + pending_references g ((node, label) # visited)"
proof -
  have "node \<in> set (descriptor_nodes g) - fst ` set visited"
    using node_index_in_descriptor_nodes [OF assms(1)] assms(2) by (auto simp: map_of_eq_None_iff)
  moreover have "set (descriptor_nodes g) - fst ` set ((node, label) # visited) =
      (set (descriptor_nodes g) - fst ` set visited) - {node}" by auto
  ultimately show ?thesis
    unfolding pending_references_def by (simp add: sum.remove)
qed

lemma pending_references_le: "pending_references g [] \<le> graph_reference_count g"
proof -
  have "sum f (set xs) \<le> sum_list (map f xs)" for f :: "descriptor_node \<Rightarrow> nat" and xs
    by (induction xs) (auto simp: sum.insert_if)
  then show ?thesis by (simp add: pending_references_def graph_reference_count_def)
qed

lemma fingerprint_loop_total:
  assumes "graph_closed g" "list_all (\<lambda>node. node_index g node \<noteq> None) work"
    and "length work + pending_references g visited \<le> fb_remaining budget"
  shows "\<exists>e' budget'. fingerprint_loop h g work visited e budget = Some (Inr (e', budget'))"
  using assms
proof (induction h g work visited e budget rule: fingerprint_loop.induct)
  case (1 h g work visited e budget)
  show ?case
  proof (cases work)
    case Nil
    then show ?thesis by (simp add: fingerprint_loop.simps)
  next
    case (Cons node work')
    define budget' where "budget' = budget\<lparr>fb_remaining := fb_remaining budget - 1\<rparr>"
    have visit: "budget_visit budget = Inr budget'"
      using Cons 1(5) by (simp add: budget_visit_def budget'_def)
    show ?thesis
    proof (cases "map_of visited node")
      case (Some label)
      with 1(2) [OF Cons visit Some] 1(3-5) Cons show ?thesis
        by (simp add: fingerprint_loop.simps [of h g "node # work'"] visit budget'_def)
    next
      case None
      from 1(4) Cons have idx: "node_index g node \<noteq> None" by simp
      define label where "label = (of_nat (length visited) :: u64)"
      obtain e' where e': "encode_node h g node (enc_number label (enc_tag 1 e)) = Some e'"
        using node_in_range(1) [OF idx] by blast
      note refs = node_in_range(2) [OF idx]
      have "\<exists>a b. fingerprint_loop h g (node_references g node @ work') ((node, label) # visited)
          (enc_len (node_references g node) e') budget' = Some (Inr (a, b))"
      proof (rule 1(1) [OF Cons visit None label_def refl _ e' refs])
        show "list_all (\<lambda>node. node_index g node \<noteq> None) (node_references g node @ work')"
          using graph_closedD [OF 1(3) idx] 1(4) Cons by (auto simp: list_all_iff)
        show "length (node_references g node @ work') + pending_references g ((node, label) # visited) \<le> fb_remaining budget'"
          using pending_references_visit [OF idx None, of label] 1(5) Cons by (simp add: budget'_def)
      qed (use 1(3) in simp_all)
      then show ?thesis
        using Cons visit None e' refs by (simp add: fingerprint_loop.simps [of h g "node # work'"] label_def Let_def)
    qed
  qed
qed

lemma fingerprint_loop_returns:
  assumes "graph_closed g" "Suc (graph_reference_count g) \<le> usize_max" "node_index g root \<noteq> None"
  shows "\<exists>e' budget'. fingerprint_loop h g [root] [] e (fingerprint_budget_new usize_max) = Some (Inr (e', budget'))"
  using pending_references_le [of g] assms(2,3)
  by (intro fingerprint_loop_total [OF assms(1)]) (auto simp: fingerprint_budget_new_def)

text \<open>
  Fingerprinting a descriptor returns. On a graph whose references are all in range, with fewer than
  \<open>usize::MAX\<close> references, the fingerprint of a type, row, binder or trace of the graph is a value: the
  walk neither panics nor exhausts its work budget, on cyclic graphs too; of a node that is not in the
  graph it is the missing-reference error.
\<close>

lemma node_fingerprint_outcome:
  assumes "graph_closed g" "Suc (graph_reference_count g) \<le> usize_max"
  shows "\<exists>f. node_fingerprint h g root domain =
    (if node_index g root = None then Some (Inl (MissingReference root root)) else Some (Inr f))"
proof (cases "node_index g root = None")
  case True
  then show ?thesis by (simp add: node_fingerprint_def node_fingerprint_with_budget_def)
next
  case False
  from fingerprint_loop_returns [OF assms False, of h "enc_new domain"] False show ?thesis
    by (auto simp: node_fingerprint_def node_fingerprint_with_budget_def)
qed

lemma node_fingerprint_not_None:
  assumes "graph_closed g" "Suc (graph_reference_count g) \<le> usize_max"
  shows "node_fingerprint h g root domain \<noteq> None"
  using node_fingerprint_outcome [OF assms, of h root domain] by auto

section \<open>A sample graph\<close>

definition sample_descriptors :: descriptor_graph where
  "sample_descriptors =
     \<lparr>dg_types = [TypeBuiltin BList [TypeInfoRef 1], TypePrimitive PUnit], dg_rows = [], dg_binders = [], dg_traces = []\<rparr>"

end
