(* ===== verification/TraceLabels.thy ===== *)
theory TraceLabels
  imports Fingerprints
begin

text \<open>
  \<open>etas_code/src/contract/labels.rs\<close>: the canonical labels of a trace automaton, when a label of the
  frozen contract covers a label of a candidate, and the work that comparing labels is charged for.
\<close>

section \<open>Labels\<close>

datatype canonical_selector =
    SelectorType code_fingerprint
  | SelectorResource definition_key
  | SelectorCallable callable_id
  | SelectorString string
  | SelectorInteger string
  | SelectorWildcard

record canonical_effect =
  ce_target :: effect_target_info
  ce_arguments :: "canonical_selector list"

datatype handler_control_label = ControlResume | ControlFinish

record handler_arm_label =
  hl_action :: canonical_effect
  hl_trace :: code_fingerprint
  hl_control :: handler_control_label
  hl_result_type :: code_fingerprint
  hl_value :: return_observation_info

datatype handler_scope_label = HandleLabel "handler_arm_label list"

text \<open>The fields that \<open>TraceLabel::ParameterCall\<close> and \<open>TraceLabel::ParameterNonReturn\<close> share.\<close>

record call_label =
  cl_callable :: callable_id
  cl_position :: u32
  cl_signature :: code_fingerprint
  cl_arguments :: "parameter_argument_info list option"
  cl_handlers :: "handler_scope_label list option"

datatype trace_label =
    LabelAction canonical_effect
  | LabelParameterCall call_label
  | LabelReturned code_fingerprint return_observation_info
  | LabelRaised code_fingerprint
  | LabelNonReturn
  | LabelParameterNonReturn call_label

section \<open>Coverage\<close>

fun target_covers :: "effect_target_info \<Rightarrow> effect_target_info \<Rightarrow> bool" where
  "target_covers (TargetEffect bound) (TargetAction effect name) = (bound = effect)"
| "target_covers bound target = (bound = target)"

definition effect_covers :: "canonical_effect \<Rightarrow> canonical_effect \<Rightarrow> bool" where
  "effect_covers bound candidate \<longleftrightarrow>
     target_covers (ce_target bound) (ce_target candidate) \<and>
     length (ce_arguments bound) = length (ce_arguments candidate) \<and>
     list_all (\<lambda>(b, a). b = SelectorWildcard \<or> b = a) (zip (ce_arguments bound) (ce_arguments candidate))"

text \<open>
  The arms of the match in their order: calls whose handlers or arguments are not proved cover nothing
  and are covered by nothing.
\<close>

definition call_covers :: "call_label \<Rightarrow> call_label \<Rightarrow> bool" where
  "call_covers bound candidate \<longleftrightarrow>
     (if cl_handlers bound = None then False
      else if cl_handlers candidate = None then False
      else if cl_arguments bound = None then False
      else if cl_arguments candidate = None then False
      else bound = candidate)"

fun covers :: "trace_label \<Rightarrow> trace_label \<Rightarrow> bool" where
  "covers LabelNonReturn LabelNonReturn = True"
| "covers (LabelAction bound) (LabelAction actual) = effect_covers bound actual"
| "covers (LabelParameterCall bound) (LabelParameterCall actual) = call_covers bound actual"
| "covers (LabelParameterNonReturn bound) (LabelParameterNonReturn actual) = call_covers bound actual"
| "covers (LabelReturned expected bound) (LabelReturned actual observation) =
     (expected = actual \<and> (bound = ObservedAny \<or> bound = observation))"
| "covers label candidate = (label = candidate)"

section \<open>Work\<close>

definition path_work :: "string list \<Rightarrow> nat" where
  "path_work path = fold (\<lambda>segment n. saturating_add n (length segment)) path (length path)"

definition key_work :: "definition_key \<Rightarrow> nat" where
  "key_work key = saturating_add (saturating_add 1 (path_work (dk_module key))) (path_work (dk_declaration key))"

fun callable_work :: "callable_id \<Rightarrow> nat" where
  "callable_work (CallableDeclaration key) = key_work key"
| "callable_work (CallableMethod method) =
     (let implementation = mi_implementation method in
      saturating_add
        (saturating_add
          (saturating_add (saturating_add 1 (length (mi_name method))) (path_work (ik_module implementation)))
          (key_work (ik_subject implementation)))
        (case ik_selected_spec implementation of None \<Rightarrow> 0 | Some spec \<Rightarrow> key_work spec))"

fun target_work :: "effect_target_info \<Rightarrow> nat" where
  "target_work (TargetEffect key) = key_work key"
| "target_work (TargetAction key name) = saturating_add (key_work key) (length name)"

fun selector_work :: "canonical_selector \<Rightarrow> nat" where
  "selector_work (SelectorResource key) = key_work key"
| "selector_work (SelectorCallable c) = callable_work c"
| "selector_work (SelectorString value) = saturating_add (length value) 1"
| "selector_work (SelectorInteger value) = saturating_add (length value) 1"
| "selector_work _ = 1"

definition effect_work :: "canonical_effect \<Rightarrow> nat" where
  "effect_work effect =
     fold (\<lambda>arg work. saturating_add work (selector_work arg)) (ce_arguments effect) (target_work (ce_target effect))"

definition handlers_work :: "handler_scope_label list option \<Rightarrow> nat" where
  "handlers_work handlers =
     (case handlers of
        None \<Rightarrow> 1
      | Some handlers \<Rightarrow>
          fold (\<lambda>handler work.
                  case handler of HandleLabel arms \<Rightarrow>
                    fold (\<lambda>arm work. saturating_add (saturating_add work (effect_work (hl_action arm))) 1) arms
                      (saturating_add work 1))
            handlers 1)"

definition call_work :: "call_label \<Rightarrow> nat" where
  "call_work call =
     saturating_add
       (saturating_add (callable_work (cl_callable call))
         (case cl_arguments call of None \<Rightarrow> 1 | Some arguments \<Rightarrow> length arguments))
       (handlers_work (cl_handlers call))"

fun comparison_work :: "trace_label \<Rightarrow> nat" where
  "comparison_work (LabelAction effect) = effect_work effect"
| "comparison_work (LabelParameterCall call) = call_work call"
| "comparison_work (LabelParameterNonReturn call) = call_work call"
| "comparison_work (LabelReturned ty (ObservedVariant owner name)) = saturating_add (key_work owner) (length name)"
| "comparison_work (LabelReturned ty observation) = 1"
| "comparison_work (LabelRaised error) = 1"
| "comparison_work LabelNonReturn = 1"

section \<open>Labels of descriptors\<close>

definition canonical_selector_of ::
  "hasher \<Rightarrow> descriptor_graph \<Rightarrow> static_effect_arg_info \<Rightarrow> (descriptor_error + canonical_selector) option" where
  "canonical_selector_of h g argument =
     (case argument of
        ArgType ty \<Rightarrow> bind_o (type_fingerprint h g ty) (\<lambda>f. Some (Inr (SelectorType f)))
      | ArgResource key \<Rightarrow> Some (Inr (SelectorResource key))
      | ArgCallable c \<Rightarrow> Some (Inr (SelectorCallable c))
      | ArgString value \<Rightarrow> Some (Inr (SelectorString value))
      | ArgInteger value \<Rightarrow> Some (Inr (SelectorInteger value))
      | ArgWildcard \<Rightarrow> Some (Inr SelectorWildcard))"

definition canonical_effect_of ::
  "hasher \<Rightarrow> descriptor_graph \<Rightarrow> effect_info \<Rightarrow> (descriptor_error + canonical_effect) option" where
  "canonical_effect_of h g effect =
     bind_o (collect_o (canonical_selector_of h g) (ef_arguments effect)) (\<lambda>arguments.
       Some (Inr \<lparr>ce_target = ef_target effect, ce_arguments = arguments\<rparr>))"

definition handler_arm_label_of ::
  "hasher \<Rightarrow> descriptor_graph \<Rightarrow> parameter_handler_arm_info \<Rightarrow> (descriptor_error + handler_arm_label) option" where
  "handler_arm_label_of h g arm =
     bind_o (canonical_effect_of h g (ha_action arm)) (\<lambda>action.
     bind_o (trace_fingerprint h g (ha_trace arm)) (\<lambda>trace.
     bind_o (type_fingerprint h g (completion_result_type (ha_completion arm))) (\<lambda>result_type.
       Some (Inr \<lparr>hl_action = action, hl_trace = trace,
         hl_control = (case ha_completion arm of CompletionResume _ _ \<Rightarrow> ControlResume | CompletionFinish _ _ \<Rightarrow> ControlFinish),
         hl_result_type = result_type, hl_value = completion_value (ha_completion arm)\<rparr>))))"

definition handler_scope_labels ::
  "hasher \<Rightarrow> descriptor_graph \<Rightarrow> parameter_call_info \<Rightarrow> (descriptor_error + handler_scope_label list option) option" where
  "handler_scope_labels h g call =
     (case pc_handlers call of
        None \<Rightarrow> Some (Inr None)
      | Some handlers \<Rightarrow>
          bind_o (collect_o (\<lambda>handler. case handler of ScopeHandle arms \<Rightarrow>
                    bind_o (collect_o (handler_arm_label_of h g) arms) (\<lambda>arms. Some (Inr (HandleLabel arms)))) handlers)
            (\<lambda>labels. Some (Inr (Some labels))))"

definition parameter_call_label ::
  "hasher \<Rightarrow> descriptor_graph \<Rightarrow> parameter_call_info \<Rightarrow> (descriptor_error + call_label) option" where
  "parameter_call_label h g call =
     bind_o (type_fingerprint h g (pc_signature call)) (\<lambda>signature.
     bind_o (handler_scope_labels h g call) (\<lambda>handlers.
       Some (Inr \<lparr>cl_callable = pc_callable call, cl_position = pc_position call, cl_signature = signature,
         cl_arguments = pc_arguments call, cl_handlers = handlers\<rparr>)))"

definition outcome_label ::
  "hasher \<Rightarrow> descriptor_graph \<Rightarrow> callable_outcome_info \<Rightarrow> (descriptor_error + trace_label) option" where
  "outcome_label h g outcome =
     (case outcome of
        OutcomeReturned ty observation \<Rightarrow>
          bind_o (type_fingerprint h g ty) (\<lambda>f. Some (Inr (LabelReturned f observation)))
      | OutcomeRaised error \<Rightarrow> bind_o (type_fingerprint h g error) (\<lambda>f. Some (Inr (LabelRaised f)))
      | OutcomeNonReturn \<Rightarrow> Some (Inr LabelNonReturn)
      | OutcomeParameterNonReturnTemplate _ \<Rightarrow>
          Some (Inl (InvalidDescription ''generic callback outcome is not instantiated''))
      | OutcomeParameterNonReturn call \<Rightarrow>
          bind_o (parameter_call_label h g call) (\<lambda>c. Some (Inr (LabelParameterNonReturn c))))"

section \<open>Laws of coverage\<close>

lemma effect_covers_refl: "effect_covers e e"
  by (cases "ce_target e") (auto simp: effect_covers_def list_all_iff in_set_zip)

lemma target_covers_trans: "target_covers a b \<Longrightarrow> target_covers b c \<Longrightarrow> target_covers a c"
  by (cases a; cases b; cases c) auto

lemma effect_covers_trans: "effect_covers a b \<Longrightarrow> effect_covers b c \<Longrightarrow> effect_covers a c"
  by (force simp: effect_covers_def list_all_length intro: target_covers_trans)

definition label_proved :: "trace_label \<Rightarrow> bool" where
  "label_proved label =
     (case label of
        LabelParameterCall c \<Rightarrow> cl_handlers c \<noteq> None \<and> cl_arguments c \<noteq> None
      | LabelParameterNonReturn c \<Rightarrow> cl_handlers c \<noteq> None \<and> cl_arguments c \<noteq> None
      | _ \<Rightarrow> True)"

text \<open>Coverage is reflexive on the labels whose calls are proved, and transitive.\<close>

lemma covers_refl_iff: "covers a a \<longleftrightarrow> label_proved a"
  by (cases a) (simp_all add: effect_covers_refl call_covers_def label_proved_def)

lemma covers_trans: "covers a b \<Longrightarrow> covers b c \<Longrightarrow> covers a c"
  by (cases a; cases b; cases c) (auto simp: call_covers_def intro: effect_covers_trans split: if_splits)

end
