(* ===== verification/Effects.thy ===== *)
theory Effects
  imports Prelude
begin

text \<open>
  Code that threads a mutable context (a proof budget, a validator) and may fail: a computation maps the
  context to a panic (\<open>None\<close>), an error, or a value and the context left. \<open>holds\<close> is total correctness.
\<close>

type_synonym ('s, 'e, 'a) effect = "'s \<Rightarrow> ('e + 'a \<times> 's) option"

definition return_p :: "'a \<Rightarrow> ('s, 'e, 'a) effect" where
  "return_p a b = Some (Inr (a, b))"

definition bind_p :: "('s, 'e, 'a) effect \<Rightarrow> ('a \<Rightarrow> ('s, 'e, 'b) effect) \<Rightarrow> ('s, 'e, 'b) effect" where
  "bind_p m f b = bind_o (m b) (\<lambda>(a, b'). f a b')"

definition fail_p :: "'e \<Rightarrow> ('s, 'e, 'a) effect" where
  "fail_p e b = Some (Inl e)"

definition panic_p :: "('s, 'e, 'a) effect" where
  "panic_p b = None"

fun fold_p :: "('x \<Rightarrow> 'c \<Rightarrow> ('s, 'e, 'c) effect) \<Rightarrow> 'x list \<Rightarrow> 'c \<Rightarrow> ('s, 'e, 'c) effect" where
  "fold_p f [] s = return_p s"
| "fold_p f (x # xs) s = bind_p (f x s) (fold_p f xs)"

definition each_p :: "('x \<Rightarrow> ('s, 'e, unit) effect) \<Rightarrow> 'x list \<Rightarrow> ('s, 'e, unit) effect" where
  "each_p f xs = fold_p (\<lambda>x _. f x) xs ()"

text \<open>\<open>holds m b Q\<close>: run from \<open>b\<close>, \<open>m\<close> does not panic, and if it succeeds its value satisfies \<open>Q\<close>.\<close>

definition holds :: "('s, 'e, 'a) effect \<Rightarrow> 's \<Rightarrow> ('a \<Rightarrow> 's \<Rightarrow> bool) \<Rightarrow> bool" where
  "holds m b Q \<longleftrightarrow> (case m b of None \<Rightarrow> False | Some (Inl e) \<Rightarrow> True | Some (Inr (a, b')) \<Rightarrow> Q a b')"

lemma holdsD: "holds m b Q \<Longrightarrow> m b = Some (Inr (a, b')) \<Longrightarrow> Q a b'"
  by (simp add: holds_def)

lemma holds_not_None: "holds m b Q \<Longrightarrow> m b \<noteq> None"
  by (auto simp: holds_def split: option.splits)

lemma holds_return [simp]: "holds (return_p a) b Q \<longleftrightarrow> Q a b"
  by (simp add: holds_def return_p_def)

lemma holds_fail [simp]: "holds (fail_p e) b Q"
  by (simp add: holds_def fail_p_def)

lemma holds_bind [simp]: "holds (bind_p m f) b Q \<longleftrightarrow> holds m b (\<lambda>a b'. holds (f a) b' Q)"
  by (auto simp: holds_def bind_p_def bind_o_def split: option.splits sum.splits)

lemma holds_mono: "holds m b Q \<Longrightarrow> (\<And>a b'. Q a b' \<Longrightarrow> Q' a b') \<Longrightarrow> holds m b Q'"
  by (auto simp: holds_def split: option.splits sum.splits prod.splits)

lemma holds_fold:
  assumes "I [] s"
    and "\<And>ys x zs s b. xs = ys @ x # zs \<Longrightarrow> I ys s \<Longrightarrow> holds (f x s) b (\<lambda>s' b'. I (ys @ [x]) s')"
  shows "holds (fold_p f xs s) b (\<lambda>s' b'. I xs s')"
proof -
  have "holds (fold_p f zs s) b (\<lambda>s' b'. I xs s')" if "xs = ys @ zs" "I ys s" for ys zs s b
    using that
  proof (induction zs arbitrary: ys s b)
    case (Cons x zs)
    have "holds (f x s) b (\<lambda>s' b'. holds (fold_p f zs s') b' (\<lambda>s' b'. I xs s'))"
      using assms(2) [OF Cons.prems] by (rule holds_mono) (use Cons.IH [of "ys @ [x]"] Cons.prems in simp)
    then show ?case by simp
  qed simp
  from this [of "[]" xs s b] assms(1) show ?thesis by simp
qed

lemma fold_p_append: "fold_p f (xs @ ys) s = bind_p (fold_p f xs s) (fold_p f ys)"
proof (induction xs arbitrary: s)
  case Nil
  show ?case by (simp add: bind_p_def return_p_def fun_eq_iff)
next
  case (Cons x xs)
  show ?case by (simp add: Cons bind_p_def fun_eq_iff bind_o_def split: option.split sum.split)
qed

lemma fold_p_map: "fold_p f (map k xs) = fold_p (\<lambda>x. f (k x)) xs"
  by (induction xs) (rule ext, simp)+

section \<open>Invariants of the context\<close>

definition keeps :: "('s \<Rightarrow> bool) \<Rightarrow> ('s, 'e, 'a) effect \<Rightarrow> bool" where
  "keeps I m \<longleftrightarrow> (\<forall>b. I b \<longrightarrow> holds m b (\<lambda>_ b'. I b'))"

named_theorems keeps_intros \<open>rules for what a computation keeps of its context\<close>

lemma keepsD: "keeps I m \<Longrightarrow> I b \<Longrightarrow> holds m b (\<lambda>_ b'. I b')"
  by (simp add: keeps_def)

lemma keeps_return [keeps_intros]: "keeps I (return_p a)"
  by (simp add: keeps_def)

lemma keeps_fail [keeps_intros]: "keeps I (fail_p e)"
  by (simp add: keeps_def)

lemma keeps_bind [keeps_intros]: "keeps I m \<Longrightarrow> (\<And>a. keeps I (f a)) \<Longrightarrow> keeps I (bind_p m f)"
  unfolding keeps_def holds_bind by (blast intro: holds_mono)

lemma keeps_fold [keeps_intros]: "(\<And>x s. x \<in> set xs \<Longrightarrow> keeps I (f x s)) \<Longrightarrow> keeps I (fold_p f xs s)"
  by (induction xs arbitrary: s) (auto intro!: keeps_return keeps_bind)

lemma keeps_each [keeps_intros]: "(\<And>x. x \<in> set xs \<Longrightarrow> keeps I (f x)) \<Longrightarrow> keeps I (each_p f xs)"
  unfolding each_p_def by (rule keeps_fold)

lemma keeps_if [keeps_intros]: "(c \<Longrightarrow> keeps I m) \<Longrightarrow> (\<not> c \<Longrightarrow> keeps I m') \<Longrightarrow> keeps I (if c then m else m')"
  by simp

lemma keeps_option [keeps_intros]:
  "(x = None \<Longrightarrow> keeps I m) \<Longrightarrow> (\<And>a. x = Some a \<Longrightarrow> keeps I (f a)) \<Longrightarrow> keeps I (case x of None \<Rightarrow> m | Some a \<Rightarrow> f a)"
  by (cases x) simp_all

lemma keeps_prod [keeps_intros]: "(\<And>a c. x = (a, c) \<Longrightarrow> keeps I (f a c)) \<Longrightarrow> keeps I (case x of (a, c) \<Rightarrow> f a c)"
  by (cases x) simp

lemma keeps_let [keeps_intros]: "keeps I (f a) \<Longrightarrow> keeps I (let x = a in f x)"
  by simp

lemma holds_each:
  assumes "\<And>x b. x \<in> set xs \<Longrightarrow> I b \<Longrightarrow> holds (f x) b (\<lambda>_ b'. I b' \<and> P x)" "I b"
  shows "holds (each_p f xs) b (\<lambda>_ b'. I b' \<and> (\<forall>x\<in>set xs. P x))"
proof -
  have "holds (fold_p (\<lambda>x _. f x) xs ()) b (\<lambda>_ b'. I b' \<and> (\<forall>x\<in>set xs. P x))" using assms
  proof (induction xs arbitrary: b)
    case (Cons x xs)
    have "holds (fold_p (\<lambda>x _. f x) xs u) b (\<lambda>_ b'. I b' \<and> (\<forall>x\<in>set xs. P x))" if "I b" for b u
      using Cons that by simp
    moreover have "holds (f x) b (\<lambda>_ b'. I b' \<and> P x)" using Cons.prems by simp
    ultimately show ?case by (auto elim!: holds_mono)
  qed simp
  then show ?thesis by (simp add: each_p_def)
qed

lemma holds_conj: "holds m b P \<Longrightarrow> holds m b Q \<Longrightarrow> holds m b (\<lambda>a b'. P a b' \<and> Q a b')"
  by (auto simp: holds_def split: option.splits sum.splits)

text \<open>As a congruence rule, it lets the simplifier run a computation one step at a time.\<close>

lemma bind_o_weak: "r = r' \<Longrightarrow> bind_o r f = bind_o r' f"
  by simp

end
