(* ===== verification/TraceBudget.thy ===== *)
theory TraceBudget
  imports TraceLabels PassManager Effects
begin

text \<open>
  \<open>etas_code/src/contract/mod.rs\<close>: the limits, the errors and the budget of a trace proof. A computation
  of the proof maps the budget to a panic (\<open>None\<close>), an error, or a value and the budget left. The
  execution control is the parameter of the pass manager: its answer to the \<open>n\<close>-th checkpoint.
\<close>

record trace_proof_limits =
  max_automaton_states :: nat
  max_transitions :: nat
  max_product_states :: nat
  max_product_members :: nat
  max_steps :: nat

definition trace_proof_limits_default :: trace_proof_limits where
  "trace_proof_limits_default =
     \<lparr>max_automaton_states = 8192, max_transitions = 65536, max_product_states = 8192,
      max_product_members = 262144, max_steps = 1048576\<rparr>"

datatype trace_proof_error =
    ProofDescriptor descriptor_error
  | MissingTrace trace_info_ref
  | MissingRow effect_row_info_ref
  | InvalidOutcomeTrace
  | UninstantiatedGenericOutcome
  | ProofInterrupted interruption
  | ProofLimit string nat

record proof_budget =
  pb_limits :: trace_proof_limits
  pb_steps :: nat
  pb_next_checkpoint :: nat
  pb_control :: "(nat \<Rightarrow> interruption option) option"
  pb_checkpoints :: nat

type_synonym 'a prover = "(proof_budget, trace_proof_error, 'a) effect"

definition budget_new :: "trace_proof_limits \<Rightarrow> (nat \<Rightarrow> interruption option) option \<Rightarrow> proof_budget" where
  "budget_new limits control =
     \<lparr>pb_limits = limits, pb_steps = 0, pb_next_checkpoint = 0, pb_control = control, pb_checkpoints = 0\<rparr>"

definition checkpoint :: "unit prover" where
  "checkpoint b =
     (case pb_control b of
        None \<Rightarrow> Some (Inr ((), b))
      | Some control \<Rightarrow>
          (case control (pb_checkpoints b) of
             Some i \<Rightarrow> Some (Inl (ProofInterrupted i))
           | None \<Rightarrow> Some (Inr ((), b\<lparr>pb_checkpoints := Suc (pb_checkpoints b)\<rparr>))))"

text \<open>A result of descriptor code, under \<open>?\<close> and the conversion of its error.\<close>

definition lift_p :: "(descriptor_error + 'a) option \<Rightarrow> 'a prover" where
  "lift_p r b = map_option (map_sum ProofDescriptor (\<lambda>a. (a, b))) r"

definition charge :: "nat \<Rightarrow> unit prover" where
  "charge count =
     bind_p
       (\<lambda>b. if pb_next_checkpoint b \<le> pb_steps b
            then bind_p checkpoint (\<lambda>_ b. return_p () (b\<lparr>pb_next_checkpoint := saturating_add (pb_steps b) 256\<rparr>)) b
            else return_p () b)
       (\<lambda>_ b. if max_steps (pb_limits b) - pb_steps b < count
              then fail_p (ProofLimit ''proof steps'' (max_steps (pb_limits b))) b
              else return_p () (b\<lparr>pb_steps := pb_steps b + count\<rparr>))"

section \<open>Steps spent\<close>

text \<open>
  \<open>spends k m\<close>: when \<open>m\<close> succeeds it has charged at least \<open>k\<close> steps, and never more than the limit. This
  is what makes the loops end.
\<close>

definition spends :: "nat \<Rightarrow> 'a prover \<Rightarrow> bool" where
  "spends k m \<longleftrightarrow>
     (\<forall>b a b'. m b = Some (Inr (a, b')) \<longrightarrow>
        pb_limits b' = pb_limits b \<and> pb_steps b + k \<le> pb_steps b' \<and>
        (pb_steps b' = pb_steps b \<or> pb_steps b' \<le> max_steps (pb_limits b)))"

named_theorems spends_intros \<open>rules for the steps that a computation spends\<close>

lemma spendsD:
  assumes "spends k m" "m b = Some (Inr (a, b'))"
  shows "pb_limits b' = pb_limits b" "pb_steps b + k \<le> pb_steps b'"
    "pb_steps b' = pb_steps b \<or> pb_steps b' \<le> max_steps (pb_limits b)"
  using assms by (auto simp: spends_def)

lemma spends_mono: "spends k m \<Longrightarrow> j \<le> k \<Longrightarrow> spends j m"
  unfolding spends_def by (meson add_left_mono le_trans)

lemma spends_bind:
  assumes "spends j m" "\<And>a. spends k (f a)"
  shows "spends (j + k) (bind_p m f)"
  unfolding spends_def
proof (intro allI impI)
  fix b a b' assume "bind_p m f b = Some (Inr (a, b'))"
  then obtain x b1 where 1: "m b = Some (Inr (x, b1))" and 2: "f x b1 = Some (Inr (a, b'))"
    by (auto simp: bind_p_def bind_o_Inr_iff)
  from spendsD [OF assms(1) 1] spendsD [OF assms(2) 2]
  show "pb_limits b' = pb_limits b \<and> pb_steps b + (j + k) \<le> pb_steps b' \<and>
      (pb_steps b' = pb_steps b \<or> pb_steps b' \<le> max_steps (pb_limits b))"
    by auto
qed

lemma spends_bind0 [spends_intros]: "spends 0 m \<Longrightarrow> (\<And>a. spends 0 (f a)) \<Longrightarrow> spends 0 (bind_p m f)"
  using spends_bind [of 0 m 0 f] by simp

lemma spends_bind1: "spends 1 m \<Longrightarrow> (\<And>a. spends 0 (f a)) \<Longrightarrow> spends 1 (bind_p m f)"
  using spends_bind [of 1 m 0 f] by simp

lemma spends_return [spends_intros]: "spends 0 (return_p a)"
  by (simp add: spends_def return_p_def)

lemma spends_fail [spends_intros]: "spends k (fail_p e)"
  by (simp add: spends_def fail_p_def)

lemma spends_panic [spends_intros]: "spends k panic_p"
  by (simp add: spends_def panic_p_def)

lemma spends_lift [spends_intros]: "spends 0 (lift_p r)"
proof (cases r)
  case (Some x)
  then show ?thesis by (cases x) (auto simp: spends_def lift_p_def)
qed (simp add: spends_def lift_p_def)

lemma spends_charge: "spends k (charge k)"
proof -
  have "pb_limits b' = pb_limits b \<and> pb_steps b' = pb_steps b" if "checkpoint b = Some (Inr (u, b'))" for b u b'
    using that by (auto simp: checkpoint_def split: option.splits)
  then show ?thesis
    by (fastforce simp: spends_def charge_def bind_p_def bind_o_Inr_iff return_p_def fail_p_def split: if_splits)
qed

lemma spends_charge0 [spends_intros]: "spends 0 (charge k)"
  using spends_charge by (rule spends_mono) simp

lemma spends_fold [spends_intros]: "(\<And>x s. spends 0 (f x s)) \<Longrightarrow> spends 0 (fold_p f xs s)"
  by (induction xs arbitrary: s) (auto intro: spends_intros)

lemma spends_if [spends_intros]: "(c \<Longrightarrow> spends k m) \<Longrightarrow> (\<not> c \<Longrightarrow> spends k m') \<Longrightarrow> spends k (if c then m else m')"
  by simp

lemma spends_option [spends_intros]:
  "(x = None \<Longrightarrow> spends k m) \<Longrightarrow> (\<And>a. x = Some a \<Longrightarrow> spends k (f a)) \<Longrightarrow>
   spends k (case x of None \<Rightarrow> m | Some a \<Rightarrow> f a)"
  by (cases x) simp_all

lemma spends_prod [spends_intros]: "(\<And>a c. x = (a, c) \<Longrightarrow> spends k (f a c)) \<Longrightarrow> spends k (case x of (a, c) \<Rightarrow> f a c)"
  by (cases x) simp

lemma spends_let [spends_intros]: "spends k (f a) \<Longrightarrow> spends k (let x = a in f x)"
  by simp

section \<open>Total correctness\<close>

lemma holds_lift [simp]: "holds (lift_p r) b Q \<longleftrightarrow> r \<noteq> None \<and> (\<forall>a. r = Some (Inr a) \<longrightarrow> Q a b)"
proof (cases r)
  case (Some x)
  then show ?thesis by (cases x) (auto simp: holds_def lift_p_def)
qed (simp add: holds_def lift_p_def)

lemma holds_checkpoint: "(\<And>b'. Q () b') \<Longrightarrow> holds checkpoint b Q"
  by (auto simp: holds_def checkpoint_def split: option.splits)

lemma holds_charge: "(\<And>b'. Q () b') \<Longrightarrow> holds (charge k) b Q"
  by (auto simp: charge_def holds_def bind_p_def bind_o_def return_p_def fail_p_def checkpoint_def
      split: option.splits sum.splits if_splits)

end
