(* ===== verification/TraceNfa.thy ===== *)
theory TraceNfa
  imports TraceBudget
begin

text \<open>
  \<open>etas_code/src/contract/nfa.rs\<close>: the automaton of a trace descriptor. A state is an index into the
  vector of the outgoing edges; an edge without a label is silent. The label cache, a \<open>BTreeMap\<close> that is
  only read and written by key, is a map; a \<open>BTreeSet<usize>\<close> is the ascending list of its elements; a
  \<open>Vec\<close> used as a stack has its top at the head of the list.
\<close>

section \<open>Automata\<close>

record compiled_label =
  co_value :: trace_label
  co_comparison_work :: nat

definition compiled_label_new :: "trace_label \<Rightarrow> compiled_label" where
  "compiled_label_new label = \<lparr>co_value = label, co_comparison_work = comparison_work label\<rparr>"

record nfa_edge =
  ed_label :: "compiled_label option"
  ed_to :: nat
  ed_source :: trace_info_ref

datatype label_source =
    SourceTrace trace_info_ref
  | SourceRow effect_row_info_ref nat
  | SourceParameter trace_info_ref nat

record nfa =
  nf_edges :: "nfa_edge list list"
  nf_start :: nat
  nf_end :: nat
  nf_transitions :: nat
  nf_labels :: "label_source \<rightharpoonup> compiled_label"

type_synonym work_item = "trace_info_ref \<times> nat \<times> nat"

definition limits_p :: "trace_proof_limits prover" where
  "limits_p b = Some (Inr (pb_limits b, b))"

definition nfa_state :: "nfa \<Rightarrow> (nat \<times> nfa) prover" where
  "nfa_state n =
     bind_p (charge 1) (\<lambda>_.
     bind_p limits_p (\<lambda>limits.
       if max_automaton_states limits \<le> length (nf_edges n)
       then fail_p (ProofLimit ''automaton states'' (max_automaton_states limits))
       else return_p (length (nf_edges n), n\<lparr>nf_edges := nf_edges n @ [[]]\<rparr>)))"

definition nfa_add_edge :: "nat \<Rightarrow> nat \<Rightarrow> compiled_label option \<Rightarrow> trace_info_ref \<Rightarrow> nfa \<Rightarrow> nfa prover" where
  "nfa_add_edge start to label source n =
     bind_p (charge 1) (\<lambda>_.
     bind_p limits_p (\<lambda>limits.
       if max_transitions limits \<le> nf_transitions n
       then fail_p (ProofLimit ''automaton transitions'' (max_transitions limits))
       else if start < length (nf_edges n)
       then return_p
         (n\<lparr>nf_transitions := Suc (nf_transitions n),
            nf_edges := (nf_edges n)[start := nf_edges n ! start @ [\<lparr>ed_label = label, ed_to = to, ed_source = source\<rparr>]]\<rparr>)
       else panic_p))"

definition edges_at :: "nfa \<Rightarrow> nat \<Rightarrow> nfa_edge list prover" where
  "edges_at n state = (if state < length (nf_edges n) then return_p (nf_edges n ! state) else panic_p)"

section \<open>Labels and what computing them is charged\<close>

definition charge_graph :: "descriptor_graph \<Rightarrow> unit prover" where
  "charge_graph g =
     charge (saturating_add (saturating_add (saturating_add (length (dg_types g)) (length (dg_rows g)))
       (length (dg_binders g))) (length (dg_traces g)))"

definition charge_argument :: "descriptor_graph \<Rightarrow> static_effect_arg_info \<Rightarrow> unit \<Rightarrow> unit prover" where
  "charge_argument g argument _ =
     (case argument of
        ArgType _ \<Rightarrow> charge_graph g
      | ArgResource key \<Rightarrow> charge (key_work key)
      | ArgCallable c \<Rightarrow> charge (callable_work c)
      | ArgString value \<Rightarrow> charge (length value)
      | ArgInteger value \<Rightarrow> charge (length value)
      | ArgWildcard \<Rightarrow> return_p ())"

definition charge_effect :: "descriptor_graph \<Rightarrow> effect_info \<Rightarrow> unit prover" where
  "charge_effect g effect =
     bind_p (charge (target_work (ef_target effect))) (\<lambda>_.
     bind_p (charge (saturating_add (length (ef_arguments effect)) 1)) (\<lambda>_.
       fold_p (charge_argument g) (ef_arguments effect) ()))"

definition charge_arm :: "descriptor_graph \<Rightarrow> parameter_handler_arm_info \<Rightarrow> unit \<Rightarrow> unit prover" where
  "charge_arm g arm _ =
     bind_p (charge_graph g) (\<lambda>_. bind_p (charge_graph g) (\<lambda>_. charge_effect g (ha_action arm)))"

definition charge_handler :: "descriptor_graph \<Rightarrow> parameter_handler_scope_info \<Rightarrow> unit \<Rightarrow> unit prover" where
  "charge_handler g handler _ =
     (case handler of ScopeHandle arms \<Rightarrow>
        bind_p (charge (saturating_add (length arms) 1)) (\<lambda>_. fold_p (charge_arm g) arms ()))"

definition charge_call :: "descriptor_graph \<Rightarrow> parameter_call_info \<Rightarrow> unit prover" where
  "charge_call g call =
     bind_p (charge (callable_work (pc_callable call))) (\<lambda>_.
     bind_p (charge_graph g) (\<lambda>_.
     bind_p (charge (case pc_arguments call of None \<Rightarrow> 0 | Some arguments \<Rightarrow> length arguments)) (\<lambda>_.
       fold_p (charge_handler g) (case pc_handlers call of None \<Rightarrow> [] | Some handlers \<Rightarrow> handlers) ())))"

definition insert_label :: "label_source \<Rightarrow> trace_label \<Rightarrow> nfa \<Rightarrow> compiled_label \<times> nfa" where
  "insert_label source label n =
     (let compiled = compiled_label_new label in (compiled, n\<lparr>nf_labels := (nf_labels n)(source \<mapsto> compiled)\<rparr>))"

definition action_label ::
  "hasher \<Rightarrow> descriptor_graph \<Rightarrow> label_source \<Rightarrow> effect_info \<Rightarrow> nfa \<Rightarrow> (compiled_label \<times> nfa) prover" where
  "action_label h g source effect n =
     bind_p (charge 1) (\<lambda>_.
       case nf_labels n source of
         Some label \<Rightarrow> return_p (label, n)
       | None \<Rightarrow>
           bind_p (charge_effect g effect) (\<lambda>_.
           bind_p (lift_p (canonical_effect_of h g effect)) (\<lambda>e.
             return_p (insert_label source (LabelAction e) n))))"

definition nfa_call_label ::
  "hasher \<Rightarrow> descriptor_graph \<Rightarrow> label_source \<Rightarrow> parameter_call_info \<Rightarrow> nfa \<Rightarrow> (compiled_label \<times> nfa) prover" where
  "nfa_call_label h g source call n =
     bind_p (charge 1) (\<lambda>_.
       case nf_labels n source of
         Some label \<Rightarrow> return_p (label, n)
       | None \<Rightarrow>
           bind_p (charge_call g call) (\<lambda>_.
           bind_p (lift_p (parameter_call_label h g call)) (\<lambda>c.
             return_p (insert_label source (LabelParameterCall c) n))))"

definition charge_outcome :: "descriptor_graph \<Rightarrow> callable_outcome_info \<Rightarrow> unit prover" where
  "charge_outcome g outcome =
     (case outcome of
        OutcomeParameterNonReturn call \<Rightarrow> charge_call g call
      | _ \<Rightarrow>
          bind_p (charge_graph g) (\<lambda>_.
            case outcome of
              OutcomeReturned _ (ObservedVariant owner name) \<Rightarrow> charge (saturating_add (key_work owner) (length name))
            | _ \<Rightarrow> return_p ()))"

fun is_template :: "callable_outcome_info \<Rightarrow> bool" where
  "is_template (OutcomeParameterNonReturnTemplate _) = True"
| "is_template _ = False"

definition outcome_entry ::
  "hasher \<Rightarrow> descriptor_graph \<Rightarrow> trace_info_ref \<Rightarrow> callable_outcome_info \<Rightarrow> nfa \<Rightarrow> (compiled_label \<times> nfa) prover" where
  "outcome_entry h g source outcome n =
     (if is_template outcome then fail_p UninstantiatedGenericOutcome
      else
        case nf_labels n (SourceTrace source) of
          Some label \<Rightarrow> return_p (label, n)
        | None \<Rightarrow>
            bind_p (charge_outcome g outcome) (\<lambda>_.
            bind_p (lift_p (outcome_label h g outcome)) (\<lambda>label.
              return_p (insert_label (SourceTrace source) label n))))"

section \<open>Building the automaton\<close>

fun seq_parts :: "trace_info_ref list \<Rightarrow> nat \<Rightarrow> nat \<Rightarrow> nfa \<Rightarrow> work_item list \<Rightarrow> (nfa \<times> work_item list) prover" where
  "seq_parts [] previous final n work = return_p (n, work)"
| "seq_parts [part] previous final n work = return_p (n, (part, previous, final) # work)"
| "seq_parts (part # parts) previous final n work =
     bind_p (nfa_state n) (\<lambda>(middle, n). seq_parts parts middle final n ((part, previous, middle) # work))"

definition labelled_edge :: "nat \<Rightarrow> nat \<Rightarrow> trace_info_ref \<Rightarrow> compiled_label \<times> nfa \<Rightarrow> nfa prover" where
  "labelled_edge start to source = (\<lambda>(label, n). nfa_add_edge start to (Some label) source n)"

definition row_loops ::
  "hasher \<Rightarrow> descriptor_graph \<Rightarrow> effect_row_info_ref \<Rightarrow> effect_info list \<Rightarrow> trace_info_ref \<Rightarrow> nat \<Rightarrow> nfa \<Rightarrow> nfa prover" where
  "row_loops h g actions effects source start n =
     fold_p (\<lambda>(index, event) n.
         bind_p (action_label h g (SourceRow actions index) event n) (labelled_edge start start source))
       (enumerate 0 effects) n"

definition call_loops ::
  "hasher \<Rightarrow> descriptor_graph \<Rightarrow> parameter_call_info list \<Rightarrow> trace_info_ref \<Rightarrow> nat \<Rightarrow> nfa \<Rightarrow> nfa prover" where
  "call_loops h g calls source start n =
     fold_p (\<lambda>(index, call) n.
         bind_p (nfa_call_label h g (SourceParameter source index) call n) (labelled_edge start start source))
       (enumerate 0 calls) n"

definition footprint ::
  "hasher \<Rightarrow> descriptor_graph \<Rightarrow> effect_row_info_ref \<Rightarrow> parameter_call_info list \<Rightarrow> trace_info_ref \<Rightarrow> nat \<Rightarrow> nat \<Rightarrow> nfa \<Rightarrow>
   nfa prover" where
  "footprint h g actions calls source start final n =
     (case graph_effect_row g actions of
        None \<Rightarrow> fail_p (MissingRow actions)
      | Some row \<Rightarrow>
          bind_p (row_loops h g actions (er_effects row) source start n) (\<lambda>n.
          bind_p (call_loops h g calls source start n) (nfa_add_edge start final None source)))"

definition repeat_states :: "trace_info_ref \<Rightarrow> nat \<Rightarrow> nat \<Rightarrow> nfa \<Rightarrow> (nat \<times> nat \<times> nfa) prover" where
  "repeat_states source start final n =
     bind_p (nfa_state n) (\<lambda>(inner_start, n).
     bind_p (nfa_state n) (\<lambda>(inner_end, n).
     bind_p (nfa_add_edge start final None source n) (\<lambda>n.
     bind_p (nfa_add_edge start inner_start None source n) (\<lambda>n.
     bind_p (nfa_add_edge inner_end inner_start None source n) (\<lambda>n.
     bind_p (nfa_add_edge inner_end final None source n) (\<lambda>n.
       return_p (inner_start, inner_end, n)))))))"

definition build_node ::
  "hasher \<Rightarrow> descriptor_graph \<Rightarrow> trace_info \<Rightarrow> trace_info_ref \<Rightarrow> nat \<Rightarrow> nat \<Rightarrow> nfa \<Rightarrow> work_item list \<Rightarrow>
   (nfa \<times> work_item list) prover" where
  "build_node h g trace source start final n work =
     (case trace of
        TraceEmpty \<Rightarrow> bind_p (nfa_add_edge start final None source n) (\<lambda>n. return_p (n, work))
      | TraceOutcome outcome \<Rightarrow>
          bind_p (outcome_entry h g source outcome n) (\<lambda>entry.
          bind_p (labelled_edge start final source entry) (\<lambda>n. return_p (n, work)))
      | TraceEvent event \<Rightarrow>
          bind_p (action_label h g (SourceTrace source) event n) (\<lambda>entry.
          bind_p (labelled_edge start final source entry) (\<lambda>n. return_p (n, work)))
      | TraceParameterCall call \<Rightarrow>
          bind_p (nfa_call_label h g (SourceTrace source) call n) (\<lambda>entry.
          bind_p (labelled_edge start final source entry) (\<lambda>n. return_p (n, work)))
      | TraceSeq parts \<Rightarrow>
          bind_p (charge (length parts)) (\<lambda>_.
          bind_p (if parts = [] then nfa_add_edge start final None source n else return_p n) (\<lambda>n.
            seq_parts parts start final n work))
      | TraceChoice parts \<Rightarrow>
          bind_p (charge (length parts)) (\<lambda>_. return_p (n, rev (map (\<lambda>part. (part, start, final)) parts) @ work))
      | TraceRepeat inner \<Rightarrow>
          bind_p (repeat_states source start final n) (\<lambda>(inner_start, inner_end, n).
            return_p (n, (inner, inner_start, inner_end) # work))
      | TraceUnknownOrder actions \<Rightarrow>
          bind_p (footprint h g actions [] source start final n) (\<lambda>n. return_p (n, work))
      | TraceWidened actions calls \<Rightarrow>
          bind_p (footprint h g actions calls source start final n) (\<lambda>n. return_p (n, work)))"

definition build_step ::
  "hasher \<Rightarrow> descriptor_graph \<Rightarrow> work_item \<Rightarrow> nfa \<Rightarrow> work_item list \<Rightarrow> (nfa \<times> work_item list) prover" where
  "build_step h g item n work =
     (case item of (source, start, final) \<Rightarrow>
        bind_p (charge 1) (\<lambda>_.
          case graph_trace g source of
            None \<Rightarrow> fail_p (MissingTrace source)
          | Some trace \<Rightarrow> build_node h g trace source start final n work))"

subsection \<open>The construction ends\<close>

text \<open>Every turn of a loop charges a step, so the steps left under the limit decrease.\<close>

definition steps_left :: "proof_budget \<Rightarrow> nat" where
  "steps_left b = max_steps (pb_limits b) - pb_steps b"

lemma spends_less: "spends 1 m \<Longrightarrow> m b = Some (Inr (a, b')) \<Longrightarrow> steps_left b' < steps_left b"
  using spendsD [of 1 m b a b'] by (auto simp: steps_left_def)

lemma spends_limits [spends_intros]: "spends 0 limits_p"
  by (simp add: spends_def limits_p_def)

lemma spends_state1: "spends 1 (nfa_state n)"
  unfolding nfa_state_def by (rule spends_bind1 [OF spends_charge]) (intro spends_intros)

lemma spends_state [spends_intros]: "spends 0 (nfa_state n)"
  using spends_state1 by (rule spends_mono) simp

lemma spends_add_edge [spends_intros]: "spends 0 (nfa_add_edge start to label source n)"
  unfolding nfa_add_edge_def by (intro spends_intros)

lemma spends_edges_at [spends_intros]: "spends 0 (edges_at n state)"
  unfolding edges_at_def by (intro spends_intros)

lemma spends_labelled_edge [spends_intros]: "spends 0 (labelled_edge start to source entry)"
  unfolding labelled_edge_def by (intro spends_intros)

lemma spends_charge_graph [spends_intros]: "spends 0 (charge_graph g)"
  unfolding charge_graph_def by (intro spends_intros)

lemma spends_charge_argument [spends_intros]: "spends 0 (charge_argument g argument u)"
  unfolding charge_argument_def by (cases argument) (auto intro: spends_intros)

lemma spends_charge_effect [spends_intros]: "spends 0 (charge_effect g effect)"
  unfolding charge_effect_def by (intro spends_intros)

lemma spends_charge_arm [spends_intros]: "spends 0 (charge_arm g arm u)"
  unfolding charge_arm_def by (intro spends_intros)

lemma spends_charge_handler [spends_intros]: "spends 0 (charge_handler g handler u)"
  unfolding charge_handler_def by (cases handler) (auto intro: spends_intros)

lemma spends_charge_call [spends_intros]: "spends 0 (charge_call g call)"
  unfolding charge_call_def by (intro spends_intros)

lemma spends_action_label [spends_intros]: "spends 0 (action_label h g source effect n)"
  unfolding action_label_def by (intro spends_intros)

lemma spends_call_label [spends_intros]: "spends 0 (nfa_call_label h g source call n)"
  unfolding nfa_call_label_def by (intro spends_intros)

lemma spends_outcome [spends_intros]: "spends 0 (charge_outcome g outcome)"
  unfolding charge_outcome_def
  by (auto intro: spends_intros split: callable_outcome_info.split return_observation_info.split)

lemma spends_outcome_entry [spends_intros]: "spends 0 (outcome_entry h g source outcome n)"
  unfolding outcome_entry_def by (intro spends_intros)

lemma spends_seq_parts [spends_intros]: "spends 0 (seq_parts parts previous final n work)"
  by (induction parts previous final n work rule: seq_parts.induct) (auto intro: spends_intros)

lemma spends_footprint [spends_intros]: "spends 0 (footprint h g actions calls source start final n)"
proof -
  have "spends 0 (row_loops h g actions effects source start n)" for effects n
    unfolding row_loops_def by (rule spends_fold) (auto intro: spends_intros split: prod.split)
  moreover have "spends 0 (call_loops h g calls source start n)" for n
    unfolding call_loops_def by (rule spends_fold) (auto intro: spends_intros split: prod.split)
  ultimately show ?thesis unfolding footprint_def by (intro spends_intros)
qed

lemma spends_repeat [spends_intros]: "spends 0 (repeat_states source start final n)"
  unfolding repeat_states_def by (intro spends_intros)

lemma spends_build_node [spends_intros]: "spends 0 (build_node h g trace source start final n work)"
  unfolding build_node_def by (cases trace) (auto intro: spends_intros)

lemma spends_build_step: "spends 1 (build_step h g item n work)"
  unfolding build_step_def
  by (cases item, simp only: prod.case, rule spends_bind1 [OF spends_charge], intro spends_intros)

function build_loop :: "hasher \<Rightarrow> descriptor_graph \<Rightarrow> nfa \<Rightarrow> work_item list \<Rightarrow> nfa prover" where
  "build_loop h g n work b =
     (case work of
        [] \<Rightarrow> return_p n b
      | item # work' \<Rightarrow> 
          bind_o (build_step h g item n work' b) (\<lambda>(next_state, b'). build_loop h g (fst next_state) (snd next_state) b'))"
  by pat_completeness auto

termination
  by (relation "measure (\<lambda>(h, g, n, work, b). steps_left b)")
    (auto intro: spends_less [OF spends_build_step])

declare build_loop.simps [simp del]

definition nfa_empty :: nfa where
  "nfa_empty = \<lparr>nf_edges = [], nf_start = 0, nf_end = 0, nf_transitions = 0, nf_labels = Map.empty\<rparr>"

definition nfa_build :: "hasher \<Rightarrow> descriptor_graph \<Rightarrow> trace_info_ref \<Rightarrow> nfa prover" where
  "nfa_build h g root =
     bind_p (nfa_state nfa_empty) (\<lambda>(start, n).
     bind_p (nfa_state (n\<lparr>nf_start := start\<rparr>)) (\<lambda>(final, n).
       build_loop h g (n\<lparr>nf_end := final\<rparr>) [(root, start, final)]))"

section \<open>Silent closure\<close>

definition closure_edge :: "nfa_edge \<Rightarrow> nat list \<Rightarrow> nat list prover" where
  "closure_edge edge pending =
     bind_p (charge 1) (\<lambda>_. return_p (if ed_label edge = None then ed_to edge # pending else pending))"

definition closure_step :: "nfa \<Rightarrow> nat \<Rightarrow> nat list \<Rightarrow> nat list \<Rightarrow> (nat list \<times> nat list) prover" where
  "closure_step n state visited pending =
     bind_p (charge 1) (\<lambda>_.
       if state \<in> set visited then return_p (visited, pending)
       else
         bind_p (edges_at n state) (\<lambda>edges.
         bind_p (fold_p closure_edge edges pending) (\<lambda>pending.
           return_p (insort_insert state visited, pending))))"

lemma spends_closure_edge [spends_intros]: "spends 0 (closure_edge edge pending)"
  unfolding closure_edge_def by (intro spends_intros)

lemma spends_closure_step: "spends 1 (closure_step n state visited pending)"
  unfolding closure_step_def by (rule spends_bind1 [OF spends_charge]) (intro spends_intros)

function closure_loop :: "nfa \<Rightarrow> nat list \<Rightarrow> nat list \<Rightarrow> nat list prover" where
  "closure_loop n visited pending b =
     (case pending of
        [] \<Rightarrow> return_p visited b
      | state # pending' \<Rightarrow>
          bind_o (closure_step n state visited pending' b)
            (\<lambda>(next_state, b'). closure_loop n (fst next_state) (snd next_state) b'))"
  by pat_completeness auto

termination
  by (relation "measure (\<lambda>(n, visited, pending, b). steps_left b)")
    (auto intro: spends_less [OF spends_closure_step])

declare closure_loop.simps [simp del]

definition nfa_closure :: "nfa \<Rightarrow> nat list \<Rightarrow> nat list prover" where
  "nfa_closure n states = closure_loop n [] (rev states)"

lemma spends_closure_loop: "spends 0 (closure_loop n visited pending)"
proof -
  have "pb_limits b' = pb_limits b \<and> pb_steps b \<le> pb_steps b' \<and>
      (pb_steps b' = pb_steps b \<or> pb_steps b' \<le> max_steps (pb_limits b))"
    if "closure_loop n visited pending b = Some (Inr (a, b'))" for b a b'
    using that
  proof (induction n visited pending b rule: closure_loop.induct)
    case (1 n visited pending b)
    show ?case
    proof (cases pending)
      case Nil
      with 1(2) show ?thesis by (simp add: closure_loop.simps return_p_def)
    next
      case (Cons state pending')
      with 1(2) obtain s b1 where step: "closure_step n state visited pending' b = Some (Inr (s, b1))"
        and rest: "closure_loop n (fst s) (snd s) b1 = Some (Inr (a, b'))"
        by (auto simp: closure_loop.simps [of n visited "state # pending'"] bind_o_Inr_iff)
      from 1(1) [OF Cons step _ rest] spendsD [OF spends_closure_step step] show ?thesis by auto
    qed
  qed
  then show ?thesis by (auto simp: spends_def)
qed

lemma spends_closure [spends_intros]: "spends 0 (nfa_closure n states)"
  unfolding nfa_closure_def by (rule spends_closure_loop)

section \<open>Exits of parameter calls\<close>

type_synonym exit = "nat \<times> trace_info_ref \<times> compiled_label"

definition prefix_exit :: "nat \<Rightarrow> nfa_edge \<Rightarrow> exit list \<Rightarrow> exit list prover" where
  "prefix_exit start edge exits =
     bind_p (charge 1) (\<lambda>_.
       case ed_label edge of
         None \<Rightarrow> return_p exits
       | Some label \<Rightarrow>
           (case co_value label of
              LabelParameterCall call \<Rightarrow>
                bind_p (charge (co_comparison_work label)) (\<lambda>_.
                  return_p (exits @ [(start, ed_source edge, compiled_label_new (LabelParameterNonReturn call))]))
            | LabelAction _ \<Rightarrow> return_p exits
            | _ \<Rightarrow> fail_p InvalidOutcomeTrace))"

definition add_exits :: "nat \<Rightarrow> exit list \<Rightarrow> nfa \<Rightarrow> nfa prover" where
  "add_exits final exits n =
     fold_p (\<lambda>exit n. case exit of (start, source, label) \<Rightarrow> nfa_add_edge start final (Some label) source n) exits n"

definition incoming_edge :: "nat \<Rightarrow> nfa_edge \<Rightarrow> nat list list \<Rightarrow> nat list list prover" where
  "incoming_edge start edge incoming =
     bind_p (charge 1) (\<lambda>_.
       if ed_to edge < length incoming
       then return_p (incoming[ed_to edge := incoming ! ed_to edge @ [start]])
       else panic_p)"

definition for_edges :: "(nat \<Rightarrow> nfa_edge \<Rightarrow> 's \<Rightarrow> 's prover) \<Rightarrow> nfa \<Rightarrow> 's \<Rightarrow> 's prover" where
  "for_edges f n s = fold_p (\<lambda>entry s. case entry of (start, edges) \<Rightarrow> fold_p (f start) edges s) (enumerate 0 (nf_edges n)) s"

definition live_step :: "nat list list \<Rightarrow> nat \<Rightarrow> bool list \<Rightarrow> nat list \<Rightarrow> (bool list \<times> nat list) prover" where
  "live_step incoming state live pending =
     bind_p (charge 1) (\<lambda>_.
       if state < length live \<and> state < length incoming
       then if live ! state then return_p (live, pending)
            else return_p (live[state := True], rev (incoming ! state) @ pending)
       else panic_p)"

lemma spends_live_step: "spends 1 (live_step incoming state live pending)"
  unfolding live_step_def by (rule spends_bind1 [OF spends_charge]) (intro spends_intros)

function live_loop :: "nat list list \<Rightarrow> bool list \<Rightarrow> nat list \<Rightarrow> bool list prover" where
  "live_loop incoming live pending b =
     (case pending of
        [] \<Rightarrow> return_p live b
      | state # pending' \<Rightarrow>
          bind_o (live_step incoming state live pending' b)
            (\<lambda>(next_state, b'). live_loop incoming (fst next_state) (snd next_state) b'))"
  by pat_completeness auto

termination
  by (relation "measure (\<lambda>(incoming, live, pending, b). steps_left b)")
    (auto intro: spends_less [OF spends_live_step])

declare live_loop.simps [simp del]

definition retain_live :: "bool list \<Rightarrow> nfa \<Rightarrow> nfa prover" where
  "retain_live live n =
     (if list_all (list_all (\<lambda>edge. ed_to edge < length live)) (nf_edges n)
      then return_p (n\<lparr>nf_edges := map (filter (\<lambda>edge. live ! ed_to edge)) (nf_edges n)\<rparr>)
      else panic_p)"

definition prune_nonterminating :: "nfa \<Rightarrow> nfa prover" where
  "prune_nonterminating n =
     bind_p (for_edges incoming_edge n (replicate (length (nf_edges n)) [])) (\<lambda>incoming.
     bind_p (live_loop incoming (replicate (length (nf_edges n)) False) [nf_end n]) (\<lambda>live.
       retain_live live n))"

definition parameter_exit_prefixes :: "nfa \<Rightarrow> nfa prover" where
  "parameter_exit_prefixes n =
     bind_p (for_edges prefix_exit n []) (\<lambda>exits.
     bind_p (nfa_state n) (\<lambda>(final, n).
     bind_p (add_exits final exits (n\<lparr>nf_end := final\<rparr>)) prune_nonterminating))"

fun is_parameter_exit :: "trace_label \<Rightarrow> bool" where
  "is_parameter_exit (LabelParameterNonReturn _) = True"
| "is_parameter_exit _ = False"

fun is_outcome :: "trace_label \<Rightarrow> bool" where
  "is_outcome (LabelReturned _ _) = True"
| "is_outcome (LabelRaised _) = True"
| "is_outcome LabelNonReturn = True"
| "is_outcome (LabelParameterNonReturn _) = True"
| "is_outcome _ = False"

definition outcome_exit :: "nfa \<Rightarrow> nat \<Rightarrow> nfa_edge \<Rightarrow> exit list \<Rightarrow> exit list prover" where
  "outcome_exit n start edge exits =
     bind_p (charge 1) (\<lambda>_.
       case ed_label edge of
         None \<Rightarrow> return_p exits
       | Some label \<Rightarrow>
           if is_parameter_exit (co_value label)
           then bind_p (nfa_closure n [ed_to edge]) (\<lambda>reached.
             if nf_end n \<notin> set reached then fail_p InvalidOutcomeTrace
             else return_p (exits @ [(start, ed_source edge, label)]))
           else return_p exits)"

definition drop_outcomes :: "nfa \<Rightarrow> nfa" where
  "drop_outcomes n =
     n\<lparr>nf_edges := map (filter (\<lambda>edge. \<not> (case ed_label edge of None \<Rightarrow> False | Some label \<Rightarrow> is_outcome (co_value label))))
       (nf_edges n)\<rparr>"

definition parameter_exit_outcomes :: "nfa \<Rightarrow> nfa prover" where
  "parameter_exit_outcomes n =
     bind_p (for_edges (outcome_exit n) n []) (\<lambda>exits.
     bind_p (nfa_state (drop_outcomes n)) (\<lambda>(final, n).
     bind_p (add_exits final exits (n\<lparr>nf_end := final\<rparr>)) prune_nonterminating))"

end
