(* ===== verification/TraceRuns.thy ===== *)
theory TraceRuns
  imports TraceNfa
begin

text \<open>
  What the automata of \<open>TraceNfa\<close> mean: their runs and the words they accept, that the closure is
  reachability by silent edges, and what the operations on an automaton return. The rules with suffix
  \<open>_holds\<close> are total: the operation does not panic.
\<close>

section \<open>Runs\<close>

lemma holds_limits: "holds limits_p b Q \<longleftrightarrow> Q (pb_limits b) b"
  by (simp add: holds_def limits_p_def)

definition nfa_edge_at :: "nfa \<Rightarrow> nat \<Rightarrow> nfa_edge \<Rightarrow> bool" where
  "nfa_edge_at n s e \<longleftrightarrow> s < length (nf_edges n) \<and> e \<in> set (nf_edges n ! s)"

definition edge_word :: "nfa_edge \<Rightarrow> trace_label list" where
  "edge_word e = (case ed_label e of None \<Rightarrow> [] | Some label \<Rightarrow> [co_value label])"

inductive run :: "nfa \<Rightarrow> nat \<Rightarrow> trace_label list \<Rightarrow> nat \<Rightarrow> bool" for n where
  run_refl: "run n s [] s"
| run_step: "nfa_edge_at n s e \<Longrightarrow> run n (ed_to e) w t \<Longrightarrow> run n s (edge_word e @ w) t"

definition accepts :: "nfa \<Rightarrow> trace_label list \<Rightarrow> bool" where
  "accepts n w \<longleftrightarrow> run n (nf_start n) w (nf_end n)"

definition nfa_wf :: "nfa \<Rightarrow> bool" where
  "nfa_wf n \<longleftrightarrow>
     nf_start n < length (nf_edges n) \<and> nf_end n < length (nf_edges n) \<and>
     (\<forall>s e. nfa_edge_at n s e \<longrightarrow> ed_to e < length (nf_edges n))"

lemma run_append: "run n s v t \<Longrightarrow> run n t w u \<Longrightarrow> run n s (v @ w) u"
  by (induction rule: run.induct) (auto intro: run.intros)

lemma run_edge: "nfa_edge_at n s e \<Longrightarrow> run n s (edge_word e) (ed_to e)"
  using run_step [OF _ run_refl] by auto

lemma run_snoc: "run n s w t \<Longrightarrow> nfa_edge_at n t e \<Longrightarrow> run n s (w @ edge_word e) (ed_to e)"
  by (blast intro: run_append run_edge)

lemma run_wf: "run n s w t \<Longrightarrow> nfa_wf n \<Longrightarrow> s < length (nf_edges n) \<Longrightarrow> t < length (nf_edges n)"
  by (induction rule: run.induct) (auto simp: nfa_wf_def)

text \<open>Induction from the start: the last edge of a run.\<close>

lemma run_rev_induct [consumes 1, case_names refl snoc]:
  assumes "run n s w t" "P [] s"
    and snoc: "\<And>w t e. run n s w t \<Longrightarrow> P w t \<Longrightarrow> nfa_edge_at n t e \<Longrightarrow> P (w @ edge_word e) (ed_to e)"
  shows "P w t"
proof -
  have "P (v @ w) t" if "run n u w t" "run n s v u" "P v u" for u v w
    using that
  proof (induction arbitrary: v rule: run.induct)
    case (run_step u e w t)
    from snoc [OF run_step.prems run_step.hyps(1)] run_snoc [OF run_step.prems(1) run_step.hyps(1)]
    have "P ((v @ edge_word e) @ w) t" by (intro run_step.IH)
    then show ?case by simp
  qed simp
  from this [OF assms(1) run_refl assms(2)] show ?thesis by simp
qed

section \<open>Silent closure\<close>

definition silent :: "nfa \<Rightarrow> (nat \<times> nat) set" where
  "silent n = {(s, ed_to e) | s e. nfa_edge_at n s e \<and> ed_label e = None}"

lemma silent_run: "(s, t) \<in> (silent n)\<^sup>* \<Longrightarrow> run n s [] t"
proof (induction rule: rtrancl_induct)
  case (step t u)
  then obtain e where "nfa_edge_at n t e" "ed_label e = None" "u = ed_to e" by (auto simp: silent_def)
  with run_snoc [OF step.IH, of e] show ?case by (simp add: edge_word_def)
qed (rule run_refl)

lemma silent_iff_run: "(s, t) \<in> (silent n)\<^sup>* \<longleftrightarrow> run n s [] t"
proof
  have "w = [] \<longrightarrow> (s, t) \<in> (silent n)\<^sup>*" if "run n s w t" for s w t
    using that
  proof (induction rule: run.induct)
    case (run_step s e w t)
    show ?case
    proof
      assume "edge_word e @ w = []"
      with run_step.hyps(1) have "(s, ed_to e) \<in> silent n" "w = []"
        by (auto simp: silent_def edge_word_def split: option.splits)
      with run_step.IH show "(s, t) \<in> (silent n)\<^sup>*" by (auto intro: converse_rtrancl_into_rtrancl)
    qed
  qed simp
  then show "run n s [] t \<Longrightarrow> (s, t) \<in> (silent n)\<^sup>*" by blast
qed (rule silent_run)

lemma edges_at_holds: "state < length (nf_edges n) \<Longrightarrow> Q (nf_edges n ! state) b \<Longrightarrow> holds (edges_at n state) b Q"
  by (simp add: edges_at_def)

lemma closure_edges_holds:
  "holds (fold_p closure_edge edges pending) b
     (\<lambda>pending' b'. set pending' = set pending \<union> {ed_to e | e. e \<in> set edges \<and> ed_label e = None})"
proof -
  have "holds (fold_p closure_edge edges pending) b
     (\<lambda>pending' b'. set pending' = set pending \<union> {ed_to e | e. e \<in> set edges \<and> ed_label e = None})"
    by (rule holds_fold [where I = "\<lambda>es pending'. set pending' = set pending \<union> {ed_to e | e. e \<in> set es \<and> ed_label e = None}"])
      (auto simp: closure_edge_def intro!: holds_charge)
  then show ?thesis .
qed

text \<open>
  The invariant of the closure: silent successors of a visited state are visited or pending, and nothing
  but states reached from \<open>S\<close> is in either.
\<close>

definition closure_inv :: "nfa \<Rightarrow> nat set \<Rightarrow> nat list \<Rightarrow> nat list \<Rightarrow> bool" where
  "closure_inv n S visited pending \<longleftrightarrow>
     sorted visited \<and> distinct visited \<and> set visited \<subseteq> {..<length (nf_edges n)} \<and>
     set pending \<subseteq> {..<length (nf_edges n)} \<and>
     S \<subseteq> set visited \<union> set pending \<and> silent n `` set visited \<subseteq> set visited \<union> set pending \<and>
     set visited \<union> set pending \<subseteq> (silent n)\<^sup>* `` S"

lemma closure_step_holds:
  assumes "nfa_wf n" "closure_inv n S visited (state # pending)"
  shows "holds (closure_step n state visited pending) b (\<lambda>(visited', pending') b'. closure_inv n S visited' pending')"
proof (cases "state \<in> set visited")
  case True
  with assms(2) show ?thesis
    by (auto simp: closure_step_def closure_inv_def intro!: holds_charge)
next
  case False
  let ?new = "{ed_to e | e. e \<in> set (nf_edges n ! state) \<and> ed_label e = None}"
  from assms(2) have state: "state < length (nf_edges n)" by (simp add: closure_inv_def)
  then have succ: "silent n `` {state} = ?new" by (auto simp: silent_def nfa_edge_at_def)
  have reach: "state \<in> (silent n)\<^sup>* `` S" using assms(2) by (simp add: closure_inv_def)
  have "closure_inv n S (insort_insert state visited) pending'" if "set pending' = set pending \<union> ?new" for pending'
  proof -
    have "?new \<subseteq> {..<length (nf_edges n)}"
      using assms(1) state by (auto simp: nfa_wf_def nfa_edge_at_def)
    moreover have "?new \<subseteq> (silent n)\<^sup>* `` S"
      using succ rtrancl_Image_step [OF reach] by blast
    moreover have "silent n `` insert state (set visited) = silent n `` set visited \<union> ?new"
      using succ by blast
    ultimately show ?thesis
      using assms(2) that state
      by (auto simp: closure_inv_def set_insort_insert sorted_insort_insert distinct_insort_insert)
  qed
  with False state show ?thesis
    by (auto simp: closure_step_def intro!: holds_charge edges_at_holds intro: holds_mono [OF closure_edges_holds])
qed

lemma closure_loop_holds:
  assumes "nfa_wf n" "closure_inv n S visited pending"
  shows "holds (closure_loop n visited pending) b (\<lambda>r b'. closure_inv n S r [])"
  using assms
proof (induction n visited pending b rule: closure_loop.induct)
  case (1 n visited pending b)
  show ?case
  proof (cases pending)
    case Nil
    with 1(3) show ?thesis by (simp add: holds_def closure_loop.simps return_p_def)
  next
    case (Cons state pending')
    from 1(3) Cons closure_step_holds [OF 1(2), of S visited state pending' b]
    have step: "holds (closure_step n state visited pending') b (\<lambda>(v, p) b'. closure_inv n S v p)" by simp
    have loop: "holds (closure_loop n visited pending) b Q =
        holds (bind_p (closure_step n state visited pending') (\<lambda>s. closure_loop n (fst s) (snd s))) b Q" for Q
      by (simp add: holds_def bind_p_def Cons closure_loop.simps [of n visited "state # pending'"])
    show ?thesis unfolding loop
    proof -
      show "holds (bind_p (closure_step n state visited pending') (\<lambda>s. closure_loop n (fst s) (snd s))) b
          (\<lambda>r b'. closure_inv n S r [])"
        using step 1(1) [OF Cons _ refl] 1(2)
        by (auto simp: holds_def bind_p_def split: option.splits sum.splits)
    qed
  qed
qed

lemma closure_holds:
  assumes "nfa_wf n" "set states \<subseteq> {..<length (nf_edges n)}"
  shows "holds (nfa_closure n states) b
    (\<lambda>r b'. sorted r \<and> distinct r \<and> set r = (silent n)\<^sup>* `` set states \<and> set r \<subseteq> {..<length (nf_edges n)})"
proof -
  have "closure_inv n (set states) [] (rev states)"
    using assms(2) by (auto simp: closure_inv_def)
  from closure_loop_holds [OF assms(1) this]
  show ?thesis unfolding nfa_closure_def
  proof (rule holds_mono)
    fix r b' assume "closure_inv n (set states) r []"
    then show "sorted r \<and> distinct r \<and> set r = (silent n)\<^sup>* `` set states \<and> set r \<subseteq> {..<length (nf_edges n)}"
      using rtrancl_Image_closed [of "silent n" "set r" "set states"] by (auto simp: closure_inv_def)
  qed
qed

end
