(* ===== verification/TraceInclusion.thy ===== *)
theory TraceInclusion
  imports TraceRuns
begin

text \<open>
  \<open>etas_code/src/contract/inclusion.rs\<close>: the search of the product of a candidate automaton with the
  subsets of a frozen one, and the two public checks that rest on it.
\<close>

section \<open>The search\<close>

datatype trace_inclusion = Included | NotProven "(trace_info_ref \<times> trace_label) list"

record search_node =
  sn_candidate :: nat
  sn_frozen :: "nat list"
  sn_parent :: "(nat \<times> trace_info_ref \<times> trace_label) option"

record search_state =
  ss_search :: "search_node list"
  ss_visited :: "nat \<times> nat list \<rightharpoonup> nat"
  ss_members :: nat

definition enqueue_node :: "search_node \<Rightarrow> search_state \<Rightarrow> search_state prover" where
  "enqueue_node node st =
     (let key = (sn_candidate node, sn_frozen node) in
      if ss_visited st key \<noteq> None then return_p st
      else
        bind_p limits_p (\<lambda>limits.
          if max_product_states limits \<le> length (ss_search st)
          then fail_p (ProofLimit ''product states'' (max_product_states limits))
          else if max_product_members limits - ss_members st < length (sn_frozen node)
          then fail_p (ProofLimit ''product members'' (max_product_members limits))
          else return_p
            \<lparr>ss_search = ss_search st @ [node],
             ss_visited = (ss_visited st)(key \<mapsto> length (ss_search st)),
             ss_members = ss_members st + length (sn_frozen node)\<rparr>))"

text \<open>The loop that follows the parents; it might not end on a search whose parents form a cycle.\<close>

partial_function (option) witness_loop ::
  "search_node list \<Rightarrow> nat \<Rightarrow> (trace_info_ref \<times> trace_label) list \<Rightarrow> (trace_info_ref \<times> trace_label) list option" where
  "witness_loop search parent path =
     (if parent < length search
      then case sn_parent (search ! parent) of
             None \<Rightarrow> Some path
           | Some (previous, source, label) \<Rightarrow> witness_loop search previous (path @ [(source, label)])
      else None)"

definition witness ::
  "search_node list \<Rightarrow> nat \<Rightarrow> (trace_info_ref \<times> trace_label) option \<Rightarrow> (trace_info_ref \<times> trace_label) list option" where
  "witness search cursor tail =
     map_option (\<lambda>path. rev path @ (case tail of None \<Rightarrow> [] | Some entry \<Rightarrow> [entry])) (witness_loop search cursor [])"

definition not_proven ::
  "search_state \<Rightarrow> nat \<Rightarrow> (trace_info_ref \<times> trace_label) option \<Rightarrow> trace_inclusion prover" where
  "not_proven st cursor tail =
     (case witness (ss_search st) cursor tail of None \<Rightarrow> panic_p | Some path \<Rightarrow> return_p (NotProven path))"

definition frozen_edge :: "compiled_label \<Rightarrow> nfa_edge \<Rightarrow> nat list \<Rightarrow> nat list prover" where
  "frozen_edge label old_edge targets =
     bind_p (charge 1) (\<lambda>_.
       case ed_label old_edge of
         None \<Rightarrow> return_p targets
       | Some bound \<Rightarrow>
           bind_p (charge (saturating_add (co_comparison_work bound) (co_comparison_work label))) (\<lambda>_.
             return_p (if covers (co_value bound) (co_value label) then insort_insert (ed_to old_edge) targets else targets)))"

definition frozen_targets :: "nfa \<Rightarrow> compiled_label \<Rightarrow> nat list \<Rightarrow> nat list prover" where
  "frozen_targets frozen label olds =
     fold_p (\<lambda>old targets. bind_p (edges_at frozen old) (\<lambda>edges. fold_p (frozen_edge label) edges targets)) olds []"

text \<open>
  A loop whose body may also return from the function: \<open>Inl\<close> goes on with the state, \<open>Inr\<close> returns.
\<close>

fun fold_ret :: "('x \<Rightarrow> 's \<Rightarrow> ('s + 'r) prover) \<Rightarrow> 'x list \<Rightarrow> 's \<Rightarrow> ('s + 'r) prover" where
  "fold_ret f [] s = return_p (Inl s)"
| "fold_ret f (x # xs) s = bind_p (f x s) (\<lambda>r. case r of Inl s' \<Rightarrow> fold_ret f xs s' | Inr v \<Rightarrow> return_p (Inr v))"

definition candidate_edge ::
  "nfa \<Rightarrow> nat \<Rightarrow> nfa_edge \<Rightarrow> search_state \<Rightarrow> (search_state + trace_inclusion) prover" where
  "candidate_edge frozen cursor edge st =
     bind_p (charge 1) (\<lambda>_.
       case ed_label edge of
         None \<Rightarrow> return_p (Inl st)
       | Some label \<Rightarrow>
           bind_p (frozen_targets frozen label (sn_frozen (ss_search st ! cursor))) (\<lambda>targets.
           bind_p (nfa_closure frozen targets) (\<lambda>reached.
             if reached = []
             then bind_p (not_proven st cursor (Some (ed_source edge, co_value label))) (\<lambda>r. return_p (Inr r))
             else
               bind_p (enqueue_node
                   \<lparr>sn_candidate = ed_to edge, sn_frozen = reached,
                    sn_parent = Some (cursor, ed_source edge, co_value label)\<rparr> st)
                 (\<lambda>st. return_p (Inl st)))))"

definition search_step ::
  "nfa \<Rightarrow> nfa \<Rightarrow> nat \<Rightarrow> search_state \<Rightarrow> (search_state + trace_inclusion) prover" where
  "search_step candidate frozen cursor st =
     bind_p (charge 1) (\<lambda>_.
     bind_p (nfa_closure candidate [sn_candidate (ss_search st ! cursor)]) (\<lambda>states.
       if nf_end candidate \<in> set states \<and> nf_end frozen \<notin> set (sn_frozen (ss_search st ! cursor))
       then bind_p (not_proven st cursor None) (\<lambda>r. return_p (Inr r))
       else
         fold_ret (\<lambda>state st. bind_p (edges_at candidate state) (\<lambda>edges. fold_ret (candidate_edge frozen cursor) edges st))
           states st))"

lemma spends_fold_ret: "(\<And>x s. spends 0 (f x s)) \<Longrightarrow> spends 0 (fold_ret f xs s)"
  by (induction xs arbitrary: s) (auto intro!: spends_intros split: sum.split)

lemma spends_not_proven [spends_intros]: "spends 0 (not_proven st cursor tail)"
  unfolding not_proven_def by (intro spends_intros)

lemma spends_enqueue_node [spends_intros]: "spends 0 (enqueue_node node st)"
  unfolding enqueue_node_def Let_def by (intro spends_intros)

lemma spends_frozen_targets [spends_intros]: "spends 0 (frozen_targets frozen label olds)"
  unfolding frozen_targets_def frozen_edge_def by (intro spends_intros)

lemma spends_candidate_edge [spends_intros]: "spends 0 (candidate_edge frozen cursor edge st)"
  unfolding candidate_edge_def by (intro spends_intros)

lemma spends_search_step: "spends 1 (search_step candidate frozen cursor st)"
  unfolding search_step_def
  by (rule spends_bind1 [OF spends_charge]) (intro spends_intros spends_fold_ret)

function search_loop :: "nfa \<Rightarrow> nfa \<Rightarrow> nat \<Rightarrow> search_state \<Rightarrow> trace_inclusion prover" where
  "search_loop candidate frozen cursor st b =
     (if cursor < length (ss_search st)
      then bind_o (search_step candidate frozen cursor st b) (\<lambda>(r, b').
             case r of
               Inl st' \<Rightarrow> search_loop candidate frozen (Suc cursor) st' b'
             | Inr v \<Rightarrow> return_p v b')
      else return_p Included b)"
  by pat_completeness auto

termination
  by (relation "measure (\<lambda>(candidate, frozen, cursor, st, b). steps_left b)")
    (auto intro: spends_less [OF spends_search_step])

declare search_loop.simps [simp del]

definition search_empty :: search_state where
  "search_empty = \<lparr>ss_search = [], ss_visited = Map.empty, ss_members = 0\<rparr>"

definition check_nfa_inclusion :: "nfa \<Rightarrow> nfa \<Rightarrow> trace_inclusion prover" where
  "check_nfa_inclusion candidate frozen =
     bind_p (nfa_closure frozen [nf_start frozen]) (\<lambda>initial.
     bind_p (enqueue_node \<lparr>sn_candidate = nf_start candidate, sn_frozen = initial, sn_parent = None\<rparr> search_empty)
       (search_loop candidate frozen 0))"

section \<open>The checks\<close>

definition prove :: "'a prover \<Rightarrow> proof_budget \<Rightarrow> (trace_proof_error + 'a) option" where
  "prove m b = map_option (map_sum id fst) (m b)"

definition check_trace_inclusion ::
  "hasher \<Rightarrow> descriptor_graph \<Rightarrow> trace_info_ref \<Rightarrow> descriptor_graph \<Rightarrow> trace_info_ref \<Rightarrow> trace_proof_limits \<Rightarrow>
   (trace_proof_error + trace_inclusion) option" where
  "check_trace_inclusion h candidate candidate_root frozen frozen_root limits =
     prove
       (bind_p (nfa_build h candidate candidate_root) (\<lambda>c.
        bind_p (nfa_build h frozen frozen_root) (\<lambda>f.
          check_nfa_inclusion c f)))
       (budget_new limits None)"

definition parameter_exit_coverage ::
  "hasher \<Rightarrow> descriptor_graph \<Rightarrow> trace_info_ref \<Rightarrow> trace_info_ref \<Rightarrow> trace_proof_limits \<Rightarrow>
   (nat \<Rightarrow> interruption option) option \<Rightarrow> (trace_proof_error + bool) option" where
  "parameter_exit_coverage h g trace outcomes limits control =
     prove
       (bind_p (bind_p (nfa_build h g trace) parameter_exit_prefixes) (\<lambda>expected.
        bind_p (bind_p (nfa_build h g outcomes) parameter_exit_outcomes) (\<lambda>actual.
        bind_p (check_nfa_inclusion expected actual) (\<lambda>r.
          if r \<noteq> Included then return_p False
          else bind_p (check_nfa_inclusion actual expected) (\<lambda>r. return_p (r = Included))))))
       (budget_new limits control)"

definition check_parameter_exit_coverage ::
  "hasher \<Rightarrow> descriptor_graph \<Rightarrow> trace_info_ref \<Rightarrow> trace_info_ref \<Rightarrow> trace_proof_limits \<Rightarrow>
   (trace_proof_error + bool) option" where
  "check_parameter_exit_coverage h g trace outcomes limits = parameter_exit_coverage h g trace outcomes limits None"

definition check_parameter_exit_coverage_controlled ::
  "hasher \<Rightarrow> descriptor_graph \<Rightarrow> trace_info_ref \<Rightarrow> trace_info_ref \<Rightarrow> trace_proof_limits \<Rightarrow>
   (nat \<Rightarrow> interruption option) \<Rightarrow> (trace_proof_error + bool) option" where
  "check_parameter_exit_coverage_controlled h g trace outcomes limits control =
     parameter_exit_coverage h g trace outcomes limits (Some control)"

section \<open>What the search decides\<close>

text \<open>
  \<open>simulated f w\<close>: the states of \<open>f\<close> after a word that covers \<open>w\<close> label by label. The candidate is
  included when every word it reads is simulated (so that no prefix leaves the frozen contract) and every
  word it accepts is covered by a word that the frozen automaton accepts.
\<close>

definition simulated :: "nfa \<Rightarrow> trace_label list \<Rightarrow> nat set" where
  "simulated f w = {t. \<exists>w'. run f (nf_start f) w' t \<and> list_all2 covers w' w}"

definition covered :: "nfa \<Rightarrow> trace_label list \<Rightarrow> bool" where
  "covered f w \<longleftrightarrow> (\<exists>w'. accepts f w' \<and> list_all2 covers w' w)"

definition nfa_included :: "nfa \<Rightarrow> nfa \<Rightarrow> bool" where
  "nfa_included c f \<longleftrightarrow>
     (\<forall>w t. run c (nf_start c) w t \<longrightarrow> simulated f w \<noteq> {}) \<and> (\<forall>w. accepts c w \<longrightarrow> covered f w)"

definition refuted_by :: "nfa \<Rightarrow> nfa \<Rightarrow> trace_label list \<Rightarrow> bool" where
  "refuted_by c f w \<longleftrightarrow>
     (\<exists>t. run c (nf_start c) w t \<and> simulated f w = {}) \<or> accepts c w \<and> \<not> covered f w"

lemma refuted_not_included: "refuted_by c f w \<Longrightarrow> \<not> nfa_included c f"
  by (auto simp: refuted_by_def nfa_included_def)

lemma covered_iff: "covered f w \<longleftrightarrow> nf_end f \<in> simulated f w"
  by (simp add: covered_def simulated_def accepts_def)

definition step_targets :: "nfa \<Rightarrow> nat set \<Rightarrow> trace_label \<Rightarrow> nat set" where
  "step_targets f F l =
     {ed_to e | s e. s \<in> F \<and> nfa_edge_at f s e \<and> (\<exists>bound. ed_label e = Some bound \<and> covers (co_value bound) l)}"

lemma simulated_Nil: "simulated f [] = (silent f)\<^sup>* `` {nf_start f}"
  by (auto simp: simulated_def silent_iff_run)

text \<open>A run that ends in a label: the edge that reads it, and silent edges after it.\<close>

lemma run_last_label:
  assumes "run n s w t" "w = v @ [l]"
  shows "\<exists>u e. run n s v u \<and> nfa_edge_at n u e \<and> edge_word e = [l] \<and> (ed_to e, t) \<in> (silent n)\<^sup>*"
  using assms
proof (induction arbitrary: v l rule: run_rev_induct)
  case (snoc w t e)
  show ?case
  proof (cases "ed_label e")
    case None
    with snoc.prems have "w = v @ [l]" by (simp add: edge_word_def)
    from snoc.IH [OF this] obtain u d where
      "run n s v u" "nfa_edge_at n u d" "edge_word d = [l]" "(ed_to d, t) \<in> (silent n)\<^sup>*" by blast
    moreover from None snoc.hyps(2) have "(t, ed_to e) \<in> silent n" by (auto simp: silent_def)
    ultimately show ?thesis by (blast intro: rtrancl_into_rtrancl)
  next
    case (Some label)
    with snoc.prems have "w = v" "edge_word e = [l]" by (auto simp: edge_word_def)
    with snoc.hyps show ?thesis by blast
  qed
qed simp

lemma simulated_snoc: "simulated f (w @ [l]) = (silent f)\<^sup>* `` step_targets f (simulated f w) l"
proof (intro set_eqI iffI)
  fix t assume "t \<in> simulated f (w @ [l])"
  then obtain w' where "run f (nf_start f) w' t" "list_all2 covers w' (w @ [l])" by (auto simp: simulated_def)
  moreover from this(2) obtain v l' where w': "w' = v @ [l']" "list_all2 covers v w" "covers l' l"
    by (auto simp: list_all2_append2 list_all2_Cons2)
  ultimately obtain u e where "run f (nf_start f) v u" and e: "nfa_edge_at f u e" "edge_word e = [l']"
    and t: "(ed_to e, t) \<in> (silent f)\<^sup>*"
    using run_last_label by blast
  with w'(2) have "u \<in> simulated f w" by (auto simp: simulated_def)
  moreover from e(2) obtain bound where "ed_label e = Some bound" "co_value bound = l'"
    by (auto simp: edge_word_def split: option.splits)
  ultimately have "ed_to e \<in> step_targets f (simulated f w) l"
    using e(1) w'(3) by (auto simp: step_targets_def)
  with t show "t \<in> (silent f)\<^sup>* `` step_targets f (simulated f w) l" by blast
next
  fix t assume "t \<in> (silent f)\<^sup>* `` step_targets f (simulated f w) l"
  then obtain u e bound w' where u: "run f (nf_start f) w' u" "list_all2 covers w' w" and e: "nfa_edge_at f u e"
    and bound: "ed_label e = Some bound" "covers (co_value bound) l" and t: "(ed_to e, t) \<in> (silent f)\<^sup>*"
    by (auto simp: step_targets_def simulated_def)
  from run_append [OF run_snoc [OF u(1) e] silent_run [OF t]]
  have "run f (nf_start f) (w' @ [co_value bound]) t" using bound(1) by (simp add: edge_word_def)
  moreover from u(2) bound(2) have "list_all2 covers (w' @ [co_value bound]) (w @ [l])"
    by (simp add: list_all2_appendI)
  ultimately show "t \<in> simulated f (w @ [l])" by (auto simp: simulated_def)
qed

lemma simulated_bounded: "nfa_wf f \<Longrightarrow> simulated f w \<subseteq> {..<length (nf_edges f)}"
  by (auto simp: simulated_def nfa_wf_def dest: run_wf [unfolded nfa_wf_def])

lemma frozen_edges_holds:
  "sorted targets \<Longrightarrow> distinct targets \<Longrightarrow>
   holds (fold_p (frozen_edge label) edges targets) b
     (\<lambda>targets' b'. sorted targets' \<and> distinct targets' \<and>
        set targets' = set targets \<union>
          {ed_to e | e. e \<in> set edges \<and> (\<exists>bound. ed_label e = Some bound \<and> covers (co_value bound) (co_value label))})"
  by (rule holds_fold [where I = "\<lambda>es targets'. sorted targets' \<and> distinct targets' \<and>
        set targets' = set targets \<union>
          {ed_to e | e. e \<in> set es \<and> (\<exists>bound. ed_label e = Some bound \<and> covers (co_value bound) (co_value label))}"])
    (auto simp: frozen_edge_def set_insort_insert sorted_insort_insert distinct_insort_insert
      intro!: holds_charge split: option.split)

lemma frozen_targets_holds:
  assumes "set olds \<subseteq> {..<length (nf_edges f)}"
  shows "holds (frozen_targets f label olds) b (\<lambda>targets b'. set targets = step_targets f (set olds) (co_value label))"
proof -
  have "holds (frozen_targets f label olds) b (\<lambda>targets b'. sorted targets \<and> distinct targets \<and>
      set targets = step_targets f (set olds) (co_value label))"
    unfolding frozen_targets_def
  proof (rule holds_fold [where I = "\<lambda>os targets. sorted targets \<and> distinct targets \<and>
      set targets = step_targets f (set os) (co_value label)"])
    fix ys x zs targets b
    assume "olds = ys @ x # zs" and inv: "sorted targets \<and> distinct targets \<and>
      set targets = step_targets f (set ys) (co_value label)"
    with assms have x: "x < length (nf_edges f)" by auto
    then have "step_targets f (set (ys @ [x])) (co_value label) = step_targets f (set ys) (co_value label) \<union>
        {ed_to e | e. e \<in> set (nf_edges f ! x) \<and> (\<exists>bound. ed_label e = Some bound \<and> covers (co_value bound) (co_value label))}"
      by (auto simp: step_targets_def nfa_edge_at_def)
    with x inv frozen_edges_holds [of targets label "nf_edges f ! x" b]
    show "holds (bind_p (edges_at f x) (\<lambda>edges. fold_p (frozen_edge label) edges targets)) b
        (\<lambda>targets b'. sorted targets \<and> distinct targets \<and> set targets = step_targets f (set (ys @ [x])) (co_value label))"
      by (simp add: edges_at_def)
  qed (simp add: step_targets_def)
  then show ?thesis by (rule holds_mono) simp
qed

subsection \<open>The witness of a node\<close>

lemma witness_loop_acc:
  "witness_loop search i acc = Some r \<Longrightarrow> \<exists>p. r = acc @ p \<and> (\<forall>acc'. witness_loop search i acc' = Some (acc' @ p))"
proof (induction rule: witness_loop.raw_induct [rotated, consumes 1, case_names 1])
  case (1 loop search parent path r)
  from 1(2) have parent: "parent < length search" by (simp split: if_splits)
  show ?case
  proof (cases "sn_parent (search ! parent)")
    case None
    with 1(2) parent have "r = path @ []" by simp
    moreover have "witness_loop search parent acc' = Some (acc' @ [])" for acc'
      using None parent by (simp add: witness_loop.simps)
    ultimately show ?thesis by blast
  next
    case (Some entry)
    obtain previous source label where entry: "entry = (previous, source, label)" by (cases entry)
    with 1(2) Some parent have "loop search previous (path @ [(source, label)]) = Some r" by simp
    from 1(1) [OF this] obtain p where p: "r = (path @ [(source, label)]) @ p"
      "\<And>acc'. witness_loop search previous acc' = Some (acc' @ p)" by blast
    have "witness_loop search parent acc' = Some (acc' @ (source, label) # p)" for acc'
      using Some parent entry p(2) by (simp add: witness_loop.simps [of search parent])
    with p(1) show ?thesis by (intro exI [of _ "(source, label) # p"]) simp
  qed
qed

lemma witness_loop_grow:
  "witness_loop search i acc = Some r \<Longrightarrow> witness_loop (search @ added) i acc = Some r"
proof (induction rule: witness_loop.raw_induct [rotated, consumes 1, case_names 1])
  case (1 loop search parent path r)
  from 1(2) have parent: "parent < length search" by (simp split: if_splits)
  with 1 show ?case
    by (auto simp: witness_loop.simps [of "search @ added" parent] nth_append split: option.splits)
qed

definition node_word :: "search_node list \<Rightarrow> nat \<Rightarrow> trace_label list \<Rightarrow> bool" where
  "node_word search i w \<longleftrightarrow> (\<exists>p. witness_loop search i [] = Some p \<and> w = map snd (rev p))"

lemma node_word_grow: "node_word search i w \<Longrightarrow> node_word (search @ added) i w"
  by (auto simp: node_word_def intro: witness_loop_grow)

lemma node_word_root: "sn_parent node = None \<Longrightarrow> node_word [node] 0 []"
  by (simp add: node_word_def witness_loop.simps)

lemma node_word_child:
  assumes "node_word search i w" "sn_parent node = Some (i, source, label)"
  shows "node_word (search @ [node]) (length search) (w @ [label])"
proof -
  from assms(1) obtain p where p: "witness_loop search i [] = Some p" "w = map snd (rev p)"
    by (auto simp: node_word_def)
  from witness_loop_acc [OF witness_loop_grow [OF p(1), of "[node]"]]
  have "witness_loop (search @ [node]) i acc = Some (acc @ p)" for acc by simp
  with assms(2) have "witness_loop (search @ [node]) (length search) [] = Some ((source, label) # p)"
    by (simp add: witness_loop.simps [of "search @ [node]" "length search"])
  with p(2) show ?thesis by (simp add: node_word_def)
qed

lemma not_proven_holds:
  assumes "node_word (ss_search st) cursor w"
  shows "holds (not_proven st cursor tail) b
    (\<lambda>r b'. \<exists>path. r = NotProven path \<and> map snd path = w @ (case tail of None \<Rightarrow> [] | Some entry \<Rightarrow> [snd entry]))"
  using assms by (auto simp: not_proven_def witness_def node_word_def split: option.split)

subsection \<open>The invariant of the search\<close>

definition node_ok :: "nfa \<Rightarrow> nfa \<Rightarrow> search_node list \<Rightarrow> nat \<Rightarrow> bool" where
  "node_ok c f search i \<longleftrightarrow>
     (\<exists>w. node_word search i w \<and> run c (nf_start c) w (sn_candidate (search ! i)) \<and>
        set (sn_frozen (search ! i)) = simulated f w \<and> sn_frozen (search ! i) \<noteq> [] \<and>
        sorted (sn_frozen (search ! i)) \<and> distinct (sn_frozen (search ! i)))"

definition present :: "search_state \<Rightarrow> nat \<Rightarrow> nat set \<Rightarrow> bool" where
  "present st state F \<longleftrightarrow>
     (\<exists>node \<in> set (ss_search st). sn_candidate node = state \<and> set (sn_frozen node) = F)"

definition search_inv :: "nfa \<Rightarrow> nfa \<Rightarrow> search_state \<Rightarrow> bool" where
  "search_inv c f st \<longleftrightarrow>
     (\<forall>i < length (ss_search st). node_ok c f (ss_search st) i) \<and>
     dom (ss_visited st) = (\<lambda>node. (sn_candidate node, sn_frozen node)) ` set (ss_search st)"

definition grows :: "search_state \<Rightarrow> search_state \<Rightarrow> bool" where
  "grows st st' \<longleftrightarrow> (\<exists>added. ss_search st' = ss_search st @ added)"

lemma grows_refl [simp]: "grows st st"
  by (simp add: grows_def)

lemma grows_trans: "grows st st' \<Longrightarrow> grows st' st'' \<Longrightarrow> grows st st''"
  by (auto simp: grows_def)

lemma grows_nth:
  "grows st st' \<Longrightarrow> i < length (ss_search st) \<Longrightarrow> ss_search st' ! i = ss_search st ! i \<and> i < length (ss_search st')"
  by (auto simp: grows_def nth_append)

lemma present_grows: "present st state F \<Longrightarrow> grows st st' \<Longrightarrow> present st' state F"
  by (auto simp: present_def grows_def)

lemma node_ok_grow: "i < length search \<Longrightarrow> node_ok c f search i \<Longrightarrow> node_ok c f (search @ added) i"
  unfolding node_ok_def by (auto simp: nth_append intro: node_word_grow)

lemma enqueue_node_holds:
  assumes inv: "search_inv c f st" and node: "node_ok c f (ss_search st @ [node]) (length (ss_search st))"
  shows "holds (enqueue_node node st) b
    (\<lambda>st' b'. search_inv c f st' \<and> grows st st' \<and> present st' (sn_candidate node) (set (sn_frozen node)))"
proof (cases "ss_visited st (sn_candidate node, sn_frozen node)")
  case (Some i)
  with inv have "(sn_candidate node, sn_frozen node) \<in> (\<lambda>n. (sn_candidate n, sn_frozen n)) ` set (ss_search st)"
    by (auto simp: search_inv_def)
  then have "present st (sn_candidate node) (set (sn_frozen node))" by (auto simp: present_def)
  with Some inv show ?thesis by (simp add: enqueue_node_def)
next
  case None
  let ?st = "\<lparr>ss_search = ss_search st @ [node],
    ss_visited = (ss_visited st)((sn_candidate node, sn_frozen node) \<mapsto> length (ss_search st)),
    ss_members = ss_members st + length (sn_frozen node)\<rparr>"
  have "search_inv c f ?st"
    using inv node by (auto simp: search_inv_def less_Suc_eq intro: node_ok_grow)
  moreover have "grows st ?st" by (simp add: grows_def)
  moreover have "present ?st (sn_candidate node) (set (sn_frozen node))" by (simp add: present_def)
  ultimately show ?thesis
    using None by (simp add: enqueue_node_def limits_p_def holds_def bind_p_def return_p_def fail_p_def)
qed

lemma holds_fold_ret:
  assumes "I [] s"
    and "\<And>ys x zs s b. xs = ys @ x # zs \<Longrightarrow> I ys s \<Longrightarrow>
      holds (f x s) b (\<lambda>r b'. case r of Inl s' \<Rightarrow> I (ys @ [x]) s' | Inr v \<Rightarrow> Q v)"
  shows "holds (fold_ret f xs s) b (\<lambda>r b'. case r of Inl s' \<Rightarrow> I xs s' | Inr v \<Rightarrow> Q v)"
proof -
  have "holds (fold_ret f zs s) b (\<lambda>r b'. case r of Inl s' \<Rightarrow> I xs s' | Inr v \<Rightarrow> Q v)"
    if "xs = ys @ zs" "I ys s" for ys zs s b
    using that
  proof (induction zs arbitrary: ys s b)
    case (Cons x zs)
    have "holds (f x s) b (\<lambda>r b'. holds (case r of Inl s' \<Rightarrow> fold_ret f zs s' | Inr v \<Rightarrow> return_p (Inr v)) b'
        (\<lambda>r b'. case r of Inl s' \<Rightarrow> I xs s' | Inr v \<Rightarrow> Q v))"
      using assms(2) [OF Cons.prems]
      by (rule holds_mono) (use Cons.IH [of "ys @ [x]"] Cons.prems in \<open>auto split: sum.splits\<close>)
    then show ?case by simp
  qed simp
  from this [of "[]" xs s b] assms(1) show ?thesis by simp
qed

text \<open>What one labelled edge of the candidate has to leave behind, and all edges of a state.\<close>

definition edge_done :: "nfa \<Rightarrow> nat set \<Rightarrow> search_state \<Rightarrow> nfa_edge \<Rightarrow> bool" where
  "edge_done f F st e \<longleftrightarrow>
     (\<forall>label. ed_label e = Some label \<longrightarrow>
        present st (ed_to e) ((silent f)\<^sup>* `` step_targets f F (co_value label)))"

definition refutation :: "nfa \<Rightarrow> nfa \<Rightarrow> trace_inclusion \<Rightarrow> bool" where
  "refutation c f r \<longleftrightarrow> (\<exists>path. r = NotProven path \<and> refuted_by c f (map snd path))"

lemma edge_done_grows: "edge_done f F st e \<Longrightarrow> grows st st' \<Longrightarrow> edge_done f F st' e"
  by (auto simp: edge_done_def intro: present_grows)

lemma candidate_edge_holds:
  assumes wf: "nfa_wf f" and inv: "search_inv c f st" and cursor: "cursor < length (ss_search st)"
    and s: "(sn_candidate (ss_search st ! cursor), s) \<in> (silent c)\<^sup>*" and e: "nfa_edge_at c s e"
  shows "holds (candidate_edge f cursor e st) b
    (\<lambda>r b'. case r of
       Inl st' \<Rightarrow> search_inv c f st' \<and> grows st st' \<and> edge_done f (set (sn_frozen (ss_search st ! cursor))) st' e
     | Inr v \<Rightarrow> refutation c f v)"
proof (cases "ed_label e")
  case None
  with inv show ?thesis by (auto simp: candidate_edge_def edge_done_def intro!: holds_charge)
next
  case (Some label)
  let ?l = "co_value label" and ?node = "ss_search st ! cursor"
  from inv cursor obtain w where w: "node_word (ss_search st) cursor w"
    and run: "run c (nf_start c) w (sn_candidate ?node)" and frozen: "set (sn_frozen ?node) = simulated f w"
    by (auto simp: search_inv_def node_ok_def)
  have run': "run c (nf_start c) (w @ [?l]) (ed_to e)"
    using run_snoc [OF run_append [OF run silent_run [OF s]] e] Some by (simp add: edge_word_def)
  have bounded: "set (sn_frozen ?node) \<subseteq> {..<length (nf_edges f)}"
    using simulated_bounded [OF wf] frozen by simp
  have step: "holds (if reached = []
      then bind_p (not_proven st cursor (Some (ed_source e, ?l))) (\<lambda>r. return_p (Inr r))
      else bind_p (enqueue_node \<lparr>sn_candidate = ed_to e, sn_frozen = reached, sn_parent = Some (cursor, ed_source e, ?l)\<rparr> st)
        (\<lambda>st. return_p (Inl st))) b
    (\<lambda>r b'. case r of
       Inl st' \<Rightarrow> search_inv c f st' \<and> grows st st' \<and> edge_done f (set (sn_frozen ?node)) st' e
     | Inr v \<Rightarrow> refutation c f v)"
    if "sorted reached" "distinct reached" "set reached = simulated f (w @ [?l])" for reached b
  proof (cases "reached = []")
    case True
    with that have "refuted_by c f (w @ [?l])" using run' by (auto simp: refuted_by_def)
    then show ?thesis
      using True not_proven_holds [OF w, of "Some (ed_source e, ?l)" b]
      by (auto simp: refutation_def elim: holds_mono)
  next
    case False
    let ?new = "\<lparr>sn_candidate = ed_to e, sn_frozen = reached, sn_parent = Some (cursor, ed_source e, ?l)\<rparr>"
    have "node_ok c f (ss_search st @ [?new]) (length (ss_search st))"
      using node_word_child [OF w, of ?new] run' that False by (auto simp: node_ok_def)
    from enqueue_node_holds [OF inv this, of b] show ?thesis
      using False Some that frozen by (auto simp: edge_done_def simulated_snoc elim!: holds_mono)
  qed
  have reach: "holds (frozen_targets f label (sn_frozen ?node)) b' (\<lambda>targets b'. holds (nfa_closure f targets) b' (\<lambda>reached b'.
      sorted reached \<and> distinct reached \<and> set reached = simulated f (w @ [?l])))" for b'
    using frozen_targets_holds [OF bounded, of label]
  proof (rule holds_mono)
    fix targets b' assume t: "set targets = step_targets f (set (sn_frozen ?node)) ?l"
    then have "set targets \<subseteq> {..<length (nf_edges f)}" using wf by (auto simp: step_targets_def nfa_wf_def)
    from closure_holds [OF wf this, of b'] t frozen
    show "holds (nfa_closure f targets) b' (\<lambda>reached b'.
        sorted reached \<and> distinct reached \<and> set reached = simulated f (w @ [?l]))"
      by (auto simp: simulated_snoc elim: holds_mono)
  qed
  show ?thesis
    unfolding candidate_edge_def Some option.case holds_bind [where m = "charge 1"]
      holds_bind [where m = "frozen_targets f label olds" for olds] holds_bind [where m = "nfa_closure f targets" for targets]
    by (intro holds_charge) (rule holds_mono [OF reach], erule holds_mono, intro step, blast+)
qed

definition edges_done :: "nfa \<Rightarrow> nfa \<Rightarrow> nat set \<Rightarrow> search_state \<Rightarrow> nat \<Rightarrow> bool" where
  "edges_done c f F st s \<longleftrightarrow> (\<forall>e. nfa_edge_at c s e \<longrightarrow> edge_done f F st e)"

definition expanded :: "nfa \<Rightarrow> nfa \<Rightarrow> search_state \<Rightarrow> nat \<Rightarrow> bool" where
  "expanded c f st i \<longleftrightarrow>
     (let node = ss_search st ! i; states = (silent c)\<^sup>* `` {sn_candidate node} in
      (nf_end c \<in> states \<longrightarrow> nf_end f \<in> set (sn_frozen node)) \<and>
      (\<forall>s\<in>states. edges_done c f (set (sn_frozen node)) st s))"

lemma expanded_grows: "expanded c f st i \<Longrightarrow> grows st st' \<Longrightarrow> i < length (ss_search st) \<Longrightarrow> expanded c f st' i"
  using grows_nth [of st st' i] by (auto simp: expanded_def Let_def edges_done_def intro: edge_done_grows)

text \<open>All labelled edges of one state of the closure.\<close>

lemma candidate_edges_holds:
  assumes wf: "nfa_wf f" and inv: "search_inv c f st" and cursor: "cursor < length (ss_search st)"
    and s: "(sn_candidate (ss_search st ! cursor), s) \<in> (silent c)\<^sup>*" and range: "s < length (nf_edges c)"
  shows "holds (bind_p (edges_at c s) (\<lambda>edges. fold_ret (candidate_edge f cursor) edges st)) b
    (\<lambda>r b'. case r of
       Inl st' \<Rightarrow> search_inv c f st' \<and> grows st st' \<and> edges_done c f (set (sn_frozen (ss_search st ! cursor))) st' s
     | Inr v \<Rightarrow> refutation c f v)"
proof -
  let ?F = "set (sn_frozen (ss_search st ! cursor))"
  have "holds (fold_ret (candidate_edge f cursor) (nf_edges c ! s) st) b
    (\<lambda>r b'. case r of
       Inl st' \<Rightarrow> search_inv c f st' \<and> grows st st' \<and> (\<forall>e\<in>set (nf_edges c ! s). edge_done f ?F st' e)
     | Inr v \<Rightarrow> refutation c f v)"
  proof (rule holds_fold_ret [where I = "\<lambda>es st'. search_inv c f st' \<and> grows st st' \<and> (\<forall>e\<in>set es. edge_done f ?F st' e)"])
    fix ys e zs st' b
    assume es: "nf_edges c ! s = ys @ e # zs"
      and I: "search_inv c f st' \<and> grows st st' \<and> (\<forall>e\<in>set ys. edge_done f ?F st' e)"
    from es range have e: "nfa_edge_at c s e" by (simp add: nfa_edge_at_def)
    from I cursor have node: "ss_search st' ! cursor = ss_search st ! cursor" "cursor < length (ss_search st')"
      using grows_nth by blast+
    from s have s': "(sn_candidate (ss_search st' ! cursor), s) \<in> (silent c)\<^sup>*" by (simp add: node)
    from candidate_edge_holds [OF wf conjunct1 [OF I] node(2) s' e, of b, unfolded node(1)]
    have "holds (candidate_edge f cursor e st') b (\<lambda>r b'. case r of
        Inl st'' \<Rightarrow> search_inv c f st'' \<and> grows st' st'' \<and> edge_done f ?F st'' e
      | Inr v \<Rightarrow> refutation c f v)" .
    then show "holds (candidate_edge f cursor e st') b (\<lambda>r b'. case r of
        Inl st' \<Rightarrow> search_inv c f st' \<and> grows st st' \<and> (\<forall>e\<in>set (ys @ [e]). edge_done f ?F st' e)
      | Inr v \<Rightarrow> refutation c f v)"
      by (rule holds_mono) (use I in \<open>auto intro: grows_trans edge_done_grows split: sum.splits\<close>)
  qed (use inv in simp)
  moreover have "edges_done c f ?F st' s \<longleftrightarrow> (\<forall>e\<in>set (nf_edges c ! s). edge_done f ?F st' e)" for st'
    using range by (auto simp: edges_done_def nfa_edge_at_def)
  ultimately show ?thesis
    using range by (simp only: edges_at_def if_True holds_bind holds_return)
qed

lemma search_step_holds:
  assumes wf: "nfa_wf c" "nfa_wf f" and inv: "search_inv c f st" and cursor: "cursor < length (ss_search st)"
  shows "holds (search_step c f cursor st) b
    (\<lambda>r b'. case r of
       Inl st' \<Rightarrow> search_inv c f st' \<and> grows st st' \<and> expanded c f st' cursor
     | Inr v \<Rightarrow> refutation c f v)"
proof -
  let ?node = "ss_search st ! cursor"
  let ?F = "set (sn_frozen ?node)" and ?S = "(silent c)\<^sup>* `` {sn_candidate ?node}"
  from inv cursor obtain w where w: "node_word (ss_search st) cursor w"
    and run: "run c (nf_start c) w (sn_candidate ?node)" and frozen: "?F = simulated f w"
    by (auto simp: search_inv_def node_ok_def)
  from run_wf [OF run wf(1)] wf(1) have range: "set [sn_candidate ?node] \<subseteq> {..<length (nf_edges c)}"
    by (simp add: nfa_wf_def)
  have rest: "holds (if nf_end c \<in> set states \<and> nf_end f \<notin> ?F
      then bind_p (not_proven st cursor None) (\<lambda>r. return_p (Inr r))
      else fold_ret (\<lambda>state st. bind_p (edges_at c state) (\<lambda>edges. fold_ret (candidate_edge f cursor) edges st)) states st) b
    (\<lambda>r b'. case r of
       Inl st' \<Rightarrow> search_inv c f st' \<and> grows st st' \<and> expanded c f st' cursor
     | Inr v \<Rightarrow> refutation c f v)"
    if states: "set states = ?S" "set states \<subseteq> {..<length (nf_edges c)}" for states b
  proof (cases "nf_end c \<in> set states \<and> nf_end f \<notin> ?F")
    case True
    then have "run c (nf_start c) (w @ []) (nf_end c)"
      using states(1) by (intro run_append [OF run] silent_run) simp
    with True frozen have "refuted_by c f w" by (simp add: refuted_by_def accepts_def covered_iff)
    then show ?thesis
      using True not_proven_holds [OF w, of None b] by (auto simp: refutation_def elim: holds_mono)
  next
    case False
    have "holds (fold_ret (\<lambda>state st. bind_p (edges_at c state) (\<lambda>edges. fold_ret (candidate_edge f cursor) edges st)) states st) b
      (\<lambda>r b'. case r of
         Inl st' \<Rightarrow> search_inv c f st' \<and> grows st st' \<and> (\<forall>s\<in>set states. edges_done c f ?F st' s)
       | Inr v \<Rightarrow> refutation c f v)"
    proof (rule holds_fold_ret [where I = "\<lambda>ss st'. search_inv c f st' \<and> grows st st' \<and> (\<forall>s\<in>set ss. edges_done c f ?F st' s)"])
      fix ys s zs st' b
      assume ss: "states = ys @ s # zs"
        and I: "search_inv c f st' \<and> grows st st' \<and> (\<forall>s\<in>set ys. edges_done c f ?F st' s)"
      from I cursor have node: "ss_search st' ! cursor = ?node" "cursor < length (ss_search st')"
        using grows_nth by blast+
      from ss states have s: "(sn_candidate (ss_search st' ! cursor), s) \<in> (silent c)\<^sup>*" "s < length (nf_edges c)"
        by (auto simp: node)
      from candidate_edges_holds [OF wf(2) conjunct1 [OF I] node(2) s, of b, unfolded node(1)]
      have "holds (bind_p (edges_at c s) (\<lambda>edges. fold_ret (candidate_edge f cursor) edges st')) b (\<lambda>r b'. case r of
          Inl st'' \<Rightarrow> search_inv c f st'' \<and> grows st' st'' \<and> edges_done c f ?F st'' s
        | Inr v \<Rightarrow> refutation c f v)" .
      then show "holds (bind_p (edges_at c s) (\<lambda>edges. fold_ret (candidate_edge f cursor) edges st')) b (\<lambda>r b'. case r of
          Inl st' \<Rightarrow> search_inv c f st' \<and> grows st st' \<and> (\<forall>s\<in>set (ys @ [s]). edges_done c f ?F st' s)
        | Inr v \<Rightarrow> refutation c f v)"
        by (rule holds_mono)
          (use I in \<open>auto simp: edges_done_def intro: grows_trans edge_done_grows split: sum.splits\<close>)
    qed (use inv in simp)
    then have "holds (fold_ret (\<lambda>state st. bind_p (edges_at c state) (\<lambda>edges. fold_ret (candidate_edge f cursor) edges st)) states st) b
      (\<lambda>r b'. case r of
         Inl st' \<Rightarrow> search_inv c f st' \<and> grows st st' \<and> expanded c f st' cursor
       | Inr v \<Rightarrow> refutation c f v)"
    proof (rule holds_mono)
      fix r b' assume r: "case r of
          Inl st' \<Rightarrow> search_inv c f st' \<and> grows st st' \<and> (\<forall>s\<in>set states. edges_done c f ?F st' s)
        | Inr v \<Rightarrow> refutation c f v"
      show "case r of
          Inl st' \<Rightarrow> search_inv c f st' \<and> grows st st' \<and> expanded c f st' cursor
        | Inr v \<Rightarrow> refutation c f v"
      proof (cases r)
        case (Inl st')
        with r states(1) have I: "search_inv c f st'" "grows st st'" "\<forall>s\<in>?S. edges_done c f ?F st' s" by simp_all
        from grows_nth [OF I(2) cursor] have "ss_search st' ! cursor = ?node" by simp
        with False states(1) I(3) have "expanded c f st' cursor" by (simp add: expanded_def Let_def)
        with I Inl show ?thesis by simp
      next
        case (Inr v)
        with r show ?thesis by simp
      qed
    qed
    then show ?thesis unfolding if_not_P [OF False] .
  qed
  show ?thesis
    unfolding search_step_def holds_bind [where m = "charge 1"] holds_bind [where m = "nfa_closure c states" for states]
    by (intro holds_charge) (rule holds_mono [OF closure_holds [OF wf(1) range]], rule rest, simp, blast)
qed

lemma present_reached:
  assumes "present st s F"
  shows "\<exists>i < length (ss_search st). (sn_candidate (ss_search st ! i), s) \<in> (silent c)\<^sup>* \<and> set (sn_frozen (ss_search st ! i)) = F"
proof -
  from assms obtain i where "i < length (ss_search st)" "sn_candidate (ss_search st ! i) = s"
    "set (sn_frozen (ss_search st ! i)) = F" by (auto simp: present_def in_set_conv_nth)
  then show ?thesis by (intro exI [of _ i]) simp
qed

lemma search_complete:
  assumes all: "\<forall>i < length (ss_search st). expanded c f st i"
    and root: "present st (nf_start c) (simulated f [])" and inv: "search_inv c f st"
  shows "nfa_included c f"
proof -
  have reach: "\<exists>i < length (ss_search st). (sn_candidate (ss_search st ! i), t) \<in> (silent c)\<^sup>* \<and>
      set (sn_frozen (ss_search st ! i)) = simulated f w" if "run c (nf_start c) w t" for w t
    using that
  proof (induction rule: run_rev_induct)
    case refl
    from root show ?case by (rule present_reached)
  next
    case (snoc w t e)
    then obtain i where i: "i < length (ss_search st)" "(sn_candidate (ss_search st ! i), t) \<in> (silent c)\<^sup>*"
      "set (sn_frozen (ss_search st ! i)) = simulated f w" by blast
    show ?case
    proof (cases "ed_label e")
      case None
      with snoc.hyps(2) have "(t, ed_to e) \<in> silent c" by (auto simp: silent_def)
      with i None show ?thesis by (auto simp: edge_word_def intro: rtrancl_into_rtrancl)
    next
      case (Some label)
      from all i have "edge_done f (simulated f w) st e"
        using snoc.hyps(2) by (auto simp: expanded_def Let_def edges_done_def)
      with Some have "present st (ed_to e) (simulated f (w @ edge_word e))"
        by (simp add: edge_done_def simulated_snoc edge_word_def)
      then show ?thesis by (rule present_reached)
    qed
  qed
  have "simulated f w \<noteq> {}" if "run c (nf_start c) w t" for w t
    using reach [OF that] inv by (auto simp: search_inv_def node_ok_def)
  moreover have "covered f w" if "accepts c w" for w
  proof -
    from reach [OF that [unfolded accepts_def]] obtain i where "i < length (ss_search st)"
      "(sn_candidate (ss_search st ! i), nf_end c) \<in> (silent c)\<^sup>*" "set (sn_frozen (ss_search st ! i)) = simulated f w"
      by blast
    with all show ?thesis by (auto simp: expanded_def Let_def covered_iff)
  qed
  ultimately show ?thesis by (auto simp: nfa_included_def)
qed

definition decides :: "nfa \<Rightarrow> nfa \<Rightarrow> trace_inclusion \<Rightarrow> bool" where
  "decides c f r \<longleftrightarrow> r = Included \<and> nfa_included c f \<or> refutation c f r"

lemma search_loop_holds:
  assumes "nfa_wf c" "nfa_wf f" "search_inv c f st" "present st (nf_start c) (simulated f [])"
    and "\<forall>i < cursor. expanded c f st i" "cursor \<le> length (ss_search st)"
  shows "holds (search_loop c f cursor st) b (\<lambda>r b'. decides c f r)"
  using assms
proof (induction c f cursor st b rule: search_loop.induct)
  case (1 c f cursor st b)
  show ?case
  proof (cases "cursor < length (ss_search st)")
    case False
    with 1(7) have "cursor = length (ss_search st)" by simp
    with 1(6) search_complete [OF _ 1(5,4)] have "nfa_included c f" by simp
    with False show ?thesis by (simp add: holds_def search_loop.simps return_p_def decides_def)
  next
    case True
    note step = search_step_holds [OF 1(2,3,4) True, of b]
    have "decides c f r" if "search_step c f cursor st b = Some (Inr (Inr r, b'))" for r b'
      using holdsD [OF step that] by (simp add: decides_def)
    moreover have "holds (search_loop c f (Suc cursor) st') b' (\<lambda>r b'. decides c f r)"
      if s: "search_step c f cursor st b = Some (Inr (Inl st', b'))" for st' b'
    proof -
      from holdsD [OF step s] have st': "search_inv c f st'" "grows st st'" "expanded c f st' cursor" by simp_all
      have "\<forall>i < Suc cursor. expanded c f st' i"
        using st'(3) expanded_grows [OF _ st'(2)] 1(6) True by (auto simp: less_Suc_eq)
      moreover have "Suc cursor \<le> length (ss_search st')" using grows_nth [OF st'(2) True] by simp
      ultimately show ?thesis
        using 1(1) [OF True s refl refl] 1(2,3) st'(1) present_grows [OF 1(5) st'(2)] by blast
    qed
    ultimately show ?thesis
      using holds_not_None [OF step] True
      by (auto simp: holds_def search_loop.simps [of c f cursor st] bind_o_def return_p_def
          split: option.splits sum.splits)
  qed
qed

lemma check_nfa_inclusion_holds:
  assumes "nfa_wf c" "nfa_wf f"
  shows "holds (check_nfa_inclusion c f) b (\<lambda>r b'. decides c f r)"
proof -
  from assms(2) have start: "set [nf_start f] \<subseteq> {..<length (nf_edges f)}" by (simp add: nfa_wf_def)
  have "holds (bind_p (enqueue_node \<lparr>sn_candidate = nf_start c, sn_frozen = initial, sn_parent = None\<rparr> search_empty)
      (search_loop c f 0)) b (\<lambda>r b'. decides c f r)"
    if "sorted initial" "distinct initial" "set initial = simulated f []" for initial b
  proof -
    let ?node = "\<lparr>sn_candidate = nf_start c, sn_frozen = initial, sn_parent = None\<rparr>"
    have empty: "search_inv c f search_empty" by (simp add: search_inv_def search_empty_def)
    have "nf_start f \<in> simulated f []" by (simp add: simulated_Nil)
    with that have "node_ok c f (ss_search search_empty @ [?node]) (length (ss_search search_empty))"
      using node_word_root [of ?node] by (auto simp: search_empty_def node_ok_def intro: run_refl)
    from enqueue_node_holds [OF empty this, of b] show ?thesis
      unfolding holds_bind by (rule holds_mono) (use that assms in \<open>auto intro!: search_loop_holds\<close>)
  qed
  then show ?thesis
    unfolding check_nfa_inclusion_def holds_bind [where m = "nfa_closure f states" for states]
    by (intro holds_mono [OF closure_holds [OF assms(2) start]]) (simp add: simulated_Nil)
qed

end
