(* ===== verification/TraceLanguage.thy ===== *)
theory TraceLanguage
  imports TraceInclusion
begin

text \<open>
  The meaning of a trace descriptor and the automaton that \<open>Nfa::build\<close> makes of it. \<open>trace_lang\<close> is the set
  of label sequences a trace describes. During the construction the automaton together with the work
  still to do accepts the language of the root: a work item is an edge that reads any word of its trace.
\<close>

section \<open>The language of a trace\<close>

definition row_labels :: "hasher \<Rightarrow> descriptor_graph \<Rightarrow> effect_row_info_ref \<Rightarrow> trace_label set" where
  "row_labels h g actions =
     {LabelAction c | row effect c. graph_effect_row g actions = Some row \<and> effect \<in> set (er_effects row) \<and>
        canonical_effect_of h g effect = Some (Inr c)}"

definition call_labels :: "hasher \<Rightarrow> descriptor_graph \<Rightarrow> parameter_call_info list \<Rightarrow> trace_label set" where
  "call_labels h g calls =
     {LabelParameterCall c | call c. call \<in> set calls \<and> parameter_call_label h g call = Some (Inr c)}"

inductive trace_lang :: "hasher \<Rightarrow> descriptor_graph \<Rightarrow> trace_info_ref \<Rightarrow> trace_label list \<Rightarrow> bool" for h g where
  lang_empty: "graph_trace g r = Some TraceEmpty \<Longrightarrow> trace_lang h g r []"
| lang_event:
    "graph_trace g r = Some (TraceEvent effect) \<Longrightarrow> canonical_effect_of h g effect = Some (Inr c) \<Longrightarrow>
     trace_lang h g r [LabelAction c]"
| lang_outcome:
    "graph_trace g r = Some (TraceOutcome outcome) \<Longrightarrow> outcome_label h g outcome = Some (Inr l) \<Longrightarrow>
     trace_lang h g r [l]"
| lang_call:
    "graph_trace g r = Some (TraceParameterCall call) \<Longrightarrow> parameter_call_label h g call = Some (Inr c) \<Longrightarrow>
     trace_lang h g r [LabelParameterCall c]"
| lang_seq:
    "graph_trace g r = Some (TraceSeq parts) \<Longrightarrow> list_all2 (trace_lang h g) parts ws \<Longrightarrow>
     trace_lang h g r (concat ws)"
| lang_choice:
    "graph_trace g r = Some (TraceChoice parts) \<Longrightarrow> part \<in> set parts \<Longrightarrow> trace_lang h g part w \<Longrightarrow>
     trace_lang h g r w"
| lang_repeat:
    "graph_trace g r = Some (TraceRepeat inner) \<Longrightarrow> list_all (trace_lang h g inner) ws \<Longrightarrow>
     trace_lang h g r (concat ws)"
| lang_unknown:
    "graph_trace g r = Some (TraceUnknownOrder actions) \<Longrightarrow> set w \<subseteq> row_labels h g actions \<Longrightarrow>
     trace_lang h g r w"
| lang_widened:
    "graph_trace g r = Some (TraceWidened actions calls) \<Longrightarrow>
     set w \<subseteq> row_labels h g actions \<union> call_labels h g calls \<Longrightarrow> trace_lang h g r w"

text \<open>The language by the form of the trace.\<close>

lemma trace_lang_iffs:
  "graph_trace g r = Some TraceEmpty \<Longrightarrow> trace_lang h g r w \<longleftrightarrow> w = []"
  "graph_trace g r = Some (TraceEvent effect) \<Longrightarrow>
   trace_lang h g r w \<longleftrightarrow> (\<exists>c. canonical_effect_of h g effect = Some (Inr c) \<and> w = [LabelAction c])"
  "graph_trace g r = Some (TraceOutcome outcome) \<Longrightarrow>
   trace_lang h g r w \<longleftrightarrow> (\<exists>l. outcome_label h g outcome = Some (Inr l) \<and> w = [l])"
  "graph_trace g r = Some (TraceParameterCall call) \<Longrightarrow>
   trace_lang h g r w \<longleftrightarrow> (\<exists>c. parameter_call_label h g call = Some (Inr c) \<and> w = [LabelParameterCall c])"
  "graph_trace g r = Some (TraceSeq parts) \<Longrightarrow>
   trace_lang h g r w \<longleftrightarrow> (\<exists>ws. list_all2 (trace_lang h g) parts ws \<and> w = concat ws)"
  "graph_trace g r = Some (TraceChoice parts) \<Longrightarrow> trace_lang h g r w \<longleftrightarrow> (\<exists>part\<in>set parts. trace_lang h g part w)"
  "graph_trace g r = Some (TraceRepeat inner) \<Longrightarrow>
   trace_lang h g r w \<longleftrightarrow> (\<exists>ws. list_all (trace_lang h g inner) ws \<and> w = concat ws)"
  "graph_trace g r = Some (TraceUnknownOrder actions) \<Longrightarrow> trace_lang h g r w \<longleftrightarrow> set w \<subseteq> row_labels h g actions"
  "graph_trace g r = Some (TraceWidened actions calls) \<Longrightarrow>
   trace_lang h g r w \<longleftrightarrow> set w \<subseteq> row_labels h g actions \<union> call_labels h g calls"
  by (subst trace_lang.simps; auto)+

definition lang :: "hasher \<Rightarrow> descriptor_graph \<Rightarrow> trace_info_ref \<Rightarrow> trace_label list set" where
  "lang h g r = {w. trace_lang h g r w}"

section \<open>Automata with languages on their edges\<close>

type_synonym gen_edge = "nat \<times> trace_label list \<times> nat"

inductive acc :: "gen_edge set \<Rightarrow> nat \<Rightarrow> nat \<Rightarrow> trace_label list \<Rightarrow> bool" for G final where
  acc_final: "acc G final final []"
| acc_step: "(p, u, q) \<in> G \<Longrightarrow> acc G final q v \<Longrightarrow> acc G final p (u @ v)"

lemma acc_least:
  assumes "acc G final p w" "X final []"
    and "\<And>p u q v. (p, u, q) \<in> G \<Longrightarrow> X q v \<Longrightarrow> X p (u @ v)"
  shows "X p w"
  using assms(1) by induction (use assms(2,3) in blast)+

lemma acc_mono: "acc G final p w \<Longrightarrow> G \<subseteq> H \<Longrightarrow> acc H final p w"
  by (induction rule: acc.induct) (auto intro: acc.intros)

definition between :: "nat \<Rightarrow> trace_label list set \<Rightarrow> nat \<Rightarrow> gen_edge set" where
  "between p L q = {(p, u, q) | u. u \<in> L}"

definition conc :: "trace_label list set \<Rightarrow> trace_label list set \<Rightarrow> trace_label list set" where
  "conc L M = {u @ v | u v. u \<in> L \<and> v \<in> M}"

definition star :: "trace_label list set \<Rightarrow> trace_label list set" where
  "star L = {concat ws | ws. set ws \<subseteq> L}"

lemma star_Nil: "[] \<in> star L"
  unfolding star_def by (auto intro: exI [of _ "[]"])

lemma star_step: "u \<in> L \<Longrightarrow> v \<in> star L \<Longrightarrow> u @ v \<in> star L"
proof -
  assume u: "u \<in> L" and "v \<in> star L"
  then obtain ws where "v = concat ws" "set ws \<subseteq> L" by (auto simp: star_def)
  with u have "u @ v = concat (u # ws) \<and> set (u # ws) \<subseteq> L" by simp
  then show ?thesis unfolding star_def by blast
qed

lemma star_induct: "w \<in> star L \<Longrightarrow> P [] \<Longrightarrow> (\<And>u v. u \<in> L \<Longrightarrow> v \<in> star L \<Longrightarrow> P v \<Longrightarrow> P (u @ v)) \<Longrightarrow> P w"
proof -
  assume "w \<in> star L" and base: "P []" and step: "\<And>u v. u \<in> L \<Longrightarrow> v \<in> star L \<Longrightarrow> P v \<Longrightarrow> P (u @ v)"
  then obtain ws where "w = concat ws" "set ws \<subseteq> L" by (auto simp: star_def)
  moreover have "P (concat ws)" if "set ws \<subseteq> L" for ws
    using that
  proof (induction ws)
    case (Cons u ws)
    then have "concat ws \<in> star L" by (auto simp: star_def)
    with Cons step show ?case by simp
  qed (simp add: base)
  ultimately show ?thesis by simp
qed

text \<open>Replacing an edge by others that simulate it loses no word.\<close>

lemma acc_simulate:
  assumes "acc (G \<union> between s L e) final p w" "G \<subseteq> H"
    and "\<And>u v. u \<in> L \<Longrightarrow> acc H final e v \<Longrightarrow> acc H final s (u @ v)"
  shows "acc H final p w"
  using assms(1)
proof (rule acc_least)
  fix p u q v assume "(p, u, q) \<in> G \<union> between s L e" "acc H final q v"
  with assms(2,3) show "acc H final p (u @ v)" by (auto simp: between_def intro: acc_step)
qed (rule acc_final)

definition fresh :: "nat \<Rightarrow> gen_edge set \<Rightarrow> bool" where
  "fresh t G \<longleftrightarrow> (\<forall>p u q. (p, u, q) \<in> G \<longrightarrow> p \<noteq> t \<and> q \<noteq> t)"

text \<open>An edge with a concatenation goes through a fresh state.\<close>

lemma acc_split:
  assumes "fresh t G" "t \<noteq> s" "t \<noteq> e" "t \<noteq> final" "p \<noteq> t"
  shows "acc (G \<union> between s L t \<union> between t M e) final p w \<longleftrightarrow> acc (G \<union> between s (conc L M) e) final p w"
    (is "acc ?new final p w \<longleftrightarrow> acc ?old final p w")
proof
  assume "acc ?old final p w"
  then show "acc ?new final p w"
  proof (rule acc_simulate)
    fix u v assume "u \<in> conc L M" and v: "acc ?new final e v"
    then obtain a b where u: "u = a @ b" and "(s, a, t) \<in> ?new" "(t, b, e) \<in> ?new"
      by (auto simp: conc_def between_def)
    then have "acc ?new final s (a @ (b @ v))" using v by (blast intro: acc_step)
    with u show "acc ?new final s (u @ v)" by simp
  qed auto
next
  define X where "X p w = (if p = t then \<exists>b v. w = b @ v \<and> b \<in> M \<and> acc ?old final e v else acc ?old final p w)" for p w
  assume "acc ?new final p w"
  then have "X p w"
  proof (rule acc_least)
    show "X final []" using assms(4) by (auto simp: X_def intro: acc_final)
  next
    fix p u q v assume edge: "(p, u, q) \<in> ?new" and X: "X q v"
    consider "(p, u, q) \<in> G" | "p = s" "u \<in> L" "q = t" | "p = t" "u \<in> M" "q = e"
      using edge by (auto simp: between_def)
    then show "X p (u @ v)"
    proof cases
      case 1
      with assms(1) have "p \<noteq> t" "q \<noteq> t" by (auto simp: fresh_def)
      with 1 X show ?thesis by (auto simp: X_def intro: acc_step)
    next
      case 2
      with X obtain b v' where "v = b @ v'" "b \<in> M" "acc ?old final e v'" by (auto simp: X_def)
      moreover from this 2 have "u @ b \<in> conc L M" by (auto simp: conc_def)
      then have "(s, u @ b, e) \<in> ?old" by (simp add: between_def)
      ultimately have "acc ?old final s ((u @ b) @ v')" by (blast intro: acc_step)
      with 2 \<open>v = b @ v'\<close> assms(2) show ?thesis by (simp add: X_def)
    next
      case 3
      with X assms(3) show ?thesis by (auto simp: X_def)
    qed
  qed
  with assms(5) show "acc ?old final p w" by (simp add: X_def)
qed

text \<open>An edge with a repetition goes through a loop over two fresh states.\<close>

lemma acc_repeat:
  assumes "fresh i G" "fresh j G" "i \<noteq> j" "i \<noteq> s" "i \<noteq> e" "j \<noteq> s" "j \<noteq> e" "i \<noteq> final" "j \<noteq> final"
    and "p \<noteq> i" "p \<noteq> j"
  shows "acc (G \<union> {(s, [], e), (s, [], i), (j, [], i), (j, [], e)} \<union> between i L j) final p w \<longleftrightarrow>
    acc (G \<union> between s (star L) e) final p w" (is "acc ?new final p w \<longleftrightarrow> acc ?old final p w")
proof
  assume "acc ?old final p w"
  then show "acc ?new final p w"
  proof (rule acc_simulate)
    fix u v assume u: "u \<in> star L" and v: "acc ?new final e v"
    have edge: "acc ?new final q x" if "(q, [], q') \<in> ?new" "acc ?new final q' x" for q q' x
      using acc_step [OF that] by simp
    have enter: "acc ?new final i (x @ y @ v)" if "x \<in> L" "acc ?new final j (y @ v)" for x y
      using that(1) by (intro acc_step [OF _ that(2)]) (simp add: between_def)
    have loop: "acc ?new final j (y @ v)" if "y \<in> star L" for y
      using that
    proof (rule star_induct)
      show "acc ?new final j ([] @ v)" using edge [of j e v] v by simp
    next
      fix x y assume "x \<in> L" "acc ?new final j (y @ v)"
      from edge [OF _ enter [OF this], of j] show "acc ?new final j ((x @ y) @ v)" by simp
    qed
    show "acc ?new final s (u @ v)"
      using u
    proof (rule star_induct)
      show "acc ?new final s ([] @ v)" using edge [of s e v] v by simp
    next
      fix x y assume "x \<in> L" "y \<in> star L"
      from edge [OF _ enter [OF this(1) loop [OF this(2)]], of s] show "acc ?new final s ((x @ y) @ v)" by simp
    qed
  qed auto
next
  define X where "X p w =
    (if p = i then \<exists>a b v. w = a @ b @ v \<and> a \<in> L \<and> b \<in> star L \<and> acc ?old final e v
     else if p = j then \<exists>b v. w = b @ v \<and> b \<in> star L \<and> acc ?old final e v
     else acc ?old final p w)" for p w
  have old: "acc ?old final s (b @ v)" if "b \<in> star L" "acc ?old final e v" for b v
    using that by (intro acc_step [OF _ that(2)]) (simp add: between_def)
  assume "acc ?new final p w"
  then have "X p w"
  proof (rule acc_least)
    show "X final []" using assms(8,9) by (auto simp: X_def intro: acc_final)
  next
    fix p u q v assume edge: "(p, u, q) \<in> ?new" and X: "X q v"
    consider "(p, u, q) \<in> G" | "p = s" "u = []" "q = e" | "p = s" "u = []" "q = i" | "p = j" "u = []" "q = i"
      | "p = j" "u = []" "q = e" | "p = i" "u \<in> L" "q = j"
      using edge by (auto simp: between_def)
    then show "X p (u @ v)"
    proof cases
      case 1
      with assms(1,2) have "p \<noteq> i" "q \<noteq> i" "p \<noteq> j" "q \<noteq> j" by (auto simp: fresh_def)
      with 1 X show ?thesis by (auto simp: X_def intro: acc_step)
    next
      case 2
      with X assms(4-7) old [OF star_Nil, of v] show ?thesis by (simp add: X_def)
    next
      case 3
      with X obtain a b v' where "v = (a @ b) @ v'" "a @ b \<in> star L" "acc ?old final e v'"
        by (auto simp: X_def dest: star_step)
      with old [of "a @ b" v'] 3 assms(4,6) show ?thesis by (simp add: X_def)
    next
      case 4
      with X obtain a b v' where "v = (a @ b) @ v'" "a @ b \<in> star L" "acc ?old final e v'"
        by (auto simp: X_def dest: star_step)
      then have "\<exists>c v'. u @ v = c @ v' \<and> c \<in> star L \<and> acc ?old final e v'"
        using 4 by (intro exI [of _ "a @ b"] exI [of _ v']) simp
      with 4 assms(3) show ?thesis by (simp add: X_def)
    next
      case 5
      with X assms(3,5,7) show ?thesis by (auto simp: X_def intro: star_Nil)
    next
      case 6
      with X assms(3) show ?thesis by (auto simp: X_def)
    qed
  qed
  with assms(10,11) show "acc ?old final p w" by (simp add: X_def)
qed

text \<open>
  A footprint: self-loops at the start of the edge. They lose no word, and they add none if the edge is
  the only one that leaves its start.
\<close>

definition letters :: "trace_label set \<Rightarrow> trace_label list set" where
  "letters A = {w. set w \<subseteq> A}"

lemma acc_footprint_complete:
  assumes "acc (G \<union> between s (letters A) e) final p w"
  shows "acc (G \<union> between s {[l] | l. l \<in> A} s \<union> {(s, [], e)}) final p w" (is "acc ?new final p w")
  using assms
proof (rule acc_simulate)
  fix u v assume "u \<in> letters A" and v: "acc ?new final e v"
  then have "set u \<subseteq> A" by (simp add: letters_def)
  then show "acc ?new final s (u @ v)"
  proof (induction u)
    case Nil
    have "acc ?new final s ([] @ v)" by (intro acc_step [OF _ v]) simp
    then show ?case .
  next
    case (Cons l u)
    then have "acc ?new final s (u @ v)" by simp
    moreover from Cons.prems have "(s, [l], s) \<in> ?new" by (simp add: between_def)
    ultimately have "acc ?new final s ([l] @ (u @ v))" by (blast intro: acc_step)
    then show ?case by simp
  qed
qed auto

lemma acc_footprint_sound:
  assumes "acc (G \<union> between s {[l] | l. l \<in> A} s \<union> {(s, [], e)}) final p w"
    and "\<And>u q. (s, u, q) \<notin> G" "s \<noteq> final"
  shows "acc (G \<union> between s (letters A) e) final p w" (is "acc ?old final p w")
  using assms(1)
proof (rule acc_least)
  fix p u q v assume edge: "(p, u, q) \<in> G \<union> between s {[l] | l. l \<in> A} s \<union> {(s, [], e)}" and v: "acc ?old final q v"
  consider "(p, u, q) \<in> G" | l where "p = s" "u = [l]" "l \<in> A" "q = s" | "p = s" "u = []" "q = e"
    using edge by (auto simp: between_def)
  then show "acc ?old final p (u @ v)"
  proof cases
    case 1
    with v show ?thesis by (auto intro: acc_step)
  next
    case 2
    from v 2 obtain a v' where "v = a @ v'" "a \<in> letters A" "acc ?old final e v'"
      using assms(2,3) by (auto simp: between_def elim: acc.cases)
    moreover from this 2 have "(s, l # a, e) \<in> ?old" by (simp add: between_def letters_def)
    ultimately have "acc ?old final s ((l # a) @ v')" by (blast intro: acc_step)
    with 2 \<open>v = a @ v'\<close> show ?thesis by simp
  next
    case 3
    then have "(s, u, e) \<in> ?old" by (simp add: between_def letters_def)
    from acc_step [OF this] v 3 show ?thesis by simp
  qed
qed (rule acc_final)

section \<open>What the operations of the construction return\<close>

definition total_charge :: "unit prover \<Rightarrow> bool" where
  "total_charge m \<longleftrightarrow> (\<forall>b Q. (\<forall>b'. Q () b') \<longrightarrow> holds m b Q)"

named_theorems charges \<open>computations that only charge\<close>

lemma total_charge_holds: "total_charge m \<Longrightarrow> (\<And>b'. Q () b') \<Longrightarrow> holds m b Q"
  by (simp add: total_charge_def)

lemma total_charge_charge [charges]: "total_charge (charge k)"
  by (simp add: total_charge_def holds_charge)

lemma total_charge_return [charges]: "total_charge (return_p u)"
  by (simp add: total_charge_def)

lemma total_charge_bind [charges]: "total_charge m \<Longrightarrow> (\<And>u. total_charge (f u)) \<Longrightarrow> total_charge (bind_p m f)"
  by (simp add: total_charge_def)

lemma total_charge_fold [charges]: "(\<And>x u. total_charge (f x u)) \<Longrightarrow> total_charge (fold_p f xs u)"
  by (induction xs) (auto intro: charges)

lemma total_charge_graph [charges]: "total_charge (charge_graph g)"
  unfolding charge_graph_def by (intro charges)

lemma total_charge_argument [charges]: "total_charge (charge_argument g argument u)"
  unfolding charge_argument_def by (cases argument) (auto intro: charges)

lemma total_charge_effect [charges]: "total_charge (charge_effect g effect)"
  unfolding charge_effect_def by (intro charges)

lemma total_charge_arm [charges]: "total_charge (charge_arm g arm u)"
  unfolding charge_arm_def by (intro charges)

lemma total_charge_handler [charges]: "total_charge (charge_handler g handler u)"
  unfolding charge_handler_def by (cases handler) (auto intro: charges)

lemma total_charge_call [charges]: "total_charge (charge_call g call)"
  unfolding charge_call_def by (intro charges)

lemma total_charge_outcome [charges]: "total_charge (charge_outcome g outcome)"
  unfolding charge_outcome_def
  by (auto intro: charges split: callable_outcome_info.split return_observation_info.split)

text \<open>The labels of a graph can be computed: no fingerprint panics.\<close>

definition labels_total :: "hasher \<Rightarrow> descriptor_graph \<Rightarrow> bool" where
  "labels_total h g \<longleftrightarrow> (\<forall>ty. type_fingerprint h g ty \<noteq> None) \<and> (\<forall>trace. trace_fingerprint h g trace \<noteq> None)"

lemmas returns = bind_o_not_None [unfolded not_None_eq] collect_o_not_None [unfolded not_None_eq]

lemma canonical_effect_total: "labels_total h g \<Longrightarrow> canonical_effect_of h g effect \<noteq> None"
proof -
  assume "labels_total h g"
  then have "\<exists>y. canonical_selector_of h g argument = Some y" for argument
    by (cases argument) (simp_all add: canonical_selector_of_def returns labels_total_def)
  then show ?thesis by (simp add: canonical_effect_of_def returns)
qed

lemma parameter_call_total: "labels_total h g \<Longrightarrow> parameter_call_label h g call \<noteq> None"
proof -
  assume total: "labels_total h g"
  from canonical_effect_total [OF total] total
  have "\<exists>y. handler_arm_label_of h g arm = Some y" for arm
    by (simp add: handler_arm_label_of_def returns labels_total_def)
  then have "\<exists>y. (case handler of ScopeHandle arms \<Rightarrow>
      bind_o (collect_o (handler_arm_label_of h g) arms) (\<lambda>arms. Some (Inr (HandleLabel arms)))) = Some y" for handler
    by (cases handler) (simp add: returns)
  then have "\<exists>y. handler_scope_labels h g call = Some y"
    by (cases "pc_handlers call") (simp_all add: handler_scope_labels_def returns)
  with total show ?thesis by (simp add: parameter_call_label_def returns labels_total_def)
qed

lemma outcome_label_total: "labels_total h g \<Longrightarrow> outcome_label h g outcome \<noteq> None"
  using parameter_call_total by (cases outcome) (simp_all add: outcome_label_def returns labels_total_def)

text \<open>The label that a source stands for, and the cache that holds only those.\<close>

definition ok_value :: "('e + 'a) option \<Rightarrow> 'a option" where
  "ok_value r = (case r of Some (Inr a) \<Rightarrow> Some a | _ \<Rightarrow> None)"

lemma ok_value_Some: "ok_value r = Some a \<longleftrightarrow> r = Some (Inr a)"
  by (auto simp: ok_value_def split: option.splits sum.splits)

fun source_label :: "hasher \<Rightarrow> descriptor_graph \<Rightarrow> label_source \<Rightarrow> trace_label option" where
  "source_label h g (SourceTrace r) =
     (case graph_trace g r of
        Some (TraceEvent effect) \<Rightarrow> map_option LabelAction (ok_value (canonical_effect_of h g effect))
      | Some (TraceOutcome outcome) \<Rightarrow> ok_value (outcome_label h g outcome)
      | Some (TraceParameterCall call) \<Rightarrow> map_option LabelParameterCall (ok_value (parameter_call_label h g call))
      | _ \<Rightarrow> None)"
| "source_label h g (SourceRow actions index) =
     (case graph_effect_row g actions of
        Some row \<Rightarrow>
          if index < length (er_effects row)
          then map_option LabelAction (ok_value (canonical_effect_of h g (er_effects row ! index))) else None
      | None \<Rightarrow> None)"
| "source_label h g (SourceParameter r index) =
     (case graph_trace g r of
        Some (TraceWidened actions calls) \<Rightarrow>
          if index < length calls
          then map_option LabelParameterCall (ok_value (parameter_call_label h g (calls ! index))) else None
      | _ \<Rightarrow> None)"

definition labels_ok :: "hasher \<Rightarrow> descriptor_graph \<Rightarrow> nfa \<Rightarrow> bool" where
  "labels_ok h g n \<longleftrightarrow> (\<forall>source label. nf_labels n source = Some label \<longrightarrow> source_label h g source = Some (co_value label))"

definition nfa_gen :: "nfa \<Rightarrow> gen_edge set" where
  "nfa_gen n = {(p, edge_word e, ed_to e) | p e. nfa_edge_at n p e}"

text \<open>\<open>adds h g n A k n'\<close>: \<open>n'\<close> is \<open>n\<close> with the edges \<open>A\<close> and \<open>k\<close> states more.\<close>

definition adds :: "hasher \<Rightarrow> descriptor_graph \<Rightarrow> nfa \<Rightarrow> gen_edge set \<Rightarrow> nat \<Rightarrow> nfa \<Rightarrow> bool" where
  "adds h g n A k n' \<longleftrightarrow>
     nfa_gen n' = nfa_gen n \<union> A \<and> length (nf_edges n') = length (nf_edges n) + k \<and>
     nf_start n' = nf_start n \<and> nf_end n' = nf_end n \<and> labels_ok h g n'"

lemma adds_refl: "labels_ok h g n \<Longrightarrow> adds h g n {} 0 n"
  by (simp add: adds_def)

lemma adds_trans: "adds h g n A j n1 \<Longrightarrow> adds h g n1 B k n2 \<Longrightarrow> adds h g n (A \<union> B) (j + k) n2"
  by (simp add: adds_def Un_assoc)

lemma nfa_gen_grow: "nfa_gen (n\<lparr>nf_edges := nf_edges n @ [[]]\<rparr>) = nfa_gen n"
  by (fastforce simp: nfa_gen_def nfa_edge_at_def nth_append less_Suc_eq)

lemma state_holds:
  "labels_ok h g n \<Longrightarrow>
   holds (nfa_state n) b (\<lambda>(s, n') b'. s = length (nf_edges n) \<and> adds h g n {} 1 n')"
  by (simp add: nfa_state_def holds_limits adds_def nfa_gen_grow labels_ok_def holds_charge)

lemma nfa_gen_add_edge:
  assumes "s < length (nf_edges n)"
  shows "nfa_gen (n\<lparr>nf_transitions := m, nf_edges := (nf_edges n)[s := nf_edges n ! s @ [e]]\<rparr>) =
    insert (s, edge_word e, ed_to e) (nfa_gen n)"
proof -
  have "nfa_edge_at (n\<lparr>nf_transitions := m, nf_edges := (nf_edges n)[s := nf_edges n ! s @ [e]]\<rparr>) p d \<longleftrightarrow>
      nfa_edge_at n p d \<or> p = s \<and> d = e" for p d
    using assms by (auto simp: nfa_edge_at_def nth_list_update split: if_splits)
  then show ?thesis by (auto simp: nfa_gen_def)
qed

lemma add_edge_holds:
  assumes "s < length (nf_edges n)" "labels_ok h g n"
  shows "holds (nfa_add_edge s t label source n) b
    (\<lambda>n' b'. adds h g n {(s, case label of None \<Rightarrow> [] | Some l \<Rightarrow> [co_value l], t)} 0 n')"
  using assms nfa_gen_add_edge [OF assms(1), where m = "Suc (nf_transitions n)"
      and e = "\<lparr>ed_label = label, ed_to = t, ed_source = source\<rparr>"]
  by (simp add: nfa_add_edge_def holds_limits adds_def labels_ok_def holds_charge edge_word_def)

lemma insert_label_adds:
  assumes "labels_ok h g n" "source_label h g source = Some l" "insert_label source l n = (compiled, n')"
  shows "adds h g n {} 0 n' \<and> co_value compiled = l"
proof -
  have "nfa_gen (n\<lparr>nf_labels := m\<rparr>) = nfa_gen n" for m by (simp add: nfa_gen_def nfa_edge_at_def)
  with assms show ?thesis
    by (auto simp: insert_label_def Let_def adds_def labels_ok_def compiled_label_new_def split: if_splits)
qed

text \<open>The three ways to a label agree: the cached or computed label is the one of its source.\<close>

lemma action_label_holds:
  assumes "labels_total h g" "labels_ok h g n"
    and "source_label h g source = map_option LabelAction (ok_value (canonical_effect_of h g effect))"
  shows "holds (action_label h g source effect n) b
    (\<lambda>(l, n') b'. adds h g n {} 0 n' \<and> (\<exists>c. canonical_effect_of h g effect = Some (Inr c) \<and> co_value l = LabelAction c))"
proof (cases "nf_labels n source")
  case (Some l)
  with assms(2) have "source_label h g source = Some (co_value l)" unfolding labels_ok_def by blast
  from trans [OF assms(3) [symmetric] this] have "\<exists>c. canonical_effect_of h g effect = Some (Inr c) \<and> co_value l = LabelAction c"
    by (auto simp: ok_value_Some)
  with Some assms(2) show ?thesis by (simp add: action_label_def holds_charge adds_refl)
next
  case None
  have "adds h g n {} 0 n' \<and> co_value l = LabelAction c"
    if "canonical_effect_of h g effect = Some (Inr c)" "insert_label source (LabelAction c) n = (l, n')" for c l n'
    using that assms by (intro insert_label_adds) (simp_all add: ok_value_def)
  with None canonical_effect_total [OF assms(1)] show ?thesis
    by (auto simp: action_label_def intro!: holds_charge total_charge_holds [OF total_charge_effect] split: prod.split)
qed

lemma call_label_holds:
  assumes "labels_total h g" "labels_ok h g n"
    and "source_label h g source = map_option LabelParameterCall (ok_value (parameter_call_label h g call))"
  shows "holds (nfa_call_label h g source call n) b
    (\<lambda>(l, n') b'. adds h g n {} 0 n' \<and> (\<exists>c. parameter_call_label h g call = Some (Inr c) \<and> co_value l = LabelParameterCall c))"
proof (cases "nf_labels n source")
  case (Some l)
  with assms(2) have "source_label h g source = Some (co_value l)" unfolding labels_ok_def by blast
  from trans [OF assms(3) [symmetric] this] have "\<exists>c. parameter_call_label h g call = Some (Inr c) \<and> co_value l = LabelParameterCall c"
    by (auto simp: ok_value_Some)
  with Some assms(2) show ?thesis by (simp add: nfa_call_label_def holds_charge adds_refl)
next
  case None
  have "adds h g n {} 0 n' \<and> co_value l = LabelParameterCall c"
    if "parameter_call_label h g call = Some (Inr c)" "insert_label source (LabelParameterCall c) n = (l, n')" for c l n'
    using that assms by (intro insert_label_adds) (simp_all add: ok_value_def)
  with None parameter_call_total [OF assms(1)] show ?thesis
    by (auto simp: nfa_call_label_def intro!: holds_charge total_charge_holds [OF total_charge_call] split: prod.split)
qed

lemma outcome_entry_holds:
  assumes "labels_total h g" "labels_ok h g n" "graph_trace g r = Some (TraceOutcome outcome)"
  shows "holds (outcome_entry h g r outcome n) b
    (\<lambda>(l, n') b'. adds h g n {} 0 n' \<and> outcome_label h g outcome = Some (Inr (co_value l)))"
proof -
  have source: "source_label h g (SourceTrace r) = ok_value (outcome_label h g outcome)"
    using assms(3) by simp
  show ?thesis
  proof (cases "nf_labels n (SourceTrace r)")
    case (Some l)
    with assms(2) have "source_label h g (SourceTrace r) = Some (co_value l)" unfolding labels_ok_def by blast
    with source have "outcome_label h g outcome = Some (Inr (co_value l))" by (simp add: ok_value_Some)
    with Some assms(2) show ?thesis by (simp add: outcome_entry_def adds_refl)
  next
    case None
    have "adds h g n {} 0 n' \<and> co_value l = l'"
      if "outcome_label h g outcome = Some (Inr l')" "insert_label (SourceTrace r) l' n = (l, n')" for l l' n'
      using that assms(2) source by (intro insert_label_adds) (simp_all add: ok_value_def del: source_label.simps)
    with None outcome_label_total [OF assms(1)] show ?thesis
      by (auto simp: outcome_entry_def intro!: total_charge_holds [OF total_charge_outcome] split: prod.split)
  qed
qed

lemma labelled_edge_holds:
  assumes "s < length (nf_edges n0)" "adds h g n0 A k n"
  shows "holds (labelled_edge s t source (l, n)) b (\<lambda>n' b'. adds h g n0 (A \<union> {(s, [co_value l], t)}) k n')"
proof -
  from assms have "s < length (nf_edges n)" "labels_ok h g n" by (simp_all add: adds_def)
  from add_edge_holds [OF this, of t "Some l" source b] show ?thesis
    unfolding labelled_edge_def prod.case by (rule holds_mono) (use adds_trans [OF assms(2)] in fastforce)
qed

lemma silent_edge_holds:
  assumes "s < length (nf_edges n)" "adds h g n0 A k n"
  shows "holds (nfa_add_edge s t None source n) b (\<lambda>n' b'. adds h g n0 (A \<union> {(s, [], t)}) k n')"
proof -
  from assms(2) have "labels_ok h g n" by (simp add: adds_def)
  from add_edge_holds [OF assms(1) this, of t None source b] show ?thesis
    by (rule holds_mono) (use adds_trans [OF assms(2)] in fastforce)
qed

lemma next_state_holds:
  assumes "adds h g n0 A k n"
  shows "holds (nfa_state n) b (\<lambda>(s, n') b'. s = length (nf_edges n0) + k \<and> adds h g n0 A (Suc k) n')"
proof -
  from assms have "labels_ok h g n" "length (nf_edges n) = length (nf_edges n0) + k" by (simp_all add: adds_def)
  from state_holds [OF this(1), of b] this(2) show ?thesis
    by (elim holds_mono) (use adds_trans [OF assms] in fastforce)
qed

text \<open>The self-loops of a footprint: one per effect of the row, one per parameter call.\<close>

lemma enumerate_split: "enumerate 0 xs = ys @ (i, x) # zs \<Longrightarrow> i < length xs \<and> xs ! i = x \<and> map snd ys = take i xs"
proof -
  assume eq: "enumerate 0 xs = ys @ (i, x) # zs"
  then have len: "length ys < length xs" by (metis length_append length_enumerate list.size(4) less_add_same_cancel1 zero_less_Suc add_Suc_right)
  have "enumerate 0 xs ! length ys = (i, x)" by (simp add: eq)
  with len have i: "i = length ys" "xs ! i = x" by (auto simp: nth_enumerate_eq)
  have "map snd (take i (enumerate 0 xs)) = take i xs" by (metis map_snd_enumerate take_map)
  with i len eq show ?thesis by simp
qed

lemma loops_holds:
  assumes "adds h g n0 A k n" "s < length (nf_edges n0)"
    and label: "\<And>i x n b. i < length xs \<Longrightarrow> xs ! i = x \<Longrightarrow> labels_ok h g n \<Longrightarrow>
      holds (mk i x n) b (\<lambda>(l, n') b'. adds h g n {} 0 n' \<and> L x = {co_value l})"
  shows "holds (fold_p (\<lambda>(i, x) n. bind_p (mk i x n) (labelled_edge s s source)) (enumerate 0 xs) n) b
    (\<lambda>n' b'. adds h g n0 (A \<union> between s {[l] | l. l \<in> (\<Union>x\<in>set xs. L x)} s) k n')"
proof -
  let ?A = "\<lambda>ys. A \<union> between s {[l] | l. l \<in> (\<Union>x\<in>set (map snd ys). L x)} s"
  have "holds (fold_p (\<lambda>(i, x) n. bind_p (mk i x n) (labelled_edge s s source)) (enumerate 0 xs) n) b
    (\<lambda>n' b'. adds h g n0 (?A (enumerate 0 xs)) k n')"
  proof (rule holds_fold [where I = "\<lambda>ys n'. adds h g n0 (?A ys) k n'"])
    show "adds h g n0 (?A []) k n" using assms(1) by (simp add: between_def)
  next
    fix ys ix zs n1 b assume split: "enumerate 0 xs = ys @ ix # zs" and I: "adds h g n0 (?A ys) k n1"
    obtain i x where ix: "ix = (i, x)" by (cases ix)
    from enumerate_split [of xs ys i x zs] split ix have x: "i < length xs" "xs ! i = x" by simp_all
    from I have ok: "labels_ok h g n1" by (simp add: adds_def)
    have "holds (labelled_edge s s source (l, n2)) b' (\<lambda>n' b'. adds h g n0 (?A (ys @ [ix])) k n')"
      if "adds h g n1 {} 0 n2" "L x = {co_value l}" for l n2 b'
    proof -
      from adds_trans [OF I that(1)] have "adds h g n0 (?A ys) k n2" by simp
      from labelled_edge_holds [OF assms(2) this, of s source l b']
      show ?thesis
        by (rule holds_mono) (use that(2) ix in \<open>auto simp: between_def elim!: back_subst [of "\<lambda>A. adds h g n0 A k n'" for n']\<close>)
    qed
    with label [OF x ok, of b]
    have "holds (bind_p (mk i x n1) (labelled_edge s s source)) b (\<lambda>n' b'. adds h g n0 (?A (ys @ [ix])) k n')"
      unfolding holds_bind by (elim holds_mono) (auto split: prod.splits)
    then show "holds ((case ix of (i, x) \<Rightarrow> \<lambda>n. bind_p (mk i x n) (labelled_edge s s source)) n1) b
        (\<lambda>n' b'. adds h g n0 (?A (ys @ [ix])) k n')" by (simp add: ix)
  qed
  then show ?thesis by simp
qed

lemma footprint_holds:
  assumes total: "labels_total h g" and ok: "labels_ok h g n" and s: "s < length (nf_edges n)"
    and calls: "\<And>i. i < length calls \<Longrightarrow>
      source_label h g (SourceParameter r i) = map_option LabelParameterCall (ok_value (parameter_call_label h g (calls ! i)))"
  shows "holds (footprint h g actions calls r s e n) b
    (\<lambda>n' b'. adds h g n (between s {[l] | l. l \<in> row_labels h g actions \<union> call_labels h g calls} s \<union> {(s, [], e)}) 0 n')"
proof (cases "graph_effect_row g actions")
  case None
  then show ?thesis by (simp add: footprint_def)
next
  case (Some row)
  let ?R = "between s {[l] | l. l \<in> row_labels h g actions} s"
    and ?C = "between s {[l] | l. l \<in> call_labels h g calls} s"
  have "row_labels h g actions =
      (\<Union>effect\<in>set (er_effects row). {LabelAction c | c. canonical_effect_of h g effect = Some (Inr c)})"
    using Some by (auto simp: row_labels_def)
  then have rows: "holds (row_loops h g actions (er_effects row) r s n) b (\<lambda>n' b'. adds h g n ({} \<union> ?R) 0 n')" for b
    unfolding row_loops_def
  proof (simp only:, intro loops_holds [OF adds_refl [OF ok] s])
    fix i effect n b assume "i < length (er_effects row)" "er_effects row ! i = effect" "labels_ok h g n"
    with Some show "holds (action_label h g (SourceRow actions i) effect n) b (\<lambda>(l, n') b'.
        adds h g n {} 0 n' \<and> {LabelAction c | c. canonical_effect_of h g effect = Some (Inr c)} = {co_value l})"
      by (intro holds_mono [OF action_label_holds [OF total]]) auto
  qed
  have "call_labels h g calls = (\<Union>call\<in>set calls. {LabelParameterCall c | c. parameter_call_label h g call = Some (Inr c)})"
    by (auto simp: call_labels_def)
  then have calls: "holds (call_loops h g calls r s n') b (\<lambda>n'' b'. adds h g n (?R \<union> ?C) 0 n'')"
    if "adds h g n ?R 0 n'" for n' b
    unfolding call_loops_def
  proof (simp only:, intro loops_holds [OF that s])
    fix i call n b assume "i < length calls" "calls ! i = call" "labels_ok h g n"
    with calls [of i] show "holds (nfa_call_label h g (SourceParameter r i) call n) b (\<lambda>(l, n') b'.
        adds h g n {} 0 n' \<and> {LabelParameterCall c | c. parameter_call_label h g call = Some (Inr c)} = {co_value l})"
      by (intro holds_mono [OF call_label_holds [OF total]]) (auto simp del: source_label.simps)
  qed
  have final: "holds (nfa_add_edge s e None r n'') b (\<lambda>n' b'. adds h g n ((?R \<union> ?C) \<union> {(s, [], e)}) 0 n')"
    if "adds h g n (?R \<union> ?C) 0 n''" for n'' b
    using that s by (intro silent_edge_holds) (simp_all add: adds_def)
  have union: "between s {[l] | l. l \<in> row_labels h g actions \<union> call_labels h g calls} s = ?R \<union> ?C"
    by (auto simp: between_def)
  show ?thesis
    unfolding footprint_def Some option.case holds_bind union
    by (rule holds_mono [OF rows], simp only: Un_empty_left, rule holds_mono [OF calls], assumption, rule final)
qed

lemma repeat_states_holds:
  assumes ok: "labels_ok h g n" and s: "s < length (nf_edges n)"
  shows "holds (repeat_states r s e n) b (\<lambda>(i, j, n') b'.
    i = length (nf_edges n) \<and> j = Suc i \<and> adds h g n {(s, [], e), (s, [], i), (j, [], i), (j, [], e)} 2 n')"
proof -
  let ?i = "length (nf_edges n)"
  have edge: "holds (nfa_add_edge p q None r n1) b (\<lambda>n' b'. adds h g n (A \<union> {(p, [], q)}) 2 n')"
    if "adds h g n A 2 n1" "p < Suc (Suc ?i)" for p q A n1 b
    using that by (intro silent_edge_holds) (simp_all add: adds_def)
  have edges: "holds (bind_p (nfa_add_edge s e None r n1) (\<lambda>n.
      bind_p (nfa_add_edge s ?i None r n) (\<lambda>n.
      bind_p (nfa_add_edge (Suc ?i) ?i None r n) (\<lambda>n.
      bind_p (nfa_add_edge (Suc ?i) e None r n) (\<lambda>n. return_p (?i, Suc ?i, n)))))) b
    (\<lambda>(i, j, n') b'. i = ?i \<and> j = Suc i \<and> adds h g n {(s, [], e), (s, [], i), (j, [], i), (j, [], e)} 2 n')"
    if "adds h g n {} 2 n1" for n1 b
    unfolding holds_bind
    by (rule holds_mono [OF edge [OF that]], use s in simp,
        rule holds_mono [OF edge], assumption, use s in simp,
        rule holds_mono [OF edge], assumption, simp,
        rule holds_mono [OF edge], assumption, simp) (simp add: insert_commute)
  have second: "holds (bind_p (nfa_state n1) (\<lambda>(inner_end, n).
      bind_p (nfa_add_edge s e None r n) (\<lambda>n.
      bind_p (nfa_add_edge s ?i None r n) (\<lambda>n.
      bind_p (nfa_add_edge inner_end ?i None r n) (\<lambda>n.
      bind_p (nfa_add_edge inner_end e None r n) (\<lambda>n. return_p (?i, inner_end, n))))))) b
    (\<lambda>(i, j, n') b'. i = ?i \<and> j = Suc i \<and> adds h g n {(s, [], e), (s, [], i), (j, [], i), (j, [], e)} 2 n')"
    if "adds h g n {} 1 n1" for n1 b
    unfolding holds_bind [where m = "nfa_state n1"]
  proof (rule holds_mono [OF next_state_holds [OF that]])
    fix x and b' :: proof_budget assume x: "(case x of (j, n2) \<Rightarrow> \<lambda>b'. j = ?i + 1 \<and> adds h g n {} (Suc 1) n2) b'"
    obtain j n2 where "x = (j, n2)" by (cases x)
    with x have "x = (Suc ?i, n2)" "adds h g n {} 2 n2" by (simp_all add: numeral_2_eq_2)
    with edges [of n2 b'] show "holds (case x of (inner_end, n) \<Rightarrow>
      bind_p (nfa_add_edge s e None r n) (\<lambda>n.
      bind_p (nfa_add_edge s ?i None r n) (\<lambda>n.
      bind_p (nfa_add_edge inner_end ?i None r n) (\<lambda>n.
      bind_p (nfa_add_edge inner_end e None r n) (\<lambda>n. return_p (?i, inner_end, n)))))) b'
    (\<lambda>(i, j, n') b'. i = ?i \<and> j = Suc i \<and> adds h g n {(s, [], e), (s, [], i), (j, [], i), (j, [], e)} 2 n')"
      by (simp only: prod.case)
  qed
  show ?thesis
    unfolding repeat_states_def holds_bind [where m = "nfa_state n"]
  proof (rule holds_mono [OF next_state_holds [OF adds_refl [OF ok]]])
    fix x and b' :: proof_budget assume x: "(case x of (i, n1) \<Rightarrow> \<lambda>b'. i = ?i + 0 \<and> adds h g n {} (Suc 0) n1) b'"
    obtain i n1 where "x = (i, n1)" by (cases x)
    with x have "x = (?i, n1)" "adds h g n {} 1 n1" by simp_all
    with second [of n1 b'] show "holds (case x of (inner_start, n) \<Rightarrow>
      bind_p (nfa_state n) (\<lambda>(inner_end, n).
      bind_p (nfa_add_edge s e None r n) (\<lambda>n.
      bind_p (nfa_add_edge s inner_start None r n) (\<lambda>n.
      bind_p (nfa_add_edge inner_end inner_start None r n) (\<lambda>n.
      bind_p (nfa_add_edge inner_end e None r n) (\<lambda>n. return_p (inner_start, inner_end, n))))))) b'
    (\<lambda>(i, j, n') b'. i = ?i \<and> j = Suc i \<and> adds h g n {(s, [], e), (s, [], i), (j, [], i), (j, [], e)} 2 n')"
      by (simp only: prod.case)
  qed
qed

section \<open>The automaton and the work still to do\<close>

text \<open>
  \<open>exposed g r\<close>: the construction of the trace puts self-loops on the state where it starts.
  \<open>choices_plain g\<close>: no alternative of a choice does so, unless it is the only one.
\<close>

inductive exposed :: "descriptor_graph \<Rightarrow> trace_info_ref \<Rightarrow> bool" for g where
  exposed_unknown: "graph_trace g r = Some (TraceUnknownOrder actions) \<Longrightarrow> exposed g r"
| exposed_widened: "graph_trace g r = Some (TraceWidened actions calls) \<Longrightarrow> exposed g r"
| exposed_choice: "graph_trace g r = Some (TraceChoice parts) \<Longrightarrow> part \<in> set parts \<Longrightarrow> exposed g part \<Longrightarrow> exposed g r"
| exposed_seq: "graph_trace g r = Some (TraceSeq (part # parts)) \<Longrightarrow> exposed g part \<Longrightarrow> exposed g r"

definition choices_plain :: "descriptor_graph \<Rightarrow> bool" where
  "choices_plain g \<longleftrightarrow>
     (\<forall>r parts part. graph_trace g r = Some (TraceChoice parts) \<longrightarrow> part \<in> set parts \<longrightarrow> exposed g part \<longrightarrow> parts = [part])"

definition starts :: "work_item list \<Rightarrow> nat list" where
  "starts work = map (\<lambda>(r, s, e). s) work"

text \<open>An exposed work item is the only thing that leaves its start.\<close>

definition lonely :: "descriptor_graph \<Rightarrow> gen_edge set \<Rightarrow> work_item list \<Rightarrow> bool" where
  "lonely g E work \<longleftrightarrow>
     (\<forall>r s e. (r, s, e) \<in> set work \<longrightarrow> exposed g r \<longrightarrow> count_list (starts work) s = 1 \<and> s \<notin> fst ` E)"

definition can_push :: "descriptor_graph \<Rightarrow> gen_edge set \<Rightarrow> work_item list \<Rightarrow> trace_info_ref \<Rightarrow> nat \<Rightarrow> bool" where
  "can_push g E work r s \<longleftrightarrow>
     lonely g E work \<and> (\<forall>r' e'. (r', s, e') \<in> set work \<longrightarrow> \<not> exposed g r') \<and>
     (exposed g r \<longrightarrow> s \<notin> fst ` E \<and> s \<notin> set (starts work))"

lemma starts_iff: "s \<in> set (starts work) \<longleftrightarrow> (\<exists>r e. (r, s, e) \<in> set work)"
  by (force simp: starts_def)

lemma lonely_Cons: "lonely g E ((r, s, e) # work) \<longleftrightarrow> can_push g E work r s"
proof -
  have count: "count_list (starts work) s' \<noteq> 0" if "(r', s', e') \<in> set work" for r' s' e'
    using that starts_iff [of s' work] by (auto simp: count_list_0_iff)
  have starts: "starts ((r, s, e) # work) = s # starts work" by (simp add: starts_def)
  show ?thesis
  proof
    assume l: "lonely g E ((r, s, e) # work)"
    have item: "count_list (s # starts work) s' = 1 \<and> s' \<notin> fst ` E"
      if "(r', s', e') \<in> set ((r, s, e) # work)" "exposed g r'" for r' s' e'
      using l that unfolding lonely_def starts by blast
    have "count_list (starts work) s' = 1 \<and> s' \<noteq> s \<and> s' \<notin> fst ` E"
      if "(r', s', e') \<in> set work" "exposed g r'" for r' s' e'
      using item [of r' s' e'] count [OF that(1)] that by (auto split: if_splits)
    moreover have "s \<notin> fst ` E \<and> s \<notin> set (starts work)" if "exposed g r"
      using item [of r s e] that by (auto simp: count_list_0_iff)
    ultimately show "can_push g E work r s" unfolding can_push_def lonely_def by blast
  next
    assume c: "can_push g E work r s"
    have "count_list (s # starts work) s' = 1 \<and> s' \<notin> fst ` E"
      if "(r', s', e') \<in> set work" "exposed g r'" for r' s' e'
    proof -
      from c that have "s' \<noteq> s" "count_list (starts work) s' = 1 \<and> s' \<notin> fst ` E"
        unfolding can_push_def lonely_def by blast+
      then show ?thesis by simp
    qed
    moreover have "count_list (s # starts work) s = 1 \<and> s \<notin> fst ` E" if "exposed g r"
      using c that by (simp add: can_push_def count_list_0_iff)
    ultimately show "lonely g E ((r, s, e) # work)" unfolding lonely_def starts by auto
  qed
qed

definition work_gen :: "hasher \<Rightarrow> descriptor_graph \<Rightarrow> work_item list \<Rightarrow> gen_edge set" where
  "work_gen h g work = (\<Union>(r, s, e)\<in>set work. between s (lang h g r) e)"

definition system :: "hasher \<Rightarrow> descriptor_graph \<Rightarrow> nfa \<Rightarrow> work_item list \<Rightarrow> gen_edge set" where
  "system h g n work = nfa_gen n \<union> work_gen h g work"

definition bounded :: "nfa \<Rightarrow> work_item list \<Rightarrow> bool" where
  "bounded n work \<longleftrightarrow>
     nf_start n < length (nf_edges n) \<and> nf_end n < length (nf_edges n) \<and>
     (\<forall>(p, u, q)\<in>nfa_gen n. p < length (nf_edges n) \<and> q < length (nf_edges n) \<and> p \<noteq> nf_end n) \<and>
     (\<forall>(r, s, e)\<in>set work. s < length (nf_edges n) \<and> e < length (nf_edges n) \<and> s \<noteq> nf_end n)"

lemma system_bounded:
  "bounded n work \<Longrightarrow> (p, u, q) \<in> system h g n work \<Longrightarrow> p < length (nf_edges n) \<and> q < length (nf_edges n) \<and> p \<noteq> nf_end n"
  by (auto simp: bounded_def system_def work_gen_def between_def)

lemma system_fresh: "bounded n work \<Longrightarrow> length (nf_edges n) \<le> t \<Longrightarrow> fresh t (system h g n work)"
  using system_bounded [of n work] by (fastforce simp: fresh_def)

text \<open>
  What a step of the construction guarantees, \<open>old\<close> being the edges of the system before it: no word is
  lost, and none is added if the step starts from a lonely system.
\<close>

definition build_post ::
  "hasher \<Rightarrow> descriptor_graph \<Rightarrow> nfa \<Rightarrow> gen_edge set \<Rightarrow> bool \<Rightarrow> nfa \<Rightarrow> work_item list \<Rightarrow> bool" where
  "build_post h g n old lonely_before n' work' \<longleftrightarrow>
     length (nf_edges n) \<le> length (nf_edges n') \<and> nf_start n' = nf_start n \<and> nf_end n' = nf_end n \<and>
     labels_ok h g n' \<and> bounded n' work' \<and>
     (\<forall>p w. p < length (nf_edges n) \<longrightarrow> acc old (nf_end n) p w \<longrightarrow> acc (system h g n' work') (nf_end n) p w) \<and>
     (lonely_before \<longrightarrow> lonely g (nfa_gen n') work' \<and>
        (\<forall>p w. p < length (nf_edges n) \<longrightarrow> acc (system h g n' work') (nf_end n) p w \<longrightarrow> acc old (nf_end n) p w))"

definition seq_lang :: "hasher \<Rightarrow> descriptor_graph \<Rightarrow> trace_info_ref list \<Rightarrow> trace_label list set" where
  "seq_lang h g parts = {concat ws | ws. list_all2 (trace_lang h g) parts ws}"

lemma seq_lang_Nil: "seq_lang h g [] = {[]}"
  by (simp add: seq_lang_def)

lemma seq_lang_Cons: "seq_lang h g (part # parts) = conc (lang h g part) (seq_lang h g parts)"
proof (intro set_eqI iffI)
  fix w assume "w \<in> seq_lang h g (part # parts)"
  then obtain ws where "list_all2 (trace_lang h g) (part # parts) ws" "w = concat ws" by (auto simp: seq_lang_def)
  then obtain u vs where "trace_lang h g part u" "list_all2 (trace_lang h g) parts vs" "w = u @ concat vs"
    by (auto simp: list_all2_Cons1)
  then show "w \<in> conc (lang h g part) (seq_lang h g parts)" unfolding conc_def seq_lang_def lang_def by blast
next
  fix w assume "w \<in> conc (lang h g part) (seq_lang h g parts)"
  then obtain u vs where "trace_lang h g part u" "list_all2 (trace_lang h g) parts vs" "w = u @ concat vs"
    unfolding conc_def seq_lang_def lang_def by blast
  then have "list_all2 (trace_lang h g) (part # parts) (u # vs)" "w = concat (u # vs)" by simp_all
  then show "w \<in> seq_lang h g (part # parts)" unfolding seq_lang_def by blast
qed

lemma seq_lang_single: "seq_lang h g [part] = lang h g part"
  by (simp add: seq_lang_Cons seq_lang_Nil conc_def)

lemma system_Cons: "system h g n ((r, s, e) # work) = system h g n work \<union> between s (lang h g r) e"
  by (auto simp: system_def work_gen_def)

lemma system_adds: "adds h g n {} k n' \<Longrightarrow> system h g n' work = system h g n work"
  by (simp add: system_def adds_def)

subsection \<open>Sequences\<close>

lemma bounded_adds: "adds h g n {} k n' \<Longrightarrow> bounded n work \<Longrightarrow> bounded n' work"
  by (fastforce simp: adds_def bounded_def)

lemma bounded_Cons:
  "bounded n ((r, s, e) # work) \<longleftrightarrow>
   bounded n work \<and> s < length (nf_edges n) \<and> e < length (nf_edges n) \<and> s \<noteq> nf_end n"
  by (auto simp: bounded_def)

lemma can_push_fresh:
  assumes "can_push g (nfa_gen n) work r s" "bounded n ((r, s, e) # work)" "length (nf_edges n) = t"
  shows "can_push g (nfa_gen n) ((r, s, t) # work) r' t"
proof -
  from assms(2,3) have "t \<notin> set (starts ((r, s, t) # work))" "t \<notin> fst ` nfa_gen n"
    by (auto simp: bounded_def starts_iff)
  moreover have "lonely g (nfa_gen n) ((r, s, t) # work)" using assms(1) by (simp only: lonely_Cons)
  ultimately show ?thesis unfolding can_push_def starts_iff by blast
qed

lemma seq_parts_holds:
  assumes "parts \<noteq> []" "labels_ok h g n" "bounded n ((r, s, e) # work)"
  shows "holds (seq_parts parts s e n work) b (\<lambda>(n', work') b'.
    build_post h g n (system h g n work \<union> between s (seq_lang h g parts) e) (can_push g (nfa_gen n) work (hd parts) s) n' work')"
  using assms
proof (induction parts s e n work arbitrary: r b rule: seq_parts.induct)
  case (2 part s e n work)
  then show ?case
    by (auto simp: build_post_def bounded_Cons system_Cons seq_lang_single lonely_Cons)
next
  case (3 part part' parts s e n work)
  let ?t = "length (nf_edges n)" and ?G = "system h g n work"
  let ?L = "lang h g part" and ?M = "seq_lang h g (part' # parts)"
  have split: "acc (?G \<union> between s ?L ?t \<union> between ?t ?M e) (nf_end n) p w \<longleftrightarrow>
      acc (?G \<union> between s (seq_lang h g (part # part' # parts)) e) (nf_end n) p w" if "p < ?t" for p w
    using 3(4) that by (subst seq_lang_Cons, intro acc_split system_fresh) (auto simp: bounded_def)
  have rest: "holds (seq_parts (part' # parts) ?t e n1 ((part, s, ?t) # work)) b (\<lambda>(n', work') b'.
      build_post h g n (?G \<union> between s (seq_lang h g (part # part' # parts)) e) (can_push g (nfa_gen n) work part s) n' work')"
    if n1: "adds h g n {} 1 n1" for n1 b
  proof -
    from n1 have len: "length (nf_edges n1) = Suc ?t" and gen: "nfa_gen n1 = nfa_gen n"
      and frame: "nf_start n1 = nf_start n" "nf_end n1 = nf_end n" "labels_ok h g n1"
      by (simp_all add: adds_def)
    from 3(4) bounded_adds [OF n1, of work] have bounded: "bounded n1 ((part', ?t, e) # (part, s, ?t) # work)"
      by (auto simp: bounded_Cons len frame bounded_def)
    have push: "can_push g (nfa_gen n1) ((part, s, ?t) # work) part' ?t" if "can_push g (nfa_gen n) work part s"
      unfolding gen using that 3(4) by (intro can_push_fresh [where e = e]) (auto simp: bounded_def)
    have sys: "system h g n1 ((part, s, ?t) # work) \<union> between ?t ?M e = ?G \<union> between s ?L ?t \<union> between ?t ?M e"
      by (simp add: system_Cons system_adds [OF n1])
    have "holds (seq_parts (part' # parts) ?t e n1 ((part, s, ?t) # work)) b (\<lambda>(n', work') b'.
        build_post h g n1 (system h g n1 ((part, s, ?t) # work) \<union> between ?t ?M e)
          (can_push g (nfa_gen n1) ((part, s, ?t) # work) part' ?t) n' work')"
      using 3(1) [OF _ frame(3) bounded, of b, unfolded list.sel] by simp
    then show ?thesis
    proof (rule holds_mono)
      fix x b' assume "(case x of (n', work') \<Rightarrow> \<lambda>b'.
        build_post h g n1 (system h g n1 ((part, s, ?t) # work) \<union> between ?t ?M e)
          (can_push g (nfa_gen n1) ((part, s, ?t) # work) part' ?t) n' work') b'"
      moreover obtain n' work' where x: "x = (n', work')" by (cases x)
      ultimately have post: "build_post h g n1 (?G \<union> between s ?L ?t \<union> between ?t ?M e)
          (can_push g (nfa_gen n1) ((part, s, ?t) # work) part' ?t) n' work'" by (simp add: sys)
      show "(case x of (n', work') \<Rightarrow> \<lambda>b'.
        build_post h g n (?G \<union> between s (seq_lang h g (part # part' # parts)) e) (can_push g (nfa_gen n) work part s) n' work') b'"
        using post push split unfolding x build_post_def len frame by (simp add: less_Suc_eq)
    qed
  qed
  show ?case
    unfolding seq_parts.simps holds_bind list.sel
  proof (rule holds_mono [OF next_state_holds [OF adds_refl [OF 3(3)]]])
    fix x and b' :: proof_budget assume x: "(case x of (m, n1) \<Rightarrow> \<lambda>b'. m = ?t + 0 \<and> adds h g n {} (Suc 0) n1) b'"
    obtain m n1 where "x = (m, n1)" by (cases x)
    with x have "x = (?t, n1)" "adds h g n {} 1 n1" by simp_all
    with rest [of n1 b'] show "holds (case x of (middle, n) \<Rightarrow> seq_parts (part' # parts) middle e n ((part, s, middle) # work)) b'
      (\<lambda>(n', work') b'.
        build_post h g n (?G \<union> between s (seq_lang h g (part # part' # parts)) e) (can_push g (nfa_gen n) work part s) n' work')"
      by (simp only: prod.case)
  qed
qed simp

subsection \<open>One step\<close>

lemma lonely_add:
  assumes "can_push g E work r s" "\<And>p u q. (p, u, q) \<in> A \<Longrightarrow> p = s \<or> p \<notin> set (starts work)"
  shows "lonely g (E \<union> A) work"
  unfolding lonely_def
proof (intro allI impI)
  fix r' s' e' assume item: "(r', s', e') \<in> set work" "exposed g r'"
  with assms(1) have "count_list (starts work) s' = 1" "s' \<notin> fst ` E" "s' \<noteq> s"
    unfolding can_push_def lonely_def by blast+
  moreover have "s' \<in> set (starts work)" using item(1) by (auto simp: starts_iff)
  with assms(2) \<open>s' \<noteq> s\<close> have "s' \<notin> fst ` A" by fastforce
  ultimately show "count_list (starts work) s' = 1 \<and> s' \<notin> fst ` (E \<union> A)" by (simp add: image_Un)
qed

lemma bounded_add:
  assumes "adds h g n A k n'" "bounded n work"
    and "\<And>p u q. (p, u, q) \<in> A \<Longrightarrow> p < length (nf_edges n) + k \<and> q < length (nf_edges n) + k \<and> p \<noteq> nf_end n"
  shows "bounded n' work"
  using assms by (fastforce simp: adds_def bounded_def)

text \<open>Traces that become one edge.\<close>

lemma leaf_post:
  assumes "adds h g n {(s, u, e)} 0 n'" "bounded n ((r, s, e) # work)" "lang h g r = {u}"
  shows "build_post h g n (system h g n ((r, s, e) # work)) (lonely g (nfa_gen n) ((r, s, e) # work)) n' work"
proof -
  have "system h g n' work = system h g n ((r, s, e) # work)"
    unfolding system_Cons assms(3) using assms(1) by (auto simp: system_def adds_def between_def)
  moreover have "bounded n' work" using assms(2) by (intro bounded_add [OF assms(1)]) (auto simp: bounded_Cons)
  moreover have "lonely g (nfa_gen n') work" if "lonely g (nfa_gen n) ((r, s, e) # work)"
  proof -
    from that have "lonely g (nfa_gen n \<union> {(s, u, e)}) work" unfolding lonely_Cons by (rule lonely_add) simp
    with assms(1) show ?thesis by (simp add: adds_def)
  qed
  ultimately show ?thesis using assms(1) by (simp add: build_post_def adds_def)
qed

lemma choice_work: "work_gen h g (rev (map (\<lambda>part. (part, s, e)) parts) @ work) =
    work_gen h g work \<union> between s {u. \<exists>part\<in>set parts. trace_lang h g part u} e"
  by (auto simp: work_gen_def between_def lang_def)

lemma lonely_choice:
  assumes "lonely g E ((r, s, e) # work)" "choices_plain g" "graph_trace g r = Some (TraceChoice parts)"
  shows "lonely g E (rev (map (\<lambda>part. (part, s, e)) parts) @ work)"
proof (cases "\<exists>part\<in>set parts. exposed g part")
  case True
  then obtain part where part: "part \<in> set parts" "exposed g part" by blast
  with assms(2,3) have "parts = [part]" unfolding choices_plain_def by blast
  moreover from exposed_choice [OF assms(3) part] have "exposed g r" .
  with assms(1) have "can_push g E work part s" unfolding lonely_Cons can_push_def by blast
  ultimately show ?thesis by (simp add: lonely_Cons)
next
  case False
  from assms(1) have push: "can_push g E work r s" by (simp add: lonely_Cons)
  have "starts (rev (map (\<lambda>part. (part, s, e)) parts) @ work) = replicate (length parts) s @ starts work"
    by (simp add: starts_def rev_map comp_def map_replicate_const)
  moreover have "count_list (replicate k s) s' = 0" if "s' \<noteq> s" for k s' using that by (induction k) auto
  ultimately have count: "count_list (starts (rev (map (\<lambda>part. (part, s, e)) parts) @ work)) s' = count_list (starts work) s'"
    if "s' \<noteq> s" for s'
    using that by simp
  show ?thesis
    unfolding lonely_def
  proof (intro allI impI)
    fix r' s' e' assume "(r', s', e') \<in> set (rev (map (\<lambda>part. (part, s, e)) parts) @ work)" "exposed g r'"
    with False have item: "(r', s', e') \<in> set work" "exposed g r'" by auto
    with push have "s' \<noteq> s" "count_list (starts work) s' = 1" "s' \<notin> fst ` E" unfolding can_push_def lonely_def by blast+
    with count show "count_list (starts (rev (map (\<lambda>part. (part, s, e)) parts) @ work)) s' = 1 \<and> s' \<notin> fst ` E" by simp
  qed
qed

lemma choice_post:
  assumes "labels_ok h g n" "bounded n ((r, s, e) # work)" "graph_trace g r = Some (TraceChoice parts)"
  shows "build_post h g n (system h g n ((r, s, e) # work)) (choices_plain g \<and> lonely g (nfa_gen n) ((r, s, e) # work))
    n (rev (map (\<lambda>part. (part, s, e)) parts) @ work)"
proof -
  have lang: "lang h g r = {u. \<exists>part\<in>set parts. trace_lang h g part u}"
    using trace_lang_iffs(6) [OF assms(3), of h] unfolding lang_def by blast
  have "system h g n (rev (map (\<lambda>part. (part, s, e)) parts) @ work) = system h g n ((r, s, e) # work)"
    unfolding system_Cons lang by (simp add: system_def choice_work Un_assoc)
  moreover have "bounded n (rev (map (\<lambda>part. (part, s, e)) parts) @ work)"
    using assms(2) by (auto simp: bounded_def)
  ultimately show ?thesis using assms lonely_choice [OF _ _ assms(3)] by (simp add: build_post_def)
qed

lemma footprint_post:
  assumes adds: "adds h g n (between s {[l] | l. l \<in> A} s \<union> {(s, [], e)}) 0 n'" and bounded: "bounded n ((r, s, e) # work)"
    and lang: "lang h g r = letters A" and exposed: "exposed g r"
  shows "build_post h g n (system h g n ((r, s, e) # work)) (lonely g (nfa_gen n) ((r, s, e) # work)) n' work"
proof -
  let ?G = "system h g n work"
  have sys: "system h g n' work = ?G \<union> between s {[l] | l. l \<in> A} s \<union> {(s, [], e)}"
    using adds by (auto simp: system_def adds_def)
  have "bounded n' work"
    using bounded by (intro bounded_add [OF adds]) (auto simp: bounded_Cons between_def)
  moreover have "lonely g (nfa_gen n') work" if "lonely g (nfa_gen n) ((r, s, e) # work)"
  proof -
    from that have "lonely g (nfa_gen n \<union> (between s {[l] | l. l \<in> A} s \<union> {(s, [], e)})) work"
      unfolding lonely_Cons by (rule lonely_add) (auto simp: between_def)
    with adds show ?thesis by (simp add: adds_def Un_assoc)
  qed
  moreover have "(s, u, q) \<notin> ?G" if "lonely g (nfa_gen n) ((r, s, e) # work)" for u q
  proof -
    from that exposed have "s \<notin> fst ` nfa_gen n" "s \<notin> set (starts work)"
      unfolding lonely_Cons can_push_def by blast+
    then show ?thesis by (force simp: system_def work_gen_def between_def starts_iff)
  qed
  moreover have "s \<noteq> nf_end n" using bounded by (simp add: bounded_Cons)
  ultimately show ?thesis
    using adds acc_footprint_complete [of ?G s A e] acc_footprint_sound [of ?G s A e]
    unfolding build_post_def system_Cons lang sys by (simp add: adds_def)
qed

lemma repeat_post:
  assumes adds: "adds h g n {(s, [], e), (s, [], i), (j, [], i), (j, [], e)} 2 n'" and bounded: "bounded n ((r, s, e) # work)"
    and ij: "i = length (nf_edges n)" "j = Suc i" and r: "graph_trace g r = Some (TraceRepeat inner)"
  shows "build_post h g n (system h g n ((r, s, e) # work)) (lonely g (nfa_gen n) ((r, s, e) # work)) n' ((inner, i, j) # work)"
proof -
  let ?G = "system h g n work" and ?L = "lang h g inner"
  let ?new = "{(s, [], e), (s, [], i), (j, [], i), (j, [], e)}"
  have star: "lang h g r = star ?L"
  proof -
    have "list_all (trace_lang h g inner) ws \<longleftrightarrow> set ws \<subseteq> ?L" for ws by (auto simp: list_all_iff lang_def)
    then show ?thesis by (auto simp: star_def lang_def trace_lang_iffs(7) [OF r])
  qed
  have sys: "system h g n' ((inner, i, j) # work) = ?G \<union> ?new \<union> between i ?L j"
    unfolding system_Cons using adds by (simp add: system_def adds_def Un_ac)
  from adds have frame: "length (nf_edges n') = Suc (Suc i)" "nf_end n' = nf_end n" "nfa_gen n' = nfa_gen n \<union> ?new"
    by (simp_all add: adds_def ij)
  have "bounded n' work" using bounded by (intro bounded_add [OF adds]) (auto simp: bounded_def ij)
  with bounded have "bounded n' ((inner, i, j) # work)" by (auto simp: bounded_Cons frame bounded_def ij)
  moreover have "lonely g (nfa_gen n') ((inner, i, j) # work)" if "lonely g (nfa_gen n) ((r, s, e) # work)"
  proof -
    have starts: "i \<notin> set (starts work)" "j \<notin> set (starts work)" "i \<notin> fst ` nfa_gen n" "i \<noteq> s"
      using bounded by (auto simp: starts_iff bounded_def ij)
    from that have "lonely g (nfa_gen n') work"
      unfolding lonely_Cons frame by (rule lonely_add) (use starts in auto)
    then show ?thesis
      unfolding lonely_Cons can_push_def frame using starts ij(2) by (auto simp: starts_iff)
  qed
  moreover have "acc (?G \<union> ?new \<union> between i ?L j) (nf_end n) p w \<longleftrightarrow> acc (?G \<union> between s (star ?L) e) (nf_end n) p w"
    if "p < length (nf_edges n)" for p w
    using bounded that by (intro acc_repeat system_fresh) (auto simp: bounded_def ij)
  moreover have "nf_start n' = nf_start n" "nf_end n' = nf_end n" "labels_ok h g n'" "length (nf_edges n) \<le> length (nf_edges n')"
    using adds by (simp_all add: adds_def)
  ultimately show ?thesis
    unfolding build_post_def sys unfolding system_Cons star by blast
qed

text \<open>The labelled leaves: an edge with the label of the trace.\<close>

lemma leaf_holds:
  assumes ok: "labels_ok h g n" and bounded: "bounded n ((r, s, e) # work)"
    and label: "\<And>b. holds m b (\<lambda>(l, n') b'. adds h g n {} 0 n' \<and> lang h g r = {[co_value l]})"
  shows "holds (bind_p m (\<lambda>entry. bind_p (labelled_edge s e r entry) (\<lambda>n. return_p (n, work)))) b
    (\<lambda>(n', work') b'. build_post h g n (system h g n ((r, s, e) # work)) (lonely g (nfa_gen n) ((r, s, e) # work)) n' work')"
  unfolding holds_bind
proof (rule holds_mono [OF label])
  fix entry :: "compiled_label \<times> nfa" and b' :: proof_budget
  assume entry: "(case entry of (l, n') \<Rightarrow> \<lambda>b'. adds h g n {} 0 n' \<and> lang h g r = {[co_value l]}) b'"
  obtain l n1 where x: "entry = (l, n1)" by (cases entry)
  with entry have n1: "adds h g n {} 0 n1" and l: "lang h g r = {[co_value l]}" by simp_all
  from bounded have "s < length (nf_edges n)" by (simp add: bounded_Cons)
  from labelled_edge_holds [OF this n1, of e r l b']
  show "holds (labelled_edge s e r entry) b' (\<lambda>n1 b'. holds (return_p (n1, work)) b' (\<lambda>(n', work') b'.
      build_post h g n (system h g n ((r, s, e) # work)) (lonely g (nfa_gen n) ((r, s, e) # work)) n' work'))"
    unfolding x by (rule holds_mono) (use leaf_post [OF _ bounded l] in simp)
qed

lemma build_post_weaken: "build_post h g n old L n' work' \<Longrightarrow> (M \<Longrightarrow> L) \<Longrightarrow> build_post h g n old M n' work'"
  unfolding build_post_def by blast

lemma build_node_holds:
  assumes total: "labels_total h g" and ok: "labels_ok h g n" and bounded: "bounded n ((r, s, e) # work)"
    and r: "graph_trace g r = Some trace"
  shows "holds (build_node h g trace r s e n work) b (\<lambda>(n', work') b'.
    build_post h g n (system h g n ((r, s, e) # work)) (choices_plain g \<and> lonely g (nfa_gen n) ((r, s, e) # work)) n' work')"
    (is "holds _ b ?Q")
proof -
  let ?P = "\<lambda>(n', work') (b' :: proof_budget).
    build_post h g n (system h g n ((r, s, e) # work)) (lonely g (nfa_gen n) ((r, s, e) # work)) n' work'"
  have weaken: "holds m b ?Q" if "holds m b ?P" for m b
    using that by (rule holds_mono) (auto elim: build_post_weaken)
  from bounded have s: "s < length (nf_edges n)" by (simp add: bounded_Cons)
  have silent: "holds (nfa_add_edge s e None r n) b (\<lambda>n' b'. adds h g n {(s, [], e)} 0 n')" for b
    using silent_edge_holds [OF s adds_refl [OF ok]] by simp
  have empty: "holds (nfa_add_edge s e None r n) b (\<lambda>n' b'. build_post h g n (system h g n ((r, s, e) # work))
      (choices_plain g \<and> lonely g (nfa_gen n) ((r, s, e) # work)) n' work)" if "lang h g r = {[]}" for b
    by (rule holds_mono [OF silent]) (rule build_post_weaken [OF leaf_post [OF _ bounded that]], simp_all)
  have footprint: "holds (bind_p (footprint h g actions calls r s e n) (\<lambda>n. return_p (n, work))) b ?Q"
    if "lang h g r = letters (row_labels h g actions \<union> call_labels h g calls)" "exposed g r"
      "\<And>i. i < length calls \<Longrightarrow>
        source_label h g (SourceParameter r i) = map_option LabelParameterCall (ok_value (parameter_call_label h g (calls ! i)))"
    for actions calls b
    unfolding holds_bind
    by (rule holds_mono [OF footprint_holds [OF total ok s that(3)]])
      (use footprint_post [OF _ bounded that(1,2)] in \<open>auto intro: build_post_weaken\<close>)
  show ?thesis
  proof (cases trace)
    case TraceEmpty
    with r have "lang h g r = {[]}" by (simp add: lang_def trace_lang_iffs)
    with TraceEmpty empty show ?thesis by (simp add: build_node_def)
  next
    case (TraceOutcome outcome)
    have "holds (outcome_entry h g r outcome n) b (\<lambda>(l, n') b'. adds h g n {} 0 n' \<and> lang h g r = {[co_value l]})" for b
      using r TraceOutcome
      by (intro holds_mono [OF outcome_entry_holds [OF total ok]]) (auto simp: lang_def trace_lang_iffs)
    from weaken [OF leaf_holds [OF ok bounded this]] TraceOutcome show ?thesis by (simp add: build_node_def)
  next
    case (TraceEvent effect)
    have "holds (action_label h g (SourceTrace r) effect n) b (\<lambda>(l, n') b'. adds h g n {} 0 n' \<and> lang h g r = {[co_value l]})" for b
      using r TraceEvent
      by (intro holds_mono [OF action_label_holds [OF total ok]]) (auto simp: lang_def trace_lang_iffs)
    from weaken [OF leaf_holds [OF ok bounded this]] TraceEvent show ?thesis by (simp add: build_node_def)
  next
    case (TraceParameterCall call)
    have "holds (nfa_call_label h g (SourceTrace r) call n) b (\<lambda>(l, n') b'. adds h g n {} 0 n' \<and> lang h g r = {[co_value l]})" for b
      using r TraceParameterCall
      by (intro holds_mono [OF call_label_holds [OF total ok]]) (auto simp: lang_def trace_lang_iffs)
    from weaken [OF leaf_holds [OF ok bounded this]] TraceParameterCall show ?thesis by (simp add: build_node_def)
  next
    case (TraceSeq parts)
    with r have lang: "lang h g r = seq_lang h g parts" by (auto simp: lang_def seq_lang_def trace_lang_iffs)
    show ?thesis
    proof (cases "parts = []")
      case True
      with lang have "lang h g r = {[]}" by (simp add: seq_lang_Nil)
      with TraceSeq True empty show ?thesis by (auto simp: build_node_def intro!: holds_charge)
    next
      case False
      then obtain part parts' where parts: "parts = part # parts'" by (cases parts) auto
      have push: "can_push g (nfa_gen n) work (hd parts) s" if "lonely g (nfa_gen n) ((r, s, e) # work)"
      proof -
        have "exposed g r" if "exposed g part" using exposed_seq r TraceSeq parts that by blast
        with that show ?thesis unfolding lonely_Cons can_push_def parts list.sel by blast
      qed
      have "holds (seq_parts parts s e n work) b ?Q" for b
        unfolding system_Cons lang
        by (rule holds_mono [OF seq_parts_holds [OF False ok bounded]]) (auto elim: build_post_weaken intro: push)
      with TraceSeq False show ?thesis by (auto simp: build_node_def intro!: holds_charge)
    qed
  next
    case (TraceChoice parts)
    with r choice_post [OF ok bounded] show ?thesis by (auto simp: build_node_def intro!: holds_charge)
  next
    case (TraceRepeat inner)
    have "holds (bind_p (repeat_states r s e n) (\<lambda>(i, j, n). return_p (n, (inner, i, j) # work))) b ?P"
      unfolding holds_bind
      by (rule holds_mono [OF repeat_states_holds [OF ok s]])
        (use repeat_post [OF _ bounded] r TraceRepeat in auto)
    from weaken [OF this] TraceRepeat show ?thesis by (simp add: build_node_def)
  next
    case (TraceUnknownOrder actions)
    with r have "lang h g r = letters (row_labels h g actions \<union> call_labels h g [])" "exposed g r"
      by (auto simp: lang_def trace_lang_iffs letters_def call_labels_def intro: exposed_unknown)
    from footprint [OF this] TraceUnknownOrder show ?thesis by (simp add: build_node_def)
  next
    case (TraceWidened actions calls)
    with r have "lang h g r = letters (row_labels h g actions \<union> call_labels h g calls)" "exposed g r"
      by (auto simp: lang_def trace_lang_iffs letters_def intro: exposed_widened)
    from footprint [OF this] r TraceWidened show ?thesis by (simp add: build_node_def)
  qed
qed

section \<open>The language of the automaton\<close>

lemma build_step_holds:
  assumes "labels_total h g" "labels_ok h g n" "bounded n (item # work)"
  shows "holds (build_step h g item n work) b (\<lambda>(n', work') b'.
    build_post h g n (system h g n (item # work)) (choices_plain g \<and> lonely g (nfa_gen n) (item # work)) n' work')"
proof -
  obtain r s e where item: "item = (r, s, e)" by (cases item)
  show ?thesis
  proof (cases "graph_trace g r")
    case None
    with item show ?thesis by (auto simp: build_step_def intro!: holds_charge)
  next
    case (Some trace)
    with item build_node_holds [OF assms(1,2) _ Some] assms(3) show ?thesis
      by (auto simp: build_step_def intro!: holds_charge)
  qed
qed

lemma build_post_trans:
  assumes "build_post h g n old L n1 work1" "build_post h g n1 (system h g n1 work1) (M \<and> lonely g (nfa_gen n1) work1) n2 work2"
    and "L \<Longrightarrow> M"
  shows "build_post h g n old L n2 work2"
proof -
  from assms(1) have frame: "nf_end n1 = nf_end n" "nf_start n1 = nf_start n" "length (nf_edges n) \<le> length (nf_edges n1)"
    by (simp_all add: build_post_def)
  have "acc (system h g n2 work2) (nf_end n) p w" if "p < length (nf_edges n)" "acc old (nf_end n) p w" for p w
    using assms(1,2) that frame unfolding build_post_def by (metis less_le_trans)
  moreover have "lonely g (nfa_gen n2) work2" if L using assms that unfolding build_post_def by blast
  moreover have "acc old (nf_end n) p w" if L "p < length (nf_edges n)" "acc (system h g n2 work2) (nf_end n) p w" for p w
  proof -
    from assms(1) that(1) have "lonely g (nfa_gen n1) work1" unfolding build_post_def by blast
    with assms(2,3) that frame have "acc (system h g n1 work1) (nf_end n) p w"
      unfolding build_post_def by (metis less_le_trans)
    with assms(1) that(1,2) show ?thesis unfolding build_post_def by blast
  qed
  moreover from assms(2) frame have "length (nf_edges n) \<le> length (nf_edges n2)" "nf_start n2 = nf_start n"
    "nf_end n2 = nf_end n" "labels_ok h g n2" "bounded n2 work2"
    unfolding build_post_def by (auto intro: order_trans)
  ultimately show ?thesis unfolding build_post_def by blast
qed

lemma build_loop_holds:
  assumes "labels_total h g" "labels_ok h g n" "bounded n work"
  shows "holds (build_loop h g n work) b (\<lambda>n' b'.
    build_post h g n (system h g n work) (choices_plain g \<and> lonely g (nfa_gen n) work) n' [])"
  using assms
proof (induction h g n work b rule: build_loop.induct)
  case (1 h g n work b)
  show ?case
  proof (cases work)
    case Nil
    with 1(3,4) show ?thesis by (simp add: holds_def build_loop.simps return_p_def build_post_def)
  next
    case (Cons item work')
    let ?L = "choices_plain g \<and> lonely g (nfa_gen n) work"
    from build_step_holds [OF 1(2,3), of item work' b] 1(4) Cons
    have step: "holds (build_step h g item n work') b (\<lambda>(n', work') b'. build_post h g n (system h g n work) ?L n' work')"
      by simp
    have rest: "holds (build_loop h g (fst x) (snd x)) b' (\<lambda>n' b'. build_post h g n (system h g n work) ?L n' [])"
      if x: "build_step h g item n work' b = Some (Inr (x, b'))" for x b'
    proof -
      obtain n1 work1 where n1: "x = (n1, work1)" by (cases x)
      with holdsD [OF step x] have post: "build_post h g n (system h g n work) ?L n1 work1" by simp
      then have "labels_ok h g n1" "bounded n1 work1" by (simp_all add: build_post_def)
      with 1(1) [OF Cons x refl] 1(2) n1
      have "holds (build_loop h g n1 work1) b' (\<lambda>n' b'.
          build_post h g n1 (system h g n1 work1) (choices_plain g \<and> lonely g (nfa_gen n1) work1) n' [])" by simp
      then have "holds (build_loop h g n1 work1) b' (\<lambda>n' b'. build_post h g n (system h g n work) ?L n' [])"
        by (rule holds_mono) (rule build_post_trans [OF post, where M = "choices_plain g"], simp_all)
      with n1 show ?thesis by simp
    qed
    show ?thesis
      using holds_not_None [OF step] rest
      by (auto simp: Cons holds_def build_loop.simps [of h g n "item # work'"] bind_o_def split: option.splits sum.splits)
  qed
qed

lemma acc_iff_run: "acc (nfa_gen n) (nf_end n) p w \<longleftrightarrow> run n p w (nf_end n)"
proof
  assume "acc (nfa_gen n) (nf_end n) p w"
  then show "run n p w (nf_end n)"
    by induction (auto simp: nfa_gen_def intro: run.intros)
next
  assume "run n p w (nf_end n)"
  then show "acc (nfa_gen n) (nf_end n) p w"
  proof (induction p w "nf_end n" rule: run.induct)
    case (run_step s e w)
    then have "(s, edge_word e, ed_to e) \<in> nfa_gen n" by (auto simp: nfa_gen_def)
    with run_step show ?case by (blast intro: acc_step)
  qed (rule acc_final)
qed

lemma acc_single:
  assumes "s \<noteq> e"
  shows "acc (between s L e) e s w \<longleftrightarrow> w \<in> L"
proof
  assume "acc (between s L e) e s w"
  then obtain u v where "w = u @ v" "u \<in> L" "acc (between s L e) e e v"
    using assms by (auto simp: between_def elim: acc.cases)
  moreover from this(3) have "v = []" using assms by (auto simp: between_def elim: acc.cases)
  ultimately show "w \<in> L" by simp
next
  assume "w \<in> L"
  then have "acc (between s L e) e s (w @ [])" by (intro acc_step [OF _ acc_final]) (simp add: between_def)
  then show "acc (between s L e) e s w" by simp
qed

definition builds :: "hasher \<Rightarrow> descriptor_graph \<Rightarrow> trace_info_ref \<Rightarrow> nfa \<Rightarrow> bool" where
  "builds h g root n \<longleftrightarrow>
     nfa_wf n \<and> (\<forall>w. trace_lang h g root w \<longrightarrow> accepts n w) \<and>
     (choices_plain g \<longrightarrow> (\<forall>w. accepts n w \<longrightarrow> trace_lang h g root w))"

lemma nfa_build_holds:
  assumes "labels_total h g"
  shows "holds (nfa_build h g root) b (\<lambda>n b'. builds h g root n)"
proof -
  have start: "holds (build_loop h g (n\<lparr>nf_end := Suc 0\<rparr>) [(root, 0, Suc 0)]) b (\<lambda>n b'. builds h g root n)"
    if n: "nfa_gen n = {}" "length (nf_edges n) = 2" "nf_start n = 0" "labels_ok h g n" for n b
  proof -
    let ?n = "n\<lparr>nf_end := Suc 0\<rparr>"
    have frame: "nfa_gen ?n = {}" "labels_ok h g ?n"
      using n by (simp_all add: nfa_gen_def nfa_edge_at_def labels_ok_def)
    with n have bounded: "bounded ?n [(root, 0, Suc 0)]" by (simp add: bounded_def)
    have lonely: "lonely g {} [(root, 0, Suc 0)]" by (simp add: lonely_def starts_def)
    have sys: "system h g ?n [(root, 0, Suc 0)] = between 0 (lang h g root) (Suc 0)"
      by (simp add: system_def work_gen_def frame)
    from build_loop_holds [OF assms frame(2) bounded, of b] show ?thesis
    proof (rule holds_mono)
      fix n' and b' :: proof_budget
      assume post: "build_post h g ?n (system h g ?n [(root, 0, Suc 0)])
        (choices_plain g \<and> lonely g (nfa_gen ?n) [(root, 0, Suc 0)]) n' []"
      then have ends: "nf_start n' = 0" "nf_end n' = Suc 0" and bounded': "bounded n' []"
        using n by (simp_all add: build_post_def)
      have empty: "system h g n' [] = nfa_gen n'" by (simp add: system_def work_gen_def)
      have accepts: "accepts n' w \<longleftrightarrow> acc (nfa_gen n') (Suc 0) 0 w" for w
        using acc_iff_run [of n' 0 w] by (simp add: accepts_def ends)
      from post have "trace_lang h g root w \<longrightarrow> accepts n' w" for w
        using acc_single [of 0 "Suc 0" "lang h g root" w] unfolding build_post_def accepts empty sys by (simp add: n lang_def)
      moreover from post have "choices_plain g \<longrightarrow> accepts n' w \<longrightarrow> trace_lang h g root w" for w
        using acc_single [of 0 "Suc 0" "lang h g root" w] unfolding build_post_def accepts empty sys frame
        by (auto simp: n lang_def lonely)
      moreover have "nfa_wf n'" using bounded' by (fastforce simp: bounded_def nfa_wf_def nfa_gen_def)
      ultimately show "builds h g root n'" by (simp add: builds_def)
    qed
  qed
  have empty: "labels_ok h g nfa_empty" "nfa_gen nfa_empty = {}" "nf_edges nfa_empty = []"
    by (simp_all add: nfa_empty_def labels_ok_def nfa_gen_def nfa_edge_at_def)
  have second: "holds (bind_p (nfa_state (n\<lparr>nf_start := 0\<rparr>)) (\<lambda>(final, n).
      build_loop h g (n\<lparr>nf_end := final\<rparr>) [(root, 0, final)])) b (\<lambda>n b'. builds h g root n)"
    if "nfa_gen n = {}" "length (nf_edges n) = 1" "labels_ok h g n" for n b
  proof -
    have ok: "labels_ok h g (n\<lparr>nf_start := 0\<rparr>)" "nfa_gen (n\<lparr>nf_start := 0\<rparr>) = {}"
      using that by (simp_all add: labels_ok_def nfa_gen_def nfa_edge_at_def)
    show ?thesis
      unfolding holds_bind
      by (rule holds_mono [OF state_holds [OF ok(1)]]) (use that ok in \<open>auto simp: adds_def intro!: start\<close>)
  qed
  show ?thesis
    unfolding nfa_build_def holds_bind [where m = "nfa_state nfa_empty"]
    by (rule holds_mono [OF state_holds [OF empty(1)]]) (auto simp: adds_def empty simp del: holds_bind intro!: second)
qed

end
