(* ===== verification/TraceExits.thy ===== *)
theory TraceExits
  imports TraceInclusion
begin

text \<open>
  The automata that \<open>parameter_exit_prefixes\<close> and \<open>parameter_exit_outcomes\<close> of \<open>contract/nfa.rs\<close> return, and
  the pruning they end with: what the automata accept, in terms of the runs of the automaton they start
  from.
\<close>

section \<open>Loops over all edges\<close>

definition all_edges :: "nfa \<Rightarrow> (nat \<times> nfa_edge) list" where
  "all_edges n = concat (map (\<lambda>(s, es). map (Pair s) es) (enumerate 0 (nf_edges n)))"

lemma for_edges_flat: "for_edges f n s = fold_p (\<lambda>(s, e). f s e) (all_edges n) s"
proof -
  have "fold_p (\<lambda>entry s. case entry of (start, edges) \<Rightarrow> fold_p (f start) edges s) xs =
      fold_p (\<lambda>(s, e). f s e) (concat (map (\<lambda>(s, es). map (Pair s) es) xs))" for xs
  proof (induction xs)
    case (Cons x xs)
    obtain t es where x: "x = (t, es)" by (cases x)
    show ?case by (rule ext) (simp add: x fold_p_append fold_p_map Cons)
  qed (rule ext, simp)
  then show ?thesis by (simp add: for_edges_def all_edges_def)
qed

lemma set_all_edges: "set (all_edges n) = {(s, e). nfa_edge_at n s e}"
  by (force simp: all_edges_def nfa_edge_at_def in_set_enumerate_eq)

section \<open>Pruning\<close>

definition predecessors :: "nat list list \<Rightarrow> (nat \<times> nat) set" where
  "predecessors incoming = {(t, s). t < length incoming \<and> s \<in> set (incoming ! t)}"

lemma incoming_holds:
  assumes "nfa_wf n"
  shows "holds (for_edges incoming_edge n (replicate (length (nf_edges n)) [])) b
    (\<lambda>incoming b'. length incoming = length (nf_edges n) \<and> predecessors incoming = {(ed_to e, s) | s e. nfa_edge_at n s e})"
proof -
  let ?N = "length (nf_edges n)"
  have "holds (fold_p (\<lambda>(s, e). incoming_edge s e) (all_edges n) (replicate ?N [])) b
    (\<lambda>incoming b'. length incoming = ?N \<and> predecessors incoming = {(ed_to e, s) | s e. (s, e) \<in> set (all_edges n)})"
  proof (rule holds_fold [where I = "\<lambda>es incoming. length incoming = ?N \<and>
      predecessors incoming = {(ed_to e, s) | s e. (s, e) \<in> set es}"])
    show "length (replicate ?N []) = ?N \<and> predecessors (replicate ?N []) = {(ed_to e, s) | s e. (s, e) \<in> set []}"
      by (simp add: predecessors_def)
  next
    fix ys x zs incoming b
    assume split: "all_edges n = ys @ x # zs"
      and I: "length incoming = ?N \<and> predecessors incoming = {(ed_to e, s) | s e. (s, e) \<in> set ys}"
    obtain s e where x: "x = (s, e)" by (cases x)
    have "x \<in> set (all_edges n)" by (simp add: split)
    with assms x have to: "ed_to e < ?N" by (auto simp: set_all_edges nfa_wf_def)
    let ?new = "incoming[ed_to e := incoming ! ed_to e @ [s]]"
    have "predecessors ?new = insert (ed_to e, s) (predecessors incoming)"
      using I to by (auto simp: predecessors_def nth_list_update split: if_splits)
    also have "\<dots> = {(ed_to e, s) | s e. (s, e) \<in> set (ys @ [x])}" using I x by auto
    finally show "holds ((case x of (s, e) \<Rightarrow> incoming_edge s e) incoming) b (\<lambda>incoming b'.
        length incoming = ?N \<and> predecessors incoming = {(ed_to e, s) | s e. (s, e) \<in> set (ys @ [x])})"
      using I to by (simp add: x incoming_edge_def holds_charge)
  qed
  then show ?thesis by (simp add: for_edges_flat set_all_edges)
qed

definition live_set :: "bool list \<Rightarrow> nat set" where
  "live_set live = {s. s < length live \<and> live ! s}"

definition live_inv :: "nat list list \<Rightarrow> nat \<Rightarrow> bool list \<Rightarrow> nat list \<Rightarrow> bool" where
  "live_inv incoming root live pending \<longleftrightarrow>
     length live = length incoming \<and> set pending \<subseteq> {..<length incoming} \<and> root \<in> live_set live \<union> set pending \<and>
     predecessors incoming `` live_set live \<subseteq> live_set live \<union> set pending \<and>
     live_set live \<union> set pending \<subseteq> (predecessors incoming)\<^sup>* `` {root}"

lemma live_step_holds:
  assumes "\<And>t s. (t, s) \<in> predecessors incoming \<Longrightarrow> s < length incoming" "live_inv incoming root live (state # pending)"
  shows "holds (live_step incoming state live pending) b (\<lambda>(live', pending') b'. live_inv incoming root live' pending')"
proof -
  from assms(2) have range: "state < length live" "state < length incoming" by (simp_all add: live_inv_def)
  show ?thesis
  proof (cases "live ! state")
    case True
    then have "state \<in> live_set live" using range by (simp add: live_set_def)
    with True assms(2) range show ?thesis
      by (auto simp: live_step_def live_inv_def intro!: holds_charge)
  next
    case False
    have set': "live_set (live[state := True]) = insert state (live_set live)"
      using range by (auto simp: live_set_def nth_list_update)
    have image: "predecessors incoming `` {state} = set (incoming ! state)"
      using range by (auto simp: predecessors_def)
    have reach: "state \<in> (predecessors incoming)\<^sup>* `` {root}" using assms(2) by (simp add: live_inv_def)
    have "set (incoming ! state) \<subseteq> (predecessors incoming)\<^sup>* `` {root}"
      using image rtrancl_Image_step [OF reach] by blast
    moreover have "set (incoming ! state) \<subseteq> {..<length incoming}" using assms(1) image by blast
    moreover have "predecessors incoming `` insert state (live_set live) =
        set (incoming ! state) \<union> predecessors incoming `` live_set live"
      using image by blast
    ultimately have "live_inv incoming root (live[state := True]) (rev (incoming ! state) @ pending)"
      using assms(2) by (auto simp: live_inv_def set')
    with False range show ?thesis by (auto simp: live_step_def intro!: holds_charge)
  qed
qed

lemma live_loop_holds:
  assumes "\<And>t s. (t, s) \<in> predecessors incoming \<Longrightarrow> s < length incoming" "live_inv incoming root live pending"
  shows "holds (live_loop incoming live pending) b (\<lambda>r b'. live_inv incoming root r [])"
  using assms
proof (induction incoming live pending b rule: live_loop.induct)
  case (1 incoming live pending b)
  show ?case
  proof (cases pending)
    case Nil
    with 1(3) show ?thesis by (simp add: holds_def live_loop.simps return_p_def)
  next
    case (Cons state pending')
    from 1(3) Cons live_step_holds [OF 1(2), where root = root and live = live and state = state and pending = pending' and b = b]
    have step: "holds (live_step incoming state live pending') b (\<lambda>(v, p) b'. live_inv incoming root v p)" by simp
    show ?thesis
      using step 1(1) [OF Cons _ refl] 1(2)
      by (auto simp: Cons holds_def live_loop.simps [of incoming live "state # pending'"] bind_o_def
          split: option.splits sum.splits)
  qed
qed

text \<open>Pruning keeps the accepted words, and the states.\<close>

definition same_words :: "nfa \<Rightarrow> nfa \<Rightarrow> bool" where
  "same_words n n' \<longleftrightarrow>
     nfa_wf n' \<and> nf_start n' = nf_start n \<and> nf_end n' = nf_end n \<and> (\<forall>w. accepts n' w \<longleftrightarrow> accepts n w)"

lemma run_reaches:
  "run n s w t \<Longrightarrow> (t, s) \<in> {(ed_to e, s) | s e. nfa_edge_at n s e}\<^sup>*"
proof (induction rule: run.induct)
  case (run_step s e w t)
  then have "(ed_to e, s) \<in> {(ed_to e, s) | s e. nfa_edge_at n s e}" by blast
  with run_step.IH show ?case by (rule rtrancl_into_rtrancl)
qed simp

lemma prune_holds:
  assumes wf: "nfa_wf n"
  shows "holds (prune_nonterminating n) b (\<lambda>n' b'. same_words n n')"
proof -
  let ?N = "length (nf_edges n)" and ?reversed = "{(ed_to e, s) | s e. nfa_edge_at n s e}"
  have retain: "holds (retain_live live n) b (\<lambda>n' b'. same_words n n')"
    if len: "length live = ?N" and live: "live_set live = ?reversed\<^sup>* `` {nf_end n}" for live b
  proof -
    let ?n = "n\<lparr>nf_edges := map (filter (\<lambda>edge. live ! ed_to edge)) (nf_edges n)\<rparr>"
    have at: "nfa_edge_at ?n s e \<longleftrightarrow> nfa_edge_at n s e \<and> live ! ed_to e" for s e
      by (auto simp: nfa_edge_at_def)
    have sound: "run n s w t" if "run ?n s w t" for s w t
      using that by induction (auto simp: at intro: run.intros)
    have complete: "run ?n s w t" if "run n s w t" "t = nf_end n" for s w t
      using that
    proof (induction rule: run.induct)
      case (run_step s e w t)
      from run_reaches [OF run_step.hyps(2)] run_step.prems have "ed_to e \<in> live_set live" by (simp add: live)
      then have "nfa_edge_at ?n s e" using run_step.hyps(1) by (simp add: at live_set_def)
      with run_step show ?case by (blast intro: run.run_step)
    qed (rule run_refl)
    have "nfa_wf ?n" using wf by (auto simp: nfa_wf_def at)
    moreover have "accepts ?n w \<longleftrightarrow> accepts n w" for w
      using sound complete by (auto simp: accepts_def)
    moreover have "list_all (list_all (\<lambda>edge. ed_to edge < length live)) (nf_edges n)"
      using wf by (fastforce simp: list_all_iff len nfa_wf_def nfa_edge_at_def in_set_conv_nth)
    ultimately show ?thesis by (simp add: retain_live_def same_words_def)
  qed
  have loop: "holds (live_loop incoming (replicate ?N False) [nf_end n]) b
      (\<lambda>live b'. length live = ?N \<and> live_set live = ?reversed\<^sup>* `` {nf_end n})"
    if incoming: "length incoming = ?N" "predecessors incoming = ?reversed" for incoming b
  proof -
    have "live_inv incoming (nf_end n) (replicate ?N False) [nf_end n]"
      using wf incoming(1) by (auto simp: live_inv_def live_set_def nfa_wf_def)
    moreover have "s < length incoming" if "(t, s) \<in> predecessors incoming" for t s
      using that unfolding incoming by (auto simp: nfa_edge_at_def)
    ultimately have "holds (live_loop incoming (replicate ?N False) [nf_end n]) b (\<lambda>r b'. live_inv incoming (nf_end n) r [])"
      by (intro live_loop_holds)
    then show ?thesis
    proof (rule holds_mono)
      fix r b' assume "live_inv incoming (nf_end n) r []"
      then show "length r = ?N \<and> live_set r = ?reversed\<^sup>* `` {nf_end n}"
        using rtrancl_Image_closed [of ?reversed "live_set r" "{nf_end n}"] by (auto simp: live_inv_def incoming)
    qed
  qed
  show ?thesis
    unfolding prune_nonterminating_def holds_bind
    by (rule holds_mono [OF incoming_holds [OF wf]], rule holds_mono [OF loop], blast, blast, rule retain, blast, blast)
qed

section \<open>Exit edges\<close>

definition exit_edge :: "nat \<Rightarrow> exit \<Rightarrow> nat \<Rightarrow> nfa_edge \<Rightarrow> bool" where
  "exit_edge final x s e \<longleftrightarrow> (case x of (t, source, label) \<Rightarrow> s = t \<and> e = \<lparr>ed_label = Some label, ed_to = final, ed_source = source\<rparr>)"

lemma add_exits_holds:
  assumes "\<And>s source label. (s, source, label) \<in> set exits \<Longrightarrow> s < length (nf_edges n)"
  shows "holds (add_exits final exits n) b (\<lambda>n' b'.
    nf_start n' = nf_start n \<and> nf_end n' = nf_end n \<and> length (nf_edges n') = length (nf_edges n) \<and>
    (\<forall>s e. nfa_edge_at n' s e \<longleftrightarrow> nfa_edge_at n s e \<or> (\<exists>x\<in>set exits. exit_edge final x s e)))"
  unfolding add_exits_def
proof (rule holds_fold [where I = "\<lambda>xs n'. nf_start n' = nf_start n \<and> nf_end n' = nf_end n \<and>
    length (nf_edges n') = length (nf_edges n) \<and>
    (\<forall>s e. nfa_edge_at n' s e \<longleftrightarrow> nfa_edge_at n s e \<or> (\<exists>x\<in>set xs. exit_edge final x s e))"])
  fix ys x zs n1 b
  assume split: "exits = ys @ x # zs" and I: "nf_start n1 = nf_start n \<and> nf_end n1 = nf_end n \<and>
    length (nf_edges n1) = length (nf_edges n) \<and>
    (\<forall>s e. nfa_edge_at n1 s e \<longleftrightarrow> nfa_edge_at n s e \<or> (\<exists>x\<in>set ys. exit_edge final x s e))"
  obtain t source label where x: "x = (t, source, label)" by (cases x)
  have t: "t < length (nf_edges n1)" using assms [of t source label] split x I by simp
  let ?e = "\<lparr>ed_label = Some label, ed_to = final, ed_source = source\<rparr>"
  let ?n = "n1\<lparr>nf_transitions := Suc (nf_transitions n1), nf_edges := (nf_edges n1)[t := nf_edges n1 ! t @ [?e]]\<rparr>"
  have "nfa_edge_at ?n s e \<longleftrightarrow> nfa_edge_at n1 s e \<or> exit_edge final x s e" for s e
    using t by (auto simp: nfa_edge_at_def nth_list_update exit_edge_def x split: if_splits)
  with I have edges: "nfa_edge_at ?n s e \<longleftrightarrow> nfa_edge_at n s e \<or> (\<exists>x\<in>set (ys @ [x]). exit_edge final x s e)" for s e
    by auto
  show "holds (case x of (start, source, label) \<Rightarrow> nfa_add_edge start final (Some label) source n1) b (\<lambda>n' b'.
      nf_start n' = nf_start n \<and> nf_end n' = nf_end n \<and> length (nf_edges n') = length (nf_edges n) \<and>
      (\<forall>s e. nfa_edge_at n' s e \<longleftrightarrow> nfa_edge_at n s e \<or> (\<exists>x\<in>set (ys @ [x]). exit_edge final x s e)))"
    using I t edges
    by (auto simp: x nfa_add_edge_def holds_limits intro!: holds_charge)
qed simp

text \<open>A fresh end state that only exit edges reach: what is accepted is a run to an exit, and its label.\<close>

definition exit_words :: "nfa \<Rightarrow> exit list \<Rightarrow> trace_label list \<Rightarrow> bool" where
  "exit_words n exits w \<longleftrightarrow>
     (\<exists>u s source label. run n (nf_start n) u s \<and> (s, source, label) \<in> set exits \<and> w = u @ [co_value label])"

lemma exits_language:
  assumes wf: "nfa_wf n" and N: "N = length (nf_edges n)"
    and exits: "\<And>s source label. (s, source, label) \<in> set exits \<Longrightarrow> s < N"
    and n1: "nf_start n1 = nf_start n" "nf_end n1 = N" "length (nf_edges n1) = Suc N"
    and edges: "\<And>s e. nfa_edge_at n1 s e \<longleftrightarrow> nfa_edge_at n s e \<or> (\<exists>x\<in>set exits. exit_edge N x s e)"
  shows "nfa_wf n1 \<and> (\<forall>w. accepts n1 w \<longleftrightarrow> exit_words n exits w)"
proof (intro conjI allI iffI)
  from wf show "nfa_wf n1"
    by (auto simp: nfa_wf_def N n1 edges exit_edge_def less_Suc_eq)
  fix w
  have run: "t < N \<and> run n (nf_start n) w t \<or> t = N \<and> exit_words n exits w" if "run n1 (nf_start n1) w t" for t
    using that
  proof (induction rule: run_rev_induct)
    case refl
    from wf show ?case by (simp add: n1 N nfa_wf_def run_refl)
  next
    case (snoc w t e)
    from snoc.hyps(2) have "nfa_edge_at n t e \<or> (\<exists>x\<in>set exits. exit_edge N x t e)" by (simp only: edges)
    then have "t < N" by (auto simp: exit_edge_def nfa_edge_at_def N [symmetric] dest: exits)
    with snoc.IH have w: "run n (nf_start n) w t" by blast
    from snoc.hyps(2) consider "nfa_edge_at n t e"
      | source label where "(t, source, label) \<in> set exits" "e = \<lparr>ed_label = Some label, ed_to = N, ed_source = source\<rparr>"
      by (auto simp: edges exit_edge_def)
    then show ?case
    proof cases
      case 1
      with wf have "ed_to e < N" by (simp add: nfa_wf_def N)
      with run_snoc [OF w 1] show ?thesis by blast
    next
      case 2
      with w show ?thesis unfolding exit_words_def by (auto simp: edge_word_def)
    qed
  qed
  show "exit_words n exits w" if "accepts n1 w" using run that by (auto simp: accepts_def n1)
  have embed: "run n1 s u t" if "run n s u t" for s u t
    using that by induction (auto simp: edges intro: run.intros)
  show "accepts n1 w" if "exit_words n exits w"
  proof -
    from that obtain u s source label where u: "run n (nf_start n) u s" and x: "(s, source, label) \<in> set exits"
      and w: "w = u @ [co_value label]" by (auto simp: exit_words_def)
    from x have "nfa_edge_at n1 s \<lparr>ed_label = Some label, ed_to = N, ed_source = source\<rparr>"
      by (force simp: edges exit_edge_def)
    from run_snoc [OF embed [OF u] this] show ?thesis by (simp add: accepts_def n1 w edge_word_def)
  qed
qed

lemma close_exits_holds:
  assumes wf: "nfa_wf n" and exits: "\<And>s source label. (s, source, label) \<in> set exits \<Longrightarrow> s < length (nf_edges n)"
  shows "holds (bind_p (nfa_state n) (\<lambda>(final, n). bind_p (add_exits final exits (n\<lparr>nf_end := final\<rparr>)) prune_nonterminating)) b
    (\<lambda>n' b'. nfa_wf n' \<and> (\<forall>w. accepts n' w \<longleftrightarrow> exit_words n exits w))"
proof -
  let ?N = "length (nf_edges n)"
  let ?n = "n\<lparr>nf_edges := nf_edges n @ [[]], nf_end := ?N\<rparr>"
  have at: "nfa_edge_at ?n s e \<longleftrightarrow> nfa_edge_at n s e" for s e
    by (auto simp: nfa_edge_at_def nth_append less_Suc_eq)
  have "holds (add_exits ?N exits ?n) b (\<lambda>n1 b'. nfa_wf n1 \<and> (\<forall>w. accepts n1 w \<longleftrightarrow> exit_words n exits w))" for b
  proof (rule holds_mono [OF add_exits_holds])
    fix s source label assume "(s, source, label) \<in> set exits"
    then show "s < length (nf_edges ?n)" using exits by fastforce
  next
    fix n1 b' assume "nf_start n1 = nf_start ?n \<and> nf_end n1 = nf_end ?n \<and> length (nf_edges n1) = length (nf_edges ?n) \<and>
      (\<forall>s e. nfa_edge_at n1 s e \<longleftrightarrow> nfa_edge_at ?n s e \<or> (\<exists>x\<in>set exits. exit_edge ?N x s e))"
    with at show "nfa_wf n1 \<and> (\<forall>w. accepts n1 w \<longleftrightarrow> exit_words n exits w)"
      by (intro exits_language [OF wf refl exits]) simp_all
  qed
  moreover have "holds (prune_nonterminating n1) b (\<lambda>n' b'. nfa_wf n' \<and> (\<forall>w. accepts n' w \<longleftrightarrow> exit_words n exits w))"
    if "nfa_wf n1 \<and> (\<forall>w. accepts n1 w \<longleftrightarrow> exit_words n exits w)" for n1 b
    using that by (intro holds_mono [OF prune_holds]) (auto simp: same_words_def)
  ultimately have "holds (bind_p (add_exits ?N exits ?n) prune_nonterminating) b
      (\<lambda>n' b'. nfa_wf n' \<and> (\<forall>w. accepts n' w \<longleftrightarrow> exit_words n exits w))" for b
    unfolding holds_bind by (rule holds_mono)
  then show ?thesis
    by (simp add: nfa_state_def holds_limits holds_charge del: holds_bind) (simp add: holds_limits holds_charge)
qed

section \<open>Prefixes that end in a call of a parameter\<close>

definition readable :: "nfa \<Rightarrow> trace_label list \<Rightarrow> bool" where
  "readable n w \<longleftrightarrow> (\<exists>t. run n (nf_start n) w t)"

lemma readable_snoc:
  "readable n (u @ [l]) \<longleftrightarrow> (\<exists>s e. run n (nf_start n) u s \<and> nfa_edge_at n s e \<and> edge_word e = [l])"
  unfolding readable_def using run_last_label [OF _ refl] run_snoc by metis

lemma edge_word_single: "edge_word e = [l] \<longleftrightarrow> (\<exists>label. ed_label e = Some label \<and> co_value label = l)"
  by (auto simp: edge_word_def split: option.splits)

lemma co_value_new [simp]: "co_value (compiled_label_new l) = l"
  by (simp add: compiled_label_new_def)

definition prefix_exits :: "(nat \<times> nfa_edge) set \<Rightarrow> exit set" where
  "prefix_exits E = {(s, ed_source e, compiled_label_new (LabelParameterNonReturn c)) | s e c.
     (s, e) \<in> E \<and> edge_word e = [LabelParameterCall c]}"

definition is_event :: "trace_label \<Rightarrow> bool" where
  "is_event l \<longleftrightarrow> (\<exists>a. l = LabelAction a) \<or> (\<exists>c. l = LabelParameterCall c)"

lemma prefix_exit_holds:
  "holds (prefix_exit s e exits) b (\<lambda>exits' b'.
     set exits' = set exits \<union> prefix_exits {(s, e)} \<and> (\<forall>l. edge_word e = [l] \<longrightarrow> is_event l))"
proof (cases "ed_label e")
  case None
  then show ?thesis by (auto simp: prefix_exit_def prefix_exits_def edge_word_def intro!: holds_charge)
next
  case (Some label)
  then show ?thesis
    by (cases "co_value label")
      (auto simp: prefix_exit_def prefix_exits_def edge_word_def is_event_def intro!: holds_charge)
qed

lemma prefixes_holds:
  assumes wf: "nfa_wf n"
  shows "holds (parameter_exit_prefixes n) b (\<lambda>n' b'. nfa_wf n' \<and>
    (\<forall>w. accepts n' w \<longleftrightarrow>
      (\<exists>u c. w = u @ [LabelParameterNonReturn c] \<and> readable n (u @ [LabelParameterCall c]))) \<and>
    (\<forall>s e l. nfa_edge_at n s e \<longrightarrow> edge_word e = [l] \<longrightarrow> is_event l))"
proof -
  let ?exits_ok = "\<lambda>es exits. set exits = prefix_exits (set es) \<and> (\<forall>(s, e)\<in>set es. \<forall>l. edge_word e = [l] \<longrightarrow> is_event l)"
  have exits: "holds (for_edges prefix_exit n []) b (\<lambda>exits b'. ?exits_ok (all_edges n) exits)"
    unfolding for_edges_flat
  proof (rule holds_fold [where I = ?exits_ok])
    fix ys x zs exits b assume "all_edges n = ys @ x # zs" and I: "?exits_ok ys exits"
    obtain s e where x: "x = (s, e)" by (cases x)
    have "prefix_exits (set (ys @ [x])) = prefix_exits (set ys) \<union> prefix_exits {x}"
      by (auto simp: prefix_exits_def)
    then show "holds ((case x of (s, e) \<Rightarrow> prefix_exit s e) exits) b (\<lambda>exits b'. ?exits_ok (ys @ [x]) exits)"
      using I by (auto simp: x intro: holds_mono [OF prefix_exit_holds])
  qed (simp add: prefix_exits_def)
  have rest: "holds (bind_p (nfa_state n) (\<lambda>(final, n). bind_p (add_exits final exits (n\<lparr>nf_end := final\<rparr>)) prune_nonterminating)) b
      (\<lambda>n' b'. nfa_wf n' \<and> (\<forall>w. accepts n' w \<longleftrightarrow>
        (\<exists>u c. w = u @ [LabelParameterNonReturn c] \<and> readable n (u @ [LabelParameterCall c]))))"
    if "set exits = prefix_exits (set (all_edges n))" for exits b
  proof (rule holds_mono [OF close_exits_holds [OF wf]])
    show "s < length (nf_edges n)" if "(s, source, label) \<in> set exits" for s source label
      using that \<open>set exits = _\<close> by (auto simp: prefix_exits_def set_all_edges nfa_edge_at_def)
    have "exit_words n exits w \<longleftrightarrow>
        (\<exists>u c. w = u @ [LabelParameterNonReturn c] \<and> readable n (u @ [LabelParameterCall c]))" for w
      unfolding exit_words_def readable_snoc \<open>set exits = _\<close> prefix_exits_def set_all_edges by force
    then show "nfa_wf n' \<and> (\<forall>w. accepts n' w \<longleftrightarrow>
        (\<exists>u c. w = u @ [LabelParameterNonReturn c] \<and> readable n (u @ [LabelParameterCall c])))"
      if "nfa_wf n' \<and> (\<forall>w. accepts n' w \<longleftrightarrow> exit_words n exits w)" for n'
      using that by simp
  qed
  have events: "\<forall>s e l. nfa_edge_at n s e \<longrightarrow> edge_word e = [l] \<longrightarrow> is_event l" if "?exits_ok (all_edges n) exits" for exits
    using that by (auto simp: set_all_edges)
  show ?thesis unfolding parameter_exit_prefixes_def holds_bind [of _ "\<lambda>exits. bind_p (nfa_state n) (h exits)" for h]
    by (rule holds_mono [OF exits], rule holds_mono [OF rest]) (use events in auto)
qed

section \<open>Outcomes that end in the exit of a parameter call\<close>

lemma run_drop_outcomes:
  "run (drop_outcomes n) s w t \<longleftrightarrow> run n s w t \<and> (\<forall>l\<in>set w. \<not> is_outcome l)"
proof
  have at: "nfa_edge_at (drop_outcomes n) s e \<longleftrightarrow> nfa_edge_at n s e \<and> (\<forall>l\<in>set (edge_word e). \<not> is_outcome l)" for s e
    by (auto simp: nfa_edge_at_def drop_outcomes_def edge_word_def split: option.splits)
  show "run (drop_outcomes n) s w t \<Longrightarrow> run n s w t \<and> (\<forall>l\<in>set w. \<not> is_outcome l)"
    by (induction rule: run.induct) (auto simp: at intro: run.intros)
  have "(\<forall>l\<in>set w. \<not> is_outcome l) \<longrightarrow> run (drop_outcomes n) s w t" if "run n s w t" for s w t
    using that by induction (auto simp: at intro: run.intros)
  then show "run n s w t \<and> (\<forall>l\<in>set w. \<not> is_outcome l) \<Longrightarrow> run (drop_outcomes n) s w t" by blast
qed

lemma drop_outcomes_wf:
  "nfa_wf n \<Longrightarrow> nfa_wf (drop_outcomes n)"
  by (auto simp: nfa_wf_def nfa_edge_at_def drop_outcomes_def)

definition outcome_exits :: "nfa \<Rightarrow> (nat \<times> nfa_edge) set \<Rightarrow> exit set" where
  "outcome_exits n E = {(s, ed_source e, label) | s e label.
     (s, e) \<in> E \<and> ed_label e = Some label \<and> is_parameter_exit (co_value label) \<and> (ed_to e, nf_end n) \<in> (silent n)\<^sup>*}"

lemma outcome_exit_holds:
  assumes "nfa_wf n" "nfa_edge_at n s e"
  shows "holds (outcome_exit n s e exits) b (\<lambda>exits' b'. set exits' = set exits \<union> outcome_exits n {(s, e)})"
proof (cases "ed_label e")
  case None
  then show ?thesis by (auto simp: outcome_exit_def outcome_exits_def intro!: holds_charge)
next
  case (Some label)
  have "set [ed_to e] \<subseteq> {..<length (nf_edges n)}" using assms by (simp add: nfa_wf_def)
  from closure_holds [OF assms(1) this]
  have "holds (nfa_closure n [ed_to e]) b (\<lambda>r b'. set r = (silent n)\<^sup>* `` {ed_to e})" for b
    by (rule holds_mono) simp
  then have "holds (nfa_closure n [ed_to e]) b (\<lambda>r b'. holds
      (if nf_end n \<notin> set r then fail_p InvalidOutcomeTrace else return_p (exits @ [(s, ed_source e, label)])) b'
      (\<lambda>exits' b'. set exits' = insert (s, ed_source e, label) (set exits) \<and> (ed_to e, nf_end n) \<in> (silent n)\<^sup>*))" for b
    by (rule holds_mono) auto
  then have "holds (nfa_closure n [ed_to e]) b (\<lambda>r b'. holds
      (if nf_end n \<notin> set r then fail_p InvalidOutcomeTrace else return_p (exits @ [(s, ed_source e, label)])) b'
      (\<lambda>exits' b'. set exits' = set exits \<union> outcome_exits n {(s, e)}))" if "is_parameter_exit (co_value label)" for b
    by (rule holds_mono, elim holds_mono) (use that Some in \<open>auto simp: outcome_exits_def\<close>)
  with Some show ?thesis
    by (auto simp: outcome_exit_def outcome_exits_def intro!: holds_charge)
qed

lemma outcome_words:
  assumes exits: "set exits = outcome_exits n {(s, e). nfa_edge_at n s e}"
  shows "exit_words (drop_outcomes n) exits w \<longleftrightarrow>
    (\<exists>u c. w = u @ [LabelParameterNonReturn c] \<and> accepts n w \<and> (\<forall>l\<in>set u. \<not> is_outcome l))"
proof
  have start: "nf_start (drop_outcomes n) = nf_start n" by (simp add: drop_outcomes_def)
  show "\<exists>u c. w = u @ [LabelParameterNonReturn c] \<and> accepts n w \<and> (\<forall>l\<in>set u. \<not> is_outcome l)"
    if "exit_words (drop_outcomes n) exits w"
  proof -
    from that obtain u s e label where u: "run n (nf_start n) u s" "\<forall>l\<in>set u. \<not> is_outcome l"
      and e: "nfa_edge_at n s e" "ed_label e = Some label" "is_parameter_exit (co_value label)"
      and silent: "(ed_to e, nf_end n) \<in> (silent n)\<^sup>*" and w: "w = u @ [co_value label]"
      by (auto simp: exit_words_def exits outcome_exits_def run_drop_outcomes start)
    from e(3) obtain c where "co_value label = LabelParameterNonReturn c" by (cases "co_value label") auto
    moreover from run_append [OF run_snoc [OF u(1) e(1)] silent_run [OF silent]] e(2) have "accepts n w"
      by (simp add: accepts_def w edge_word_def)
    ultimately show ?thesis using u(2) w by auto
  qed
  show "exit_words (drop_outcomes n) exits w"
    if "\<exists>u c. w = u @ [LabelParameterNonReturn c] \<and> accepts n w \<and> (\<forall>l\<in>set u. \<not> is_outcome l)"
  proof -
    from that obtain u c where w: "w = u @ [LabelParameterNonReturn c]"
      and run: "run n (nf_start n) w (nf_end n)" and u: "\<forall>l\<in>set u. \<not> is_outcome l" by (auto simp: accepts_def)
    from run_last_label [OF run w] obtain s e label where "run n (nf_start n) u s" "nfa_edge_at n s e"
      "ed_label e = Some label" "co_value label = LabelParameterNonReturn c" "(ed_to e, nf_end n) \<in> (silent n)\<^sup>*"
      by (auto simp: edge_word_single)
    with u show ?thesis
      unfolding exit_words_def exits outcome_exits_def run_drop_outcomes start w by force
  qed
qed

lemma outcomes_holds:
  assumes wf: "nfa_wf n"
  shows "holds (parameter_exit_outcomes n) b (\<lambda>n' b'. nfa_wf n' \<and>
    (\<forall>w. accepts n' w \<longleftrightarrow>
      (\<exists>u c. w = u @ [LabelParameterNonReturn c] \<and> accepts n w \<and> (\<forall>l\<in>set u. \<not> is_outcome l))))"
proof -
  let ?exits_ok = "\<lambda>es exits. set exits = outcome_exits n (set es)"
  have exits: "holds (for_edges (outcome_exit n) n []) b (\<lambda>exits b'. ?exits_ok (all_edges n) exits)"
    unfolding for_edges_flat
  proof (rule holds_fold [where I = ?exits_ok])
    fix ys x zs exits b assume split: "all_edges n = ys @ x # zs" and I: "?exits_ok ys exits"
    obtain s e where x: "x = (s, e)" by (cases x)
    have "x \<in> set (all_edges n)" by (simp add: split)
    then have "nfa_edge_at n s e" by (simp add: set_all_edges x)
    from outcome_exit_holds [OF wf this]
    have "holds (outcome_exit n s e exits) b (\<lambda>exits' b'. set exits' = set exits \<union> outcome_exits n {(s, e)})" .
    moreover have "outcome_exits n (set (ys @ [x])) = outcome_exits n (set ys) \<union> outcome_exits n {x}"
      by (auto simp: outcome_exits_def)
    ultimately show "holds ((case x of (s, e) \<Rightarrow> outcome_exit n s e) exits) b (\<lambda>exits b'. ?exits_ok (ys @ [x]) exits)"
      using I by (auto simp: x elim: holds_mono)
  qed (simp add: outcome_exits_def)
  have rest: "holds (bind_p (nfa_state (drop_outcomes n)) (\<lambda>(final, n). bind_p (add_exits final exits (n\<lparr>nf_end := final\<rparr>)) prune_nonterminating)) b
      (\<lambda>n' b'. nfa_wf n' \<and> (\<forall>w. accepts n' w \<longleftrightarrow>
        (\<exists>u c. w = u @ [LabelParameterNonReturn c] \<and> accepts n w \<and> (\<forall>l\<in>set u. \<not> is_outcome l))))"
    if "?exits_ok (all_edges n) exits" for exits b
  proof (rule holds_mono [OF close_exits_holds [OF drop_outcomes_wf [OF wf]]])
    show "s < length (nf_edges (drop_outcomes n))" if "(s, source, label) \<in> set exits" for s source label
      using that \<open>set exits = _\<close> by (auto simp: outcome_exits_def set_all_edges nfa_edge_at_def drop_outcomes_def)
    have "exit_words (drop_outcomes n) exits w \<longleftrightarrow>
        (\<exists>u c. w = u @ [LabelParameterNonReturn c] \<and> accepts n w \<and> (\<forall>l\<in>set u. \<not> is_outcome l))" for w
      by (rule outcome_words [OF \<open>set exits = _\<close> [unfolded set_all_edges]])
    then show "nfa_wf n' \<and> (\<forall>w. accepts n' w \<longleftrightarrow>
        (\<exists>u c. w = u @ [LabelParameterNonReturn c] \<and> accepts n w \<and> (\<forall>l\<in>set u. \<not> is_outcome l)))"
      if "nfa_wf n' \<and> (\<forall>w. accepts n' w \<longleftrightarrow> exit_words (drop_outcomes n) exits w)" for n'
      using that by simp
  qed
  show ?thesis unfolding parameter_exit_outcomes_def holds_bind [of _ "\<lambda>exits. bind_p (nfa_state (drop_outcomes n)) (h exits)" for h]
    by (rule holds_mono [OF exits], rule rest)
qed

end
