(* ===== verification/TraceContract.thy ===== *)
theory TraceContract
  imports TraceLanguage TraceExits
begin

text \<open>
  What the public checks of \<open>etas_code/src/contract\<close> promise: the automaton of a trace accepts the language
  of the trace, \<open>check_trace_inclusion\<close> is sound for the languages, and \<open>check_parameter_exit_coverage\<close>
  relates the calls of a trace to the exits of its outcomes. The last section has the graph on which the
  construction accepts too much.
\<close>

definition descriptors_ok :: "descriptor_graph \<Rightarrow> bool" where
  "descriptors_ok g \<longleftrightarrow> graph_closed g \<and> Suc (graph_reference_count g) \<le> usize_max"

lemma descriptors_ok_labels: "descriptors_ok g \<Longrightarrow> labels_total h g"
  by (simp add: descriptors_ok_def labels_total_def type_fingerprint_def trace_fingerprint_def node_fingerprint_not_None)

lemma prove_Inr: "prove m b = Some (Inr a) \<longleftrightarrow> (\<exists>b'. m b = Some (Inr (a, b')))"
proof (cases "m b")
  case (Some r)
  then show ?thesis by (cases r) (auto simp: prove_def)
qed (simp add: prove_def)

lemma prove_not_None: "prove m b \<noteq> None \<longleftrightarrow> m b \<noteq> None"
  by (simp add: prove_def)

lemma run_split: "run n s (u @ v) t \<Longrightarrow> \<exists>m. run n s u m \<and> run n m v t"
proof -
  have "\<exists>m. run n s u m \<and> run n m v t" if "run n s w t" "w = u @ v" for s w t u
    using that
  proof (induction arbitrary: u rule: run.induct)
    case (run_refl s)
    then show ?case by (auto intro: run.run_refl)
  next
    case (run_step s e w t)
    show ?case
    proof (cases u)
      case Nil
      with run_step.prems run.run_step [OF run_step.hyps] show ?thesis by (auto intro: run_refl)
    next
      case (Cons l u')
      show ?thesis
      proof (cases "edge_word e")
        case Nil
        with run_step.prems run_step.IH [of u] run.run_step [OF run_step.hyps(1), of u] show ?thesis by auto
      next
        case (Cons l' ls)
        then have "edge_word e = [l']" by (auto simp: edge_word_def split: option.splits)
        with run_step.prems \<open>u = l # u'\<close> run_step.IH [of u'] run.run_step [OF run_step.hyps(1), of u'] show ?thesis by auto
      qed
    qed
  qed
  then show "run n s (u @ v) t \<Longrightarrow> \<exists>m. run n s u m \<and> run n m v t" by blast
qed

section \<open>Languages\<close>

text \<open>
  C8: The automaton of a trace. Building it returns an automaton or an error, and does not panic or run
  forever even on cyclic traces. The automaton is well formed and accepts every word of the trace's
  language; if no alternative of a choice starts with a footprint of unknown order, it accepts no other.
\<close>

theorem nfa_build_language:
  assumes "descriptors_ok g"
  shows "nfa_build h g root b \<noteq> None \<and>
    (\<forall>n b'. nfa_build h g root b = Some (Inr (n, b')) \<longrightarrow>
       nfa_wf n \<and> (\<forall>w. trace_lang h g root w \<longrightarrow> accepts n w) \<and>
       (choices_plain g \<longrightarrow> (\<forall>w. accepts n w \<longleftrightarrow> trace_lang h g root w)))"
proof -
  note build = nfa_build_holds [OF descriptors_ok_labels [OF assms], of h root b]
  from holds_not_None [OF build] holdsD [OF build] show ?thesis unfolding builds_def by blast
qed

text \<open>
  C5: The search decides inclusion of automata. On well-formed automata \<open>check_nfa_inclusion\<close> does not
  panic. The verdict \<open>Included\<close> holds exactly for a candidate whose every readable word the frozen
  automaton simulates and whose every accepted word it covers; the path of \<open>NotProven\<close> is a word of the
  candidate that refutes the inclusion.
\<close>

theorem check_nfa_inclusion_decides:
  assumes "nfa_wf c" "nfa_wf f"
  shows "check_nfa_inclusion c f b \<noteq> None \<and>
    (\<forall>r b'. check_nfa_inclusion c f b = Some (Inr (r, b')) \<longrightarrow>
       (case r of
          Included \<Rightarrow> nfa_included c f
        | NotProven path \<Rightarrow> refuted_by c f (map snd path) \<and> \<not> nfa_included c f))"
proof -
  note check = check_nfa_inclusion_holds [OF assms, of b]
  from holds_not_None [OF check] holdsD [OF check] show ?thesis
    by (auto simp: decides_def refutation_def dest: refuted_not_included split: trace_inclusion.splits)
qed

lemma inclusion_holds:
  assumes "descriptors_ok candidate" "descriptors_ok frozen"
  shows "holds (bind_p (nfa_build h candidate candidate_root) (\<lambda>c.
      bind_p (nfa_build h frozen frozen_root) (\<lambda>f. check_nfa_inclusion c f))) b
    (\<lambda>r b'. \<exists>c f. builds h candidate candidate_root c \<and> builds h frozen frozen_root f \<and> decides c f r)"
  unfolding holds_bind
proof (rule holds_mono [OF nfa_build_holds [OF descriptors_ok_labels [OF assms(1)]]],
    rule holds_mono [OF nfa_build_holds [OF descriptors_ok_labels [OF assms(2)]]])
  fix c f b assume c: "builds h candidate candidate_root c" and f: "builds h frozen frozen_root f"
  from c f have "nfa_wf c" "nfa_wf f" by (simp_all add: builds_def)
  from check_nfa_inclusion_holds [OF this]
  show "holds (check_nfa_inclusion c f) b
      (\<lambda>r b'. \<exists>c f. builds h candidate candidate_root c \<and> builds h frozen frozen_root f \<and> decides c f r)"
    by (rule holds_mono) (use c f in blast)
qed

lemma included_words:
  assumes "builds h candidate candidate_root c" "builds h frozen frozen_root f" "decides c f Included"
    and "choices_plain frozen" "trace_lang h candidate candidate_root w"
  shows "\<exists>w'. trace_lang h frozen frozen_root w' \<and> list_all2 covers w' w"
proof -
  from assms(1,5) have "accepts c w" by (simp add: builds_def)
  with assms(3) have "covered f w" by (auto simp: decides_def refutation_def nfa_included_def)
  with assms(2,4) show ?thesis by (auto simp: covered_def builds_def)
qed

lemma trace_inclusion_words:
  assumes "descriptors_ok candidate" "descriptors_ok frozen" "choices_plain frozen"
    and "check_trace_inclusion h candidate candidate_root frozen frozen_root limits = Some (Inr Included)"
    and "trace_lang h candidate candidate_root w"
  shows "\<exists>w'. trace_lang h frozen frozen_root w' \<and> list_all2 covers w' w"
proof -
  from assms(4) holdsD [OF inclusion_holds [OF assms(1,2)]] obtain c f where
    "builds h candidate candidate_root c" "builds h frozen frozen_root f" "decides c f Included"
    unfolding check_trace_inclusion_def prove_Inr by blast
  from included_words [OF this assms(3,5)] show ?thesis .
qed

text \<open>
  C1: Trace inclusion is sound. If \<open>check_trace_inclusion\<close> answers \<open>Included\<close> and no alternative of a choice
  of the frozen graph starts with a footprint of unknown order, then every word that the candidate trace
  describes is covered, label by label, by a word that the frozen trace describes.
\<close>

theorem trace_inclusion_sound:
  assumes "descriptors_ok candidate" "descriptors_ok frozen" "choices_plain frozen"
    and "check_trace_inclusion h candidate candidate_root frozen frozen_root limits = Some (Inr Included)"
    and "trace_lang h candidate candidate_root w"
  shows "\<exists>w'. trace_lang h frozen frozen_root w' \<and> list_all2 covers w' w"
  using trace_inclusion_words [OF assms] .

section \<open>Exits of parameter calls\<close>

definition exits_match :: "nfa \<Rightarrow> nfa \<Rightarrow> bool" where
  "exits_match t q \<longleftrightarrow>
     (\<forall>u c. readable t (u @ [LabelParameterCall c]) \<longrightarrow>
        (\<exists>w. accepts q w \<and> list_all2 covers w (u @ [LabelParameterNonReturn c]))) \<and>
     (\<forall>u c. accepts q (u @ [LabelParameterNonReturn c]) \<and> (\<forall>l\<in>set u. \<not> is_outcome l) \<longrightarrow>
        (\<exists>v d. readable t (v @ [LabelParameterCall d]) \<and>
           list_all2 covers (v @ [LabelParameterNonReturn d]) (u @ [LabelParameterNonReturn c])))"

lemma exits_match_included:
  assumes e: "\<And>w. accepts e w \<longleftrightarrow> (\<exists>u c. w = u @ [LabelParameterNonReturn c] \<and> readable t (u @ [LabelParameterCall c]))"
    and a: "\<And>w. accepts a w \<longleftrightarrow>
      (\<exists>u c. w = u @ [LabelParameterNonReturn c] \<and> accepts q w \<and> (\<forall>l\<in>set u. \<not> is_outcome l))"
    and incl: "nfa_included e a" "nfa_included a e"
  shows "exits_match t q"
  unfolding exits_match_def
proof (intro conjI allI impI)
  fix u c assume "readable t (u @ [LabelParameterCall c])"
  then have "accepts e (u @ [LabelParameterNonReturn c])" unfolding e by blast
  with incl(1) have "covered a (u @ [LabelParameterNonReturn c])" by (simp add: nfa_included_def)
  then show "\<exists>w. accepts q w \<and> list_all2 covers w (u @ [LabelParameterNonReturn c])"
    unfolding covered_def a by blast
next
  fix u c assume "accepts q (u @ [LabelParameterNonReturn c]) \<and> (\<forall>l\<in>set u. \<not> is_outcome l)"
  then have "accepts a (u @ [LabelParameterNonReturn c])" unfolding a by blast
  with incl(2) have "covered e (u @ [LabelParameterNonReturn c])" by (simp add: nfa_included_def)
  then show "\<exists>v d. readable t (v @ [LabelParameterCall d]) \<and>
      list_all2 covers (v @ [LabelParameterNonReturn d]) (u @ [LabelParameterNonReturn c])"
    unfolding covered_def e by blast
qed

definition mutual_inclusion :: "nfa \<Rightarrow> nfa \<Rightarrow> bool prover" where
  "mutual_inclusion expected actual =
     bind_p (check_nfa_inclusion expected actual) (\<lambda>r.
       if r \<noteq> Included then return_p False
       else bind_p (check_nfa_inclusion actual expected) (\<lambda>r. return_p (r = Included)))"

lemma mutual_inclusion_holds:
  assumes "nfa_wf e" "nfa_wf a"
  shows "holds (mutual_inclusion e a) b (\<lambda>r b'. r \<longleftrightarrow> nfa_included e a \<and> nfa_included a e)"
  unfolding mutual_inclusion_def holds_bind
proof (rule holds_mono [OF check_nfa_inclusion_holds [OF assms]])
  fix r b assume r: "decides e a r"
  show "holds (if r \<noteq> Included then return_p False
      else bind_p (check_nfa_inclusion a e) (\<lambda>r. return_p (r = Included))) b
      (\<lambda>r b'. r \<longleftrightarrow> nfa_included e a \<and> nfa_included a e)"
  proof (cases "r = Included")
    case False
    with r have "\<not> nfa_included e a" by (auto simp: decides_def refutation_def dest: refuted_not_included)
    with False show ?thesis by simp
  next
    case True
    with r have "nfa_included e a" by (auto simp: decides_def refutation_def)
    with True show ?thesis
      by (auto simp: decides_def refutation_def dest: refuted_not_included
          intro!: holds_mono [OF check_nfa_inclusion_holds [OF assms(2,1)]])
  qed
qed

lemma expected_holds:
  assumes "descriptors_ok g"
  shows "holds (bind_p (nfa_build h g trace) parameter_exit_prefixes) b (\<lambda>e b'. nfa_wf e \<and>
    (\<exists>t. builds h g trace t \<and> (\<forall>w. accepts e w \<longleftrightarrow>
       (\<exists>u c. w = u @ [LabelParameterNonReturn c] \<and> readable t (u @ [LabelParameterCall c])))))"
  unfolding holds_bind
proof (rule holds_mono [OF nfa_build_holds [OF descriptors_ok_labels [OF assms]]])
  fix t b assume t: "builds h g trace t"
  then have "nfa_wf t" by (simp add: builds_def)
  from prefixes_holds [OF this] show "holds (parameter_exit_prefixes t) b (\<lambda>e b'. nfa_wf e \<and>
      (\<exists>t. builds h g trace t \<and> (\<forall>w. accepts e w \<longleftrightarrow>
         (\<exists>u c. w = u @ [LabelParameterNonReturn c] \<and> readable t (u @ [LabelParameterCall c])))))"
    by (rule holds_mono) (use t in blast)
qed

lemma actual_holds:
  assumes "descriptors_ok g"
  shows "holds (bind_p (nfa_build h g outcomes) parameter_exit_outcomes) b (\<lambda>a b'. nfa_wf a \<and>
    (\<exists>q. builds h g outcomes q \<and> (\<forall>w. accepts a w \<longleftrightarrow>
       (\<exists>u c. w = u @ [LabelParameterNonReturn c] \<and> accepts q w \<and> (\<forall>l\<in>set u. \<not> is_outcome l)))))"
  unfolding holds_bind
proof (rule holds_mono [OF nfa_build_holds [OF descriptors_ok_labels [OF assms]]])
  fix q b assume q: "builds h g outcomes q"
  then have "nfa_wf q" by (simp add: builds_def)
  from outcomes_holds [OF this] show "holds (parameter_exit_outcomes q) b (\<lambda>a b'. nfa_wf a \<and>
      (\<exists>q. builds h g outcomes q \<and> (\<forall>w. accepts a w \<longleftrightarrow>
         (\<exists>u c. w = u @ [LabelParameterNonReturn c] \<and> accepts q w \<and> (\<forall>l\<in>set u. \<not> is_outcome l)))))"
    by (rule holds_mono) (use q in blast)
qed

lemma coverage_holds:
  assumes "descriptors_ok g"
  shows "holds (bind_p (bind_p (nfa_build h g trace) parameter_exit_prefixes) (\<lambda>expected.
      bind_p (bind_p (nfa_build h g outcomes) parameter_exit_outcomes) (mutual_inclusion expected))) b
    (\<lambda>r b'. \<exists>t q. builds h g trace t \<and> builds h g outcomes q \<and> (r \<longrightarrow> exits_match t q))"
  unfolding holds_bind [of _ "\<lambda>expected. bind_p m (f expected)" for m f] holds_bind [of _ "mutual_inclusion e" for e]
proof (rule holds_mono [OF expected_holds [OF assms]], rule holds_mono [OF actual_holds [OF assms]], elim conjE exE)
  fix e t a q b
  assume *: "nfa_wf e" "builds h g trace t"
    "\<forall>w. accepts e w \<longleftrightarrow> (\<exists>u c. w = u @ [LabelParameterNonReturn c] \<and> readable t (u @ [LabelParameterCall c]))"
    "nfa_wf a" "builds h g outcomes q"
    "\<forall>w. accepts a w \<longleftrightarrow> (\<exists>u c. w = u @ [LabelParameterNonReturn c] \<and> accepts q w \<and> (\<forall>l\<in>set u. \<not> is_outcome l))"
  have "exits_match t q" if "nfa_included e a" "nfa_included a e"
    using *(3,6) that by (intro exits_match_included) blast+
  with *(2,5) show "holds (mutual_inclusion e a) b
      (\<lambda>r b'. \<exists>t q. builds h g trace t \<and> builds h g outcomes q \<and> (r \<longrightarrow> exits_match t q))"
    by (intro holds_mono [OF mutual_inclusion_holds [OF *(1,4)]]) blast
qed

lemma coverage_unfold:
  "parameter_exit_coverage h g trace outcomes limits control =
   prove (bind_p (bind_p (nfa_build h g trace) parameter_exit_prefixes) (\<lambda>expected.
      bind_p (bind_p (nfa_build h g outcomes) parameter_exit_outcomes) (mutual_inclusion expected)))
     (budget_new limits control)"
  by (simp add: parameter_exit_coverage_def mutual_inclusion_def [abs_def])

text \<open>
  C17: Coverage of parameter exits. Take a graph whose references are in range, in which no choice of several
  alternatives has one that starts with a footprint (a trace of unknown order or a widened one): this is
  \<open>choices_plain\<close>, and \<open>footprint_in_choice_covers_more\<close> shows that the statement fails without it. If the check
  succeeds for a trace and its outcomes there, then for every call of a parameter in
  a word of the trace the outcomes have a word that covers what came before the call and ends in the exit
  of that call.
\<close>

theorem parameter_exit_coverage_sound:
  assumes "descriptors_ok g" "choices_plain g"
    and "parameter_exit_coverage h g trace outcomes limits control = Some (Inr True)"
    and "trace_lang h g trace (u @ LabelParameterCall c # v)"
  shows "\<exists>u' c'. trace_lang h g outcomes (u' @ [LabelParameterNonReturn c']) \<and> list_all2 covers u' u \<and> call_covers c' c"
proof -
  from assms(3) holdsD [OF coverage_holds [OF assms(1)]] obtain t q where
    t: "builds h g trace t" and q: "builds h g outcomes q" and exits: "exits_match t q"
    unfolding coverage_unfold prove_Inr by blast
  from t assms(4) have "run t (nf_start t) (u @ [LabelParameterCall c] @ v) (nf_end t)"
    by (simp add: builds_def accepts_def)
  then have "readable t (u @ [LabelParameterCall c])"
    unfolding readable_def using run_split [of t _ "u @ [LabelParameterCall c]" v] by auto
  with exits obtain w where w: "accepts q w" "list_all2 covers w (u @ [LabelParameterNonReturn c])"
    unfolding exits_match_def by blast
  from w(2) obtain u' l where "w = u' @ [l]" "list_all2 covers u' u" "covers l (LabelParameterNonReturn c)"
    by (auto simp: list_all2_append2 list_all2_Cons2)
  moreover from this(3) obtain c' where "l = LabelParameterNonReturn c'" "call_covers c' c" by (cases l) auto
  ultimately show ?thesis using w(1) q assms(2) by (auto simp: builds_def)
qed

text \<open>
  C19: The checks of traces return. On descriptor graphs whose references are in range, both public checks
  return a verdict or an error for any limits and any answers of the execution control: they neither panic
  nor loop, on cyclic traces too.
\<close>

theorem trace_checks_return:
  assumes "descriptors_ok candidate" "descriptors_ok frozen"
  shows "check_trace_inclusion h candidate candidate_root frozen frozen_root limits \<noteq> None \<and>
    check_parameter_exit_coverage h frozen trace outcomes limits \<noteq> None \<and>
    check_parameter_exit_coverage_controlled h frozen trace outcomes limits control \<noteq> None"
  unfolding check_trace_inclusion_def check_parameter_exit_coverage_def check_parameter_exit_coverage_controlled_def
    coverage_unfold prove_not_None
  using holds_not_None [OF inclusion_holds [OF assms]] holds_not_None [OF coverage_holds [OF assms(2)]] by blast

section \<open>A frozen choice that admits too much\<close>

definition sample_key :: definition_key where
  "sample_key = DefinitionKey (PackageKey (sample_fp 8)) [''app''] [''io''] KindEffect"

definition sample_effect :: "string \<Rightarrow> effect_info" where
  "sample_effect name = \<lparr>ef_target = TargetAction sample_key name, ef_arguments = []\<rparr>"

definition sample_action :: "string \<Rightarrow> trace_label" where
  "sample_action name = LabelAction \<lparr>ce_target = TargetAction sample_key name, ce_arguments = []\<rparr>"

definition sample_proof_limits :: trace_proof_limits where
  "sample_proof_limits =
     \<lparr>max_automaton_states = 50, max_transitions = 50, max_product_states = 50, max_product_members = 50, max_steps = 1000\<rparr>"

text \<open>First \<open>a\<close>, then \<open>b\<close>.\<close>

definition sample_candidate :: descriptor_graph where
  "sample_candidate =
     \<lparr>dg_types = [], dg_rows = [], dg_binders = [],
      dg_traces = [TraceSeq [TraceInfoRef 1, TraceInfoRef 2], TraceEvent (sample_effect ''a''), TraceEvent (sample_effect ''b'')]\<rparr>"

text \<open>Any number of \<open>a\<close> and \<open>b\<close>.\<close>

definition sample_frozen :: descriptor_graph where
  "sample_frozen =
     \<lparr>dg_types = [], dg_rows = [], dg_binders = [],
      dg_traces = [TraceRepeat (TraceInfoRef 1), TraceChoice [TraceInfoRef 2, TraceInfoRef 3],
        TraceEvent (sample_effect ''a''), TraceEvent (sample_effect ''b'')]\<rparr>"

text \<open>Either any number of \<open>a\<close>, or \<open>b\<close> alone.\<close>

definition sample_choice :: descriptor_graph where
  "sample_choice =
     \<lparr>dg_types = [], dg_rows = [\<lparr>er_effects = [sample_effect ''a''], er_tail = None\<rparr>], dg_binders = [],
      dg_traces = [TraceChoice [TraceInfoRef 1, TraceInfoRef 2], TraceUnknownOrder (EffectRowInfoRef 0),
        TraceEvent (sample_effect ''b'')]\<rparr>"

lemmas runs =
  bind_p_def charge_def budget_new_def checkpoint_def return_p_def limits_p_def lift_p_def fail_p_def prove_def
  sample_proof_limits_def saturating_add_def usize_max_def Let_def
  nfa_build_def nfa_state_def nfa_empty_def build_loop.simps build_step_def build_node_def repeat_states_def footprint_def
  row_loops_def call_loops_def nfa_add_edge_def edges_at_def action_label_def charge_effect_def insert_label_def labelled_edge_def
  compiled_label_new_def canonical_effect_of_def sample_effect_def graph_trace_def graph_effect_row_def vec_get_def
  key_work_def path_work_def sample_key_def sample_flow_def enumerate_eq_zip
  nfa_closure_def closure_loop.simps closure_step_def closure_edge_def insort_insert_key_def
  check_trace_inclusion_def check_nfa_inclusion_def search_empty_def enqueue_node_def search_loop.simps search_step_def
  candidate_edge_def frozen_targets_def frozen_edge_def effect_covers_def effect_work_def

lemma sample_included:
  "check_trace_inclusion h sample_candidate (TraceInfoRef 0) sample_frozen (TraceInfoRef 0) sample_proof_limits = Some (Inr Included)"
  by (simp add: runs sample_candidate_def sample_frozen_def cong: bind_o_weak)

lemma sample_choice_included:
  "check_trace_inclusion h sample_candidate (TraceInfoRef 0) sample_choice (TraceInfoRef 0) sample_proof_limits = Some (Inr Included)"
  by (simp add: runs sample_candidate_def sample_choice_def cong: bind_o_weak)

lemma trace_in_graph: "graph_trace g r = Some t \<Longrightarrow> t \<in> set (dg_traces g)"
  by (auto simp: graph_trace_def vec_get_def split: if_splits)

lemma choices_plain_no_choice: "\<forall>t\<in>set (dg_traces g). \<forall>parts. t \<noteq> TraceChoice parts \<Longrightarrow> choices_plain g"
  unfolding choices_plain_def using trace_in_graph by blast

lemma choices_plain_no_footprint:
  assumes "\<forall>t\<in>set (dg_traces g). (\<forall>actions. t \<noteq> TraceUnknownOrder actions) \<and> (\<forall>actions calls. t \<noteq> TraceWidened actions calls)"
  shows "choices_plain g"
proof -
  have "\<not> exposed g r" for r
  proof
    assume "exposed g r"
    then show False by induction (use assms trace_in_graph in blast)+
  qed
  then show ?thesis by (simp add: choices_plain_def)
qed

lemma sample_graphs_ok:
  "descriptors_ok sample_candidate" "descriptors_ok sample_frozen" "descriptors_ok sample_choice"
  by (simp_all add: descriptors_ok_def graph_closed_def graph_reference_count_def descriptor_nodes_def node_references_def references_def
      sample_candidate_def sample_frozen_def sample_choice_def vec_get_def trace_references_def effect_references_def
      sample_effect_def node_index_def usize_max_def option_list_def)

lemma sample_graphs_plain: "choices_plain sample_candidate" "choices_plain sample_frozen"
  by (rule choices_plain_no_choice, simp add: sample_candidate_def)
    (rule choices_plain_no_footprint, simp add: sample_frozen_def)

lemma sample_candidate_words: "trace_lang h sample_candidate (TraceInfoRef 0) w \<longleftrightarrow> w = [sample_action ''a'', sample_action ''b'']"
proof -
  have "trace_lang h sample_candidate (TraceInfoRef 1) = (\<lambda>w. w = [sample_action ''a''])"
    "trace_lang h sample_candidate (TraceInfoRef 2) = (\<lambda>w. w = [sample_action ''b''])"
    by (rule ext, subst trace_lang_iffs(2), simp add: graph_trace_def vec_get_def sample_candidate_def,
        simp add: canonical_effect_of_def sample_effect_def sample_action_def)+
  then show ?thesis
    by (subst trace_lang_iffs(5), simp add: graph_trace_def vec_get_def sample_candidate_def)
      (auto simp: list_all2_Cons1)
qed

lemma sample_choice_words:
  "trace_lang h sample_choice (TraceInfoRef 0) w \<longleftrightarrow> set w \<subseteq> {sample_action ''a''} \<or> w = [sample_action ''b'']"
proof -
  have "trace_lang h sample_choice (TraceInfoRef 1) w \<longleftrightarrow> set w \<subseteq> {sample_action ''a''}"
    by (subst trace_lang_iffs(8), simp add: graph_trace_def vec_get_def sample_choice_def)
      (simp add: row_labels_def graph_effect_row_def vec_get_def sample_choice_def canonical_effect_of_def
        sample_effect_def sample_action_def)
  moreover have "trace_lang h sample_choice (TraceInfoRef 2) w \<longleftrightarrow> w = [sample_action ''b'']"
    by (subst trace_lang_iffs(2), simp add: graph_trace_def vec_get_def sample_choice_def)
      (simp add: canonical_effect_of_def sample_effect_def sample_action_def)
  ultimately show ?thesis
    by (subst trace_lang_iffs(6), simp add: graph_trace_def vec_get_def sample_choice_def) auto
qed

text \<open>
  The self-loops of a footprint sit on the state where the alternatives of the choice start, so that the
  automaton of \<open>sample_choice\<close> reads \<open>a b\<close>: the check accepts a candidate whose only word the frozen trace
  does not cover.
\<close>

theorem footprint_in_choice_admits_more:
  "check_trace_inclusion h sample_candidate (TraceInfoRef 0) sample_choice (TraceInfoRef 0) sample_proof_limits =
     Some (Inr Included) \<and>
   trace_lang h sample_candidate (TraceInfoRef 0) [sample_action ''a'', sample_action ''b''] \<and>
   (\<nexists>w. trace_lang h sample_choice (TraceInfoRef 0) w \<and> list_all2 covers w [sample_action ''a'', sample_action ''b''])"
proof -
  have "\<not> list_all2 covers w [sample_action ''a'', sample_action ''b'']"
    if "set w \<subseteq> {sample_action ''a''} \<or> w = [sample_action ''b'']" for w
    using that by (auto simp: list_all2_Cons2 sample_action_def effect_covers_def)
  then show ?thesis by (simp add: sample_choice_included sample_candidate_words sample_choice_words) blast
qed

section \<open>Instances\<close>

lemma sample_build:
  "\<exists>n b. nfa_build h sample_candidate (TraceInfoRef 0) (budget_new sample_proof_limits None) = Some (Inr (n, b))"
  by (simp add: runs sample_candidate_def cong: bind_o_weak)

theorem nfa_build_language_witness:
  "\<exists>n b. nfa_build sample_hash sample_candidate (TraceInfoRef 0) (budget_new sample_proof_limits None) = Some (Inr (n, b)) \<and>
     accepts n [sample_action ''a'', sample_action ''b''] \<and> \<not> accepts n [sample_action ''a'']"
  using nfa_build_language [OF sample_graphs_ok(1), of sample_hash "TraceInfoRef 0" "budget_new sample_proof_limits None"]
    sample_build [of sample_hash] sample_graphs_plain(1)
  by (auto simp: sample_candidate_words)

theorem trace_inclusion_sound_witness:
  "\<exists>w. trace_lang sample_hash sample_frozen (TraceInfoRef 0) w \<and>
     list_all2 covers w [sample_action ''a'', sample_action ''b'']"
  by (rule trace_inclusion_sound [OF sample_graphs_ok(1,2) sample_graphs_plain(2) sample_included])
    (simp add: sample_candidate_words)

theorem trace_checks_return_witness:
  "check_trace_inclusion sample_hash sample_candidate (TraceInfoRef 0) sample_choice (TraceInfoRef 0) trace_proof_limits_default \<noteq> None"
  using trace_checks_return [OF sample_graphs_ok(1,3)] by blast

definition sample_nfa :: "string \<Rightarrow> nfa" where
  "sample_nfa name =
     \<lparr>nf_edges = [[\<lparr>ed_label = Some (compiled_label_new (sample_action name)), ed_to = 1, ed_source = TraceInfoRef 0\<rparr>], []],
      nf_start = 0, nf_end = 1, nf_transitions = 1, nf_labels = Map.empty\<rparr>"

lemma sample_nfa_wf: "nfa_wf (sample_nfa name)"
  by (auto simp: nfa_wf_def sample_nfa_def nfa_edge_at_def nth_Cons split: nat.splits)

lemma sample_nfa_check:
  "\<exists>b. check_nfa_inclusion (sample_nfa ''a'') (sample_nfa ''b'') (budget_new sample_proof_limits None) =
     Some (Inr (NotProven [(TraceInfoRef 0, sample_action ''a'')], b))"
  by (simp add: runs sample_nfa_def sample_action_def not_proven_def witness_def witness_loop.simps cong: bind_o_weak)

theorem check_nfa_inclusion_decides_witness:
  "refuted_by (sample_nfa ''a'') (sample_nfa ''b'') [sample_action ''a''] \<and>
   \<not> nfa_included (sample_nfa ''a'') (sample_nfa ''b'')"
  using check_nfa_inclusion_decides [OF sample_nfa_wf sample_nfa_wf, of "''a''" "''b''" "budget_new sample_proof_limits None"]
    sample_nfa_check by fastforce

text \<open>A trace that calls its parameter, and the outcome in which the call does not return.\<close>

definition sample_call :: parameter_call_info where
  "sample_call =
     \<lparr>pc_callable = CallableDeclaration sample_flow, pc_signature = TypeInfoRef 0, pc_position = 0,
      pc_arguments = Some [], pc_handlers = Some []\<rparr>"

definition sample_calls :: descriptor_graph where
  "sample_calls =
     \<lparr>dg_types = [TypePrimitive PUnit], dg_rows = [], dg_binders = [],
      dg_traces = [TraceParameterCall sample_call, TraceOutcome (OutcomeParameterNonReturn sample_call)]\<rparr>"

lemma sample_calls_ok: "descriptors_ok sample_calls" "choices_plain sample_calls"
  by (simp_all add: descriptors_ok_def graph_closed_def graph_reference_count_def descriptor_nodes_def node_references_def references_def
      sample_calls_def sample_call_def vec_get_def trace_references_def parameter_call_references_def type_references_def
      node_index_def usize_max_def option_list_def)
    (rule choices_plain_no_choice, simp)

lemma sample_signature: "\<exists>f. type_fingerprint h sample_calls (TypeInfoRef 0) = Some (Inr f)"
proof -
  have "node_index sample_calls (NodeType (TypeInfoRef 0)) \<noteq> None" by (simp add: node_index_def sample_calls_def)
  with fingerprint_loop_returns [of sample_calls "NodeType (TypeInfoRef 0)" h "enc_new ''etas.code.type-descriptor.v1''"]
    sample_calls_ok(1)
  show ?thesis by (auto simp: descriptors_ok_def type_fingerprint_def node_fingerprint_def node_fingerprint_with_budget_def)
qed

lemma sample_coverage:
  "parameter_exit_coverage h sample_calls (TraceInfoRef 0) (TraceInfoRef 1) sample_proof_limits None = Some (Inr True)"
proof -
  obtain f where "type_fingerprint h sample_calls (TypeInfoRef 0) = Some (Inr f)" using sample_signature by blast
  then show ?thesis
    by (simp add: runs parameter_exit_coverage_def sample_calls_def sample_call_def nfa_call_label_def charge_call_def charge_graph_def
      outcome_entry_def charge_outcome_def outcome_label_def parameter_call_label_def handler_scope_labels_def
      parameter_exit_prefixes_def parameter_exit_outcomes_def for_edges_def prefix_exit_def outcome_exit_def add_exits_def
      drop_outcomes_def prune_nonterminating_def incoming_edge_def live_loop.simps live_step_def retain_live_def
      call_work_def handlers_work_def call_covers_def cong: bind_o_weak)
qed

theorem parameter_exit_coverage_sound_witness:
  "\<exists>c. trace_lang sample_hash sample_calls (TraceInfoRef 0) [LabelParameterCall c] \<and>
     (\<exists>u c'. trace_lang sample_hash sample_calls (TraceInfoRef 1) (u @ [LabelParameterNonReturn c']) \<and>
        list_all2 covers u [] \<and> call_covers c' c)"
proof -
  obtain f where f: "type_fingerprint sample_hash sample_calls (TypeInfoRef 0) = Some (Inr f)" using sample_signature by blast
  have "graph_trace sample_calls (TraceInfoRef 0) = Some (TraceParameterCall sample_call)"
    by (simp add: graph_trace_def vec_get_def sample_calls_def)
  moreover from f obtain c where "parameter_call_label sample_hash sample_calls sample_call = Some (Inr c)"
    by (simp add: parameter_call_label_def sample_call_def handler_scope_labels_def)
  ultimately have "trace_lang sample_hash sample_calls (TraceInfoRef 0) [LabelParameterCall c]" by (rule lang_call)
  then show ?thesis
    using parameter_exit_coverage_sound [OF sample_calls_ok sample_coverage, of sample_hash "[]" c "[]"] by auto
qed

text \<open>Any number of \<open>a\<close> and a call; as outcomes, any number of \<open>a\<close> or the exit of the call.\<close>

definition sample_exits :: descriptor_graph where
  "sample_exits =
     \<lparr>dg_types =
        [TypeFunction \<lparr>sg_generics = [], sg_parameters = [\<lparr>pa_name = None, pa_ty = TypeInfoRef 1\<rparr>], sg_output = TypeInfoRef 2,
           sg_declared_output = None, sg_effects = None\<rparr>,
         TypeFunction \<lparr>sg_generics = [], sg_parameters = [], sg_output = TypeInfoRef 2, sg_declared_output = None,
           sg_effects = Some (EffectRowInfoRef 0)\<rparr>,
         TypePrimitive PUnit],
      dg_rows = [\<lparr>er_effects = [sample_effect ''a''], er_tail = None\<rparr>], dg_binders = [],
      dg_traces = [TraceSeq [TraceInfoRef 1, TraceInfoRef 2], TraceRepeat (TraceInfoRef 6), TraceParameterCall sample_call,
        TraceChoice [TraceInfoRef 4, TraceInfoRef 5], TraceUnknownOrder (EffectRowInfoRef 0),
        TraceOutcome (OutcomeParameterNonReturn sample_call), TraceEvent (sample_effect ''a'')]\<rparr>"

lemma sample_exits_signature: "\<exists>f. type_fingerprint h sample_exits (TypeInfoRef 0) = Some (Inr f)"
proof -
  have "graph_closed sample_exits" "Suc (graph_reference_count sample_exits) \<le> usize_max" "node_index sample_exits (NodeType (TypeInfoRef 0)) \<noteq> None"
    by (simp_all add: graph_closed_def graph_reference_count_def descriptor_nodes_def node_references_def references_def
      sample_exits_def sample_call_def vec_get_def trace_references_def parameter_call_references_def type_references_def effect_references_def
      sample_effect_def node_index_def usize_max_def option_list_def)
  with fingerprint_loop_returns [of sample_exits "NodeType (TypeInfoRef 0)" h "enc_new ''etas.code.type-descriptor.v1''"]
  show ?thesis by (auto simp: type_fingerprint_def node_fingerprint_def node_fingerprint_with_budget_def)
qed

lemma sample_exits_covered:
  "parameter_exit_coverage h sample_exits (TraceInfoRef 0) (TraceInfoRef 3) sample_proof_limits None = Some (Inr True)"
proof -
  obtain f where "type_fingerprint h sample_exits (TypeInfoRef 0) = Some (Inr f)" using sample_exits_signature by blast
  then show ?thesis
    by (simp add: runs parameter_exit_coverage_def sample_exits_def sample_call_def nfa_call_label_def charge_call_def charge_graph_def
      outcome_entry_def charge_outcome_def outcome_label_def parameter_call_label_def handler_scope_labels_def
      parameter_exit_prefixes_def parameter_exit_outcomes_def for_edges_def prefix_exit_def outcome_exit_def add_exits_def
      drop_outcomes_def prune_nonterminating_def incoming_edge_def live_loop.simps live_step_def retain_live_def
      call_work_def handlers_work_def call_covers_def cong: bind_o_weak)
qed

lemma sample_exits_words:
  assumes "trace_lang h sample_exits (TraceInfoRef 3) w"
  shows "set w \<subseteq> {sample_action ''a''} \<or> length w = 1"
proof -
  have "trace_lang h sample_exits (TraceInfoRef 4) w \<longleftrightarrow> set w \<subseteq> {sample_action ''a''}"
    by (subst trace_lang_iffs(8), simp add: graph_trace_def vec_get_def sample_exits_def)
      (simp add: row_labels_def graph_effect_row_def vec_get_def sample_exits_def canonical_effect_of_def
        sample_effect_def sample_action_def)
  moreover have "trace_lang h sample_exits (TraceInfoRef 5) w \<Longrightarrow> length w = 1"
    by (subst (asm) trace_lang_iffs(3), simp add: graph_trace_def vec_get_def sample_exits_def) auto
  moreover have "trace_lang h sample_exits (TraceInfoRef 3) w \<longleftrightarrow>
      trace_lang h sample_exits (TraceInfoRef 4) w \<or> trace_lang h sample_exits (TraceInfoRef 5) w"
    by (subst trace_lang_iffs(6), simp add: graph_trace_def vec_get_def sample_exits_def) auto
  ultimately show ?thesis using assms by blast
qed

lemma sample_exits_call:
  "\<exists>c. trace_lang h sample_exits (TraceInfoRef 0) [sample_action ''a'', LabelParameterCall c]"
proof -
  obtain f where "type_fingerprint h sample_exits (TypeInfoRef 0) = Some (Inr f)" using sample_exits_signature by blast
  then obtain c where c: "parameter_call_label h sample_exits sample_call = Some (Inr c)"
    by (simp add: parameter_call_label_def sample_call_def handler_scope_labels_def)
  have "trace_lang h sample_exits (TraceInfoRef 6) [sample_action ''a'']"
    by (subst trace_lang_iffs(2), simp add: graph_trace_def vec_get_def sample_exits_def)
      (simp add: canonical_effect_of_def sample_effect_def sample_action_def)
  then have "trace_lang h sample_exits (TraceInfoRef 1) [sample_action ''a'']"
    by (subst trace_lang_iffs(7), simp add: graph_trace_def vec_get_def sample_exits_def)
      (rule exI [of _ "[[sample_action ''a'']]"], simp)
  moreover from c have "trace_lang h sample_exits (TraceInfoRef 2) [LabelParameterCall c]"
    by (subst trace_lang_iffs(4), simp add: graph_trace_def vec_get_def sample_exits_def) simp
  ultimately have "trace_lang h sample_exits (TraceInfoRef 0) [sample_action ''a'', LabelParameterCall c]"
    by (subst trace_lang_iffs(5), simp add: graph_trace_def vec_get_def sample_exits_def)
      (rule exI [of _ "[[sample_action ''a''], [LabelParameterCall c]]"], simp)
  then show ?thesis ..
qed

text \<open>
  The same self-loops mislead the check of exits: in \<open>sample_exits\<close> the trace does any number of \<open>a\<close> and then calls the
  parameter, while the outcomes are either any number of \<open>a\<close> or the exit of the call at once. The check succeeds,
  and no outcome covers \<open>a\<close> followed by the exit.
\<close>

theorem footprint_in_choice_covers_more:
  "parameter_exit_coverage h sample_exits (TraceInfoRef 0) (TraceInfoRef 3) sample_proof_limits None = Some (Inr True) \<and>
   (\<exists>c. trace_lang h sample_exits (TraceInfoRef 0) [sample_action ''a'', LabelParameterCall c]) \<and>
   (\<nexists>u c. trace_lang h sample_exits (TraceInfoRef 3) (u @ [LabelParameterNonReturn c]) \<and> list_all2 covers u [sample_action ''a''])"
proof -
  have "\<not> trace_lang h sample_exits (TraceInfoRef 3) (u @ [LabelParameterNonReturn c])"
    if "list_all2 covers u [sample_action ''a'']" for u c
    using sample_exits_words [of h "u @ [LabelParameterNonReturn c]"] list_all2_lengthD [OF that] by (auto simp: sample_action_def)
  then show ?thesis using sample_exits_covered sample_exits_call by blast
qed

end
