(* ===== verification/Validation.thy ===== *)
theory Validation
  imports Fingerprints Effects
begin

text \<open>
  \<open>etas_code/src/descriptor/validation.rs\<close> and \<open>validate_expansion\<close> of \<open>traversal.rs\<close>: what
  \<open>DescriptorGraph::new\<close> checks of the vectors it is given. The validator counts text bytes and edges; a
  check maps it to a panic (\<open>None\<close>), an error, or a value and the validator.
\<close>

section \<open>Limits and counters\<close>

record descriptor_limits =
  dl_max_nodes :: nat
  dl_max_edges :: nat
  dl_max_expansion_depth :: nat
  dl_max_text_bytes :: nat

definition descriptor_limits_default :: descriptor_limits where
  "descriptor_limits_default =
     \<lparr>dl_max_nodes = 65536, dl_max_edges = 262144, dl_max_expansion_depth = 256, dl_max_text_bytes = 8 * 1024 * 1024\<rparr>"

record validator =
  vd_text_bytes :: nat
  vd_edge_count :: nat

type_synonym 'a check = "(validator, descriptor_error, 'a) effect"

definition edge_limit :: "descriptor_limits \<Rightarrow> descriptor_error" where
  "edge_limit lim = DescriptorLimit ''edges'' (dl_max_edges lim)"

definition count_edges :: "descriptor_limits \<Rightarrow> nat \<Rightarrow> unit check" where
  "count_edges lim n v =
     (let count = saturating_add (vd_edge_count v) n in
      if dl_max_edges lim < count then fail_p (edge_limit lim) v
      else return_p () (v\<lparr>vd_edge_count := count\<rparr>))"

definition room_for :: "descriptor_limits \<Rightarrow> nat \<Rightarrow> unit check" where
  "room_for lim n v =
     (if dl_max_edges lim - vd_edge_count v < n then fail_p (edge_limit lim) v else return_p () v)"

section \<open>Names and identities\<close>

definition check_text :: "descriptor_limits \<Rightarrow> string \<Rightarrow> unit check" where
  "check_text lim value v =
     (case checked_add (vd_text_bytes v) (length value) of
        None \<Rightarrow> fail_p (DescriptorLimit ''text bytes'' (dl_max_text_bytes lim)) v
      | Some n \<Rightarrow>
          if dl_max_text_bytes lim < n then fail_p (DescriptorLimit ''text bytes'' (dl_max_text_bytes lim)) v
          else return_p () (v\<lparr>vd_text_bytes := n\<rparr>))"

definition check_name :: "descriptor_limits \<Rightarrow> descriptor_node \<Rightarrow> string \<Rightarrow> unit check" where
  "check_name lim node value =
     (if bad_segment value then fail_p (InvalidNode node ''empty or invalid name'') else check_text lim value)"

definition check_names :: "descriptor_limits \<Rightarrow> descriptor_node \<Rightarrow> string list \<Rightarrow> unit check" where
  "check_names lim node values =
     bind_p
       (fold_p (\<lambda>value seen.
            bind_p (check_name lim node value) (\<lambda>_.
              if value \<in> set seen then fail_p (DuplicateName node value) else return_p (value # seen)))
          values [])
       (\<lambda>_. return_p ())"

definition check_identity :: "descriptor_limits \<Rightarrow> definition_key \<Rightarrow> unit check" where
  "check_identity lim key = each_p (check_text lim) (dk_module key @ dk_declaration key)"

definition check_kind :: "descriptor_limits \<Rightarrow> descriptor_node \<Rightarrow> definition_key \<Rightarrow> definition_kind \<Rightarrow> unit check" where
  "check_kind lim node key kind =
     (if dk_kind key \<noteq> kind then fail_p (InvalidNode node ''declaration identity has the wrong kind'')
      else check_identity lim key)"

definition check_implementation :: "descriptor_limits \<Rightarrow> implementation_key \<Rightarrow> unit check" where
  "check_implementation lim key =
     bind_p (each_p (check_text lim) (ik_module key)) (\<lambda>_.
     bind_p (check_identity lim (ik_subject key)) (\<lambda>_.
       case ik_selected_spec key of None \<Rightarrow> return_p () | Some spec \<Rightarrow> check_identity lim spec))"

definition check_callable :: "descriptor_limits \<Rightarrow> descriptor_node \<Rightarrow> callable_id \<Rightarrow> unit check" where
  "check_callable lim node callable =
     (case callable of
        CallableDeclaration declaration \<Rightarrow> check_identity lim declaration
      | CallableMethod method \<Rightarrow>
          (let implementation = mi_implementation method in
           bind_p (check_identity lim (ik_subject implementation)) (\<lambda>_.
           bind_p (case ik_selected_spec implementation of
                     None \<Rightarrow> return_p ()
                   | Some spec \<Rightarrow> check_kind lim node spec KindSpec) (\<lambda>_.
           bind_p (each_p (check_text lim) (ik_module implementation)) (\<lambda>_.
             check_name lim node (mi_name method))))))"

definition check_owner :: "descriptor_limits \<Rightarrow> generic_owner \<Rightarrow> unit check" where
  "check_owner lim owner =
     (case owner of
        OwnerDeclaration key \<Rightarrow> check_identity lim key
      | OwnerImplementationPattern key \<Rightarrow> check_identity lim key
      | OwnerMethod method \<Rightarrow>
          bind_p (check_text lim (mi_name method)) (\<lambda>_. check_implementation lim (mi_implementation method))
      | OwnerImplementation implementation \<Rightarrow> check_implementation lim implementation)"

section \<open>Binders\<close>

definition binder_kind ::
  "descriptor_graph \<Rightarrow> descriptor_node \<Rightarrow> generic_parameter_ref \<Rightarrow> generic_parameter_kind \<Rightarrow> unit check" where
  "binder_kind g node parameter kind =
     (case vec_get (dg_binders g) (gpr_index parameter) of
        None \<Rightarrow> fail_p (MissingReference node (NodeBinder parameter))
      | Some binder \<Rightarrow>
          if gp_kind binder \<noteq> kind then fail_p (InvalidNode node ''generic binder has the wrong kind'') else return_p ())"

type_synonym binder_sets = "(generic_owner \<times> u32) list \<times> (generic_owner \<times> string) list"

definition validate_binder ::
  "descriptor_limits \<Rightarrow> bool \<Rightarrow> nat \<times> generic_parameter_info \<Rightarrow> binder_sets \<Rightarrow> binder_sets check" where
  "validate_binder lim allow_duplicate_binders entry sets =
     (case entry of (index, binder) \<Rightarrow>
      case sets of (identities, names) \<Rightarrow>
      let node = NodeBinder (GenericParameterRef (of_nat index));
          identity = (gp_owner binder, gp_position binder);
          name = (gp_owner binder, gp_name binder);
          scoped = alpha_scoped (gp_owner binder)
      in
      bind_p (check_name lim node (gp_name binder)) (\<lambda>_.
      bind_p (check_owner lim (gp_owner binder)) (\<lambda>_.
        if (identity \<in> set identities \<or> \<not> (scoped \<or> name \<notin> set names)) \<and> \<not> allow_duplicate_binders
        then fail_p (InvalidNode node ''duplicate generic binder identity or name'')
        else if gp_kind binder = ParameterEffectRow \<and> gp_bounds binder \<noteq> []
        then fail_p (InvalidNode node ''effect-row binder has type-spec bounds'')
        else
          bind_p (each_p (\<lambda>bound. check_kind lim node (sp_definition bound) KindSpec) (gp_bounds binder)) (\<lambda>_.
            return_p (identity # identities, if scoped then names else name # names)))))"

section \<open>Types\<close>

definition check_parameters ::
  "descriptor_graph \<Rightarrow> descriptor_node \<Rightarrow> definition_key \<Rightarrow> generic_parameter_ref list \<Rightarrow> unit check" where
  "check_parameters g node definition_key parameters =
     bind_p
       (fold_p (\<lambda>parameter seen.
            bind_p (binder_kind g node parameter ParameterType) (\<lambda>_.
              case vec_get (dg_binders g) (gpr_index parameter) of
                None \<Rightarrow> panic_p
              | Some binder \<Rightarrow>
                  if gp_owner binder \<noteq> OwnerDeclaration definition_key \<or> parameter \<in> set seen
                  then fail_p (InvalidNode node ''nominal/alias generic binder has a different owner or is duplicated'')
                  else return_p (parameter # seen)))
          parameters [])
       (\<lambda>_. return_p ())"

definition check_declared ::
  "descriptor_limits \<Rightarrow> descriptor_graph \<Rightarrow> descriptor_node \<Rightarrow> bool \<Rightarrow> definition_key \<Rightarrow> generic_parameter_ref list \<Rightarrow>
   unit check" where
  "check_declared lim g node nominal key parameters =
     bind_p
       (if nominal \<and> dk_kind key = KindAgent
        then
          bind_p (check_identity lim key) (\<lambda>_.
            if parameters \<noteq> []
            then fail_p (InvalidNode node ''nominal agent component cannot declare type parameters'')
            else return_p ())
        else check_kind lim node key KindType)
       (\<lambda>_. check_parameters g node key parameters)"

definition check_variants :: "descriptor_limits \<Rightarrow> descriptor_node \<Rightarrow> variant_info list \<Rightarrow> unit check" where
  "check_variants lim node variants =
     bind_p (check_names lim node (map vi_name variants)) (\<lambda>_.
       each_p (\<lambda>variant.
           case vi_payload variant of
             PayloadNamed named \<Rightarrow> check_names lim node (map fi_name named)
           | _ \<Rightarrow> return_p ())
         variants)"

fun declared_parameters :: "type_info \<Rightarrow> generic_parameter_ref list option" where
  "declared_parameters (TypeNominal _ parameters _) = Some parameters"
| "declared_parameters (TypeAlias _ parameters _) = Some parameters"
| "declared_parameters (TypeEnum _ parameters _) = Some parameters"
| "declared_parameters _ = None"

definition check_applied ::
  "descriptor_graph \<Rightarrow> descriptor_node \<Rightarrow> type_info_ref \<Rightarrow> type_info_ref list \<Rightarrow> unit check" where
  "check_applied g node constructor arguments =
     (case vec_get (dg_types g) (tir_index constructor) of
        None \<Rightarrow> fail_p (MissingReference node (NodeType constructor))
      | Some target \<Rightarrow>
          (case declared_parameters target of
             None \<Rightarrow> fail_p (InvalidNode node ''applied type has no nominal/alias constructor'')
           | Some parameters \<Rightarrow>
               if length parameters \<noteq> length arguments
               then fail_p (InvalidNode node ''applied type generic arity differs from its constructor'')
               else return_p ()))"

definition check_signature :: "descriptor_limits \<Rightarrow> descriptor_node \<Rightarrow> signature_info \<Rightarrow> unit check" where
  "check_signature lim node signature =
     bind_p (check_names lim node (List.map_filter pa_name (sg_parameters signature))) (\<lambda>_.
       if distinct (sg_generics signature) then return_p ()
       else fail_p (InvalidNode node ''signature repeats a generic binder''))"

definition validate_type :: "descriptor_limits \<Rightarrow> descriptor_graph \<Rightarrow> nat \<times> type_info \<Rightarrow> unit check" where
  "validate_type lim g entry =
     (case entry of (index, ty) \<Rightarrow>
      let node = NodeType (TypeInfoRef (of_nat index)) in
      case ty of
        TypeExistential bounds \<Rightarrow>
          if bounds = [] then fail_p (InvalidNode node ''existential type requires a spec bound'')
          else each_p (\<lambda>bound. check_kind lim node (sp_definition bound) KindSpec) bounds
      | TypePrimitive _ \<Rightarrow> return_p ()
      | TypeTuple _ \<Rightarrow> return_p ()
      | TypeBuiltin constructor arguments \<Rightarrow>
          if builtin_arity constructor \<noteq> length arguments
          then fail_p (InvalidNode node ''builtin type generic arity differs from its constructor'')
          else return_p ()
      | TypeParameter parameter \<Rightarrow> binder_kind g node parameter ParameterType
      | TypeRecord named \<Rightarrow> check_names lim node (map fi_name named)
      | TypeNominal key parameters _ \<Rightarrow> check_declared lim g node True key parameters
      | TypeAlias key parameters _ \<Rightarrow> check_declared lim g node False key parameters
      | TypeEnum key parameters variants \<Rightarrow>
          bind_p (check_declared lim g node False key parameters) (\<lambda>_. check_variants lim node variants)
      | TypeApplied constructor arguments \<Rightarrow> check_applied g node constructor arguments
      | TypeFunction signature \<Rightarrow> check_signature lim node signature
      | TypeHandler _ _ _ \<Rightarrow> return_p ()
      | TypeTask _ _ \<Rightarrow> return_p ())"

section \<open>Effects and observations\<close>

definition check_effect_argument :: "descriptor_limits \<Rightarrow> descriptor_node \<Rightarrow> static_effect_arg_info \<Rightarrow> unit check" where
  "check_effect_argument lim node argument =
     (case argument of
        ArgResource key \<Rightarrow> check_identity lim key
      | ArgCallable c \<Rightarrow> check_callable lim node c
      | ArgString value \<Rightarrow> check_text lim value
      | ArgInteger value \<Rightarrow> check_text lim value
      | ArgType _ \<Rightarrow> return_p ()
      | ArgWildcard \<Rightarrow> return_p ())"

definition check_effect :: "descriptor_limits \<Rightarrow> descriptor_node \<Rightarrow> effect_info \<Rightarrow> unit check" where
  "check_effect lim node effect =
     bind_p
       (case ef_target effect of
          TargetEffect key \<Rightarrow> return_p key
        | TargetAction key name \<Rightarrow> bind_p (check_name lim node name) (\<lambda>_. return_p key))
       (\<lambda>identity.
     bind_p (check_kind lim node identity KindEffect) (\<lambda>_.
       each_p (check_effect_argument lim node) (ef_arguments effect)))"

definition validate_row :: "descriptor_limits \<Rightarrow> descriptor_graph \<Rightarrow> nat \<times> effect_row_info \<Rightarrow> unit check" where
  "validate_row lim g entry =
     (case entry of (index, row) \<Rightarrow>
      let node = NodeRow (EffectRowInfoRef (of_nat index)) in
      bind_p (case er_tail row of None \<Rightarrow> return_p () | Some tail \<Rightarrow> binder_kind g node tail ParameterEffectRow) (\<lambda>_.
        each_p (check_effect lim node) (er_effects row)))"

text \<open>The loops over references end because they keep the set of references they have seen.\<close>

lemma finite_type_refs: "finite (UNIV :: type_info_ref set)"
proof -
  have "surj TypeInfoRef" by (rule surjI [of _ tir_index]) simp
  then show ?thesis by (metis finite finite_imageI)
qed

lemma finite_trace_refs: "finite (UNIV :: trace_info_ref set)"
proof -
  have "surj TraceInfoRef" by (rule surjI [of _ trr_index]) simp
  then show ?thesis by (metis finite finite_imageI)
qed

definition unseen :: "'a list \<Rightarrow> nat" where
  "unseen seen = card (- set seen)"

lemma unseen_less: "finite (UNIV :: 'a set) \<Longrightarrow> x \<notin> set seen \<Longrightarrow> unseen ((x :: 'a) # seen) < unseen seen"
  unfolding unseen_def by (rule psubset_card_mono) (auto intro: finite_subset [of _ UNIV])

definition observation_mismatch :: "descriptor_node \<Rightarrow> unit check" where
  "observation_mismatch node = fail_p (InvalidNode node ''return observation does not match its checked result type'')"

function observation_loop ::
  "descriptor_limits \<Rightarrow> descriptor_graph \<Rightarrow> descriptor_node \<Rightarrow> return_observation_info \<Rightarrow> type_info_ref list \<Rightarrow> type_info_ref \<Rightarrow>
   unit check" where
  "observation_loop lim g node observation visited current =
     (if current \<in> set visited then observation_mismatch node
      else
        case vec_get (dg_types g) (tir_index current) of
          None \<Rightarrow> fail_p (MissingReference node (NodeType current))
        | Some (TypeAlias _ _ target) \<Rightarrow> observation_loop lim g node observation (current # visited) target
        | Some (TypePrimitive PNever) \<Rightarrow> observation_mismatch node
        | Some ty \<Rightarrow>
            (case observation of
               ObservedAny \<Rightarrow> return_p ()
             | ObservedUnit \<Rightarrow> if ty = TypePrimitive PUnit then return_p () else observation_mismatch node
             | ObservedBool _ \<Rightarrow> if ty = TypePrimitive PBool then return_p () else observation_mismatch node
             | ObservedVariant key name \<Rightarrow>
                 (case ty of
                    TypeApplied constructor _ \<Rightarrow> observation_loop lim g node observation (current # visited) constructor
                  | TypeEnum enum _ variants \<Rightarrow>
                      if enum = key \<and> name \<in> set (map vi_name variants)
                      then bind_p (check_identity lim key) (\<lambda>_. check_name lim node name)
                      else observation_mismatch node
                  | _ \<Rightarrow> observation_mismatch node)))"
  by pat_completeness auto

termination
  by (relation "measure (\<lambda>(lim, g, node, observation, visited, current). unseen visited)")
    (auto intro: unseen_less finite_type_refs)

declare observation_loop.simps [simp del]

definition return_observation ::
  "descriptor_limits \<Rightarrow> descriptor_graph \<Rightarrow> descriptor_node \<Rightarrow> type_info_ref \<Rightarrow> return_observation_info \<Rightarrow> unit check" where
  "return_observation lim g node ty observation = observation_loop lim g node observation [] ty"

section \<open>Parameter calls\<close>

definition integer_width :: "primitive_info \<Rightarrow> (bool \<times> nat) option" where
  "integer_width primitive =
     (case primitive of
        PI8 \<Rightarrow> Some (True, 8) | PI16 \<Rightarrow> Some (True, 16) | PI32 \<Rightarrow> Some (True, 32)
      | PI64 \<Rightarrow> Some (True, 64) | PIsize \<Rightarrow> Some (True, 64) | PI128 \<Rightarrow> Some (True, 128)
      | PU8 \<Rightarrow> Some (False, 8) | PU16 \<Rightarrow> Some (False, 16) | PU32 \<Rightarrow> Some (False, 32)
      | PU64 \<Rightarrow> Some (False, 64) | PUsize \<Rightarrow> Some (False, 64) | PU128 \<Rightarrow> Some (False, 128)
      | _ \<Rightarrow> None)"

definition integer_argument_fits :: "primitive_info \<Rightarrow> bool \<Rightarrow> 128 word \<Rightarrow> bool" where
  "integer_argument_fits primitive negative magnitude =
     (case integer_width primitive of
        None \<Rightarrow> False
      | Some (is_signed, bits) \<Rightarrow>
          if negative \<and> (\<not> is_signed \<or> magnitude = 0) then False
          else if is_signed
          then (let boundary = push_bit (bits - 1) 1 in if negative then magnitude \<le> boundary else magnitude < boundary)
          else if bits = 128 then True
          else magnitude < push_bit bits 1)"

function handler_loop ::
  "descriptor_limits \<Rightarrow> descriptor_graph \<Rightarrow> descriptor_node \<Rightarrow> trace_info_ref list \<Rightarrow> trace_info_ref list \<Rightarrow> unit check" where
  "handler_loop lim g node visited pending =
     (case pending of
        [] \<Rightarrow> return_p ()
      | reference # pending' \<Rightarrow>
          bind_p (count_edges lim 1) (\<lambda>_.
            if reference \<in> set visited then handler_loop lim g node visited pending'
            else
              case vec_get (dg_traces g) (trr_index reference) of
                None \<Rightarrow> fail_p (MissingReference node (NodeTrace reference))
              | Some (TraceSeq parts) \<Rightarrow>
                  bind_p (room_for lim (length parts)) (\<lambda>_.
                    handler_loop lim g node (reference # visited) (rev parts @ pending'))
              | Some (TraceChoice parts) \<Rightarrow>
                  bind_p (room_for lim (length parts)) (\<lambda>_.
                    handler_loop lim g node (reference # visited) (rev parts @ pending'))
              | Some (TraceRepeat inner) \<Rightarrow> handler_loop lim g node (reference # visited) (inner # pending')
              | Some (TraceOutcome _) \<Rightarrow>
                  fail_p (InvalidNode node ''handler arm trace must contain only checked concrete actions'')
              | Some (TraceParameterCall _) \<Rightarrow>
                  fail_p (InvalidNode node ''handler arm trace must contain only checked concrete actions'')
              | Some (TraceWidened _ _) \<Rightarrow>
                  fail_p (InvalidNode node ''handler arm trace must contain only checked concrete actions'')
              | Some _ \<Rightarrow> handler_loop lim g node (reference # visited) pending'))"
  by pat_completeness auto

termination
  by (relation "measures [\<lambda>(lim, g, node, visited, pending). unseen visited,
      \<lambda>(lim, g, node, visited, pending). length pending]")
    (auto simp: unseen_less [OF finite_trace_refs])

declare handler_loop.simps [simp del]

definition handler_trace :: "descriptor_limits \<Rightarrow> descriptor_graph \<Rightarrow> descriptor_node \<Rightarrow> trace_info_ref \<Rightarrow> unit check" where
  "handler_trace lim g node root = handler_loop lim g node [] [root]"

function scalar_loop ::
  "descriptor_limits \<Rightarrow> descriptor_graph \<Rightarrow> descriptor_node \<Rightarrow> type_info_ref list \<Rightarrow> type_info_ref \<Rightarrow> primitive_info check" where
  "scalar_loop lim g node seen ty =
     bind_p (count_edges lim 1) (\<lambda>_.
       if ty \<in> set seen then fail_p (InvalidNode node ''trace parameter argument has a cyclic type alias'')
       else
         case vec_get (dg_types g) (tir_index ty) of
           None \<Rightarrow> fail_p (MissingReference node (NodeType ty))
         | Some (TypeAlias _ _ target) \<Rightarrow> scalar_loop lim g node (ty # seen) target
         | Some (TypePrimitive primitive) \<Rightarrow>
             if primitive = PNever \<or> primitive = PString \<or> primitive = PBytes
             then fail_p (InvalidNode node ''trace parameter argument requires a checked scalar type'')
             else return_p primitive
         | Some _ \<Rightarrow> fail_p (InvalidNode node ''trace parameter argument requires a checked scalar type''))"
  by pat_completeness auto

termination
  by (relation "measure (\<lambda>(lim, g, node, seen, ty). unseen seen)") (auto intro: unseen_less finite_type_refs)

declare scalar_loop.simps [simp del]

definition scalar_argument_type ::
  "descriptor_limits \<Rightarrow> descriptor_graph \<Rightarrow> descriptor_node \<Rightarrow> type_info_ref \<Rightarrow> primitive_info check" where
  "scalar_argument_type lim g node ty = scalar_loop lim g node [] ty"

function callback_loop ::
  "descriptor_limits \<Rightarrow> descriptor_graph \<Rightarrow> descriptor_node \<Rightarrow> type_info_ref list \<Rightarrow> type_info_ref \<Rightarrow> signature_info check" where
  "callback_loop lim g node visited ty =
     bind_p (count_edges lim 1) (\<lambda>_.
       if ty \<in> set visited then fail_p (InvalidNode node ''trace parameter call has a cyclic callable alias'')
       else
         case vec_get (dg_types g) (tir_index ty) of
           None \<Rightarrow> fail_p (MissingReference node (NodeType ty))
         | Some (TypeFunction callback) \<Rightarrow> return_p callback
         | Some (TypeAlias _ _ target) \<Rightarrow> callback_loop lim g node (ty # visited) target
         | Some (TypeBuiltin BCallableDefinition [argument]) \<Rightarrow> callback_loop lim g node (ty # visited) argument
         | Some _ \<Rightarrow> fail_p (InvalidNode node ''trace parameter call requires a checked callback function''))"
  by pat_completeness auto

termination
  by (relation "measure (\<lambda>(lim, g, node, visited, ty). unseen visited)") (auto intro: unseen_less finite_type_refs)

declare callback_loop.simps [simp del]

definition is_action :: "effect_info \<Rightarrow> bool" where
  "is_action effect = (case ef_target effect of TargetAction _ _ \<Rightarrow> True | TargetEffect _ \<Rightarrow> False)"

definition precise_value :: "return_observation_info \<Rightarrow> bool" where
  "precise_value value = (case value of ObservedUnit \<Rightarrow> True | ObservedBool _ \<Rightarrow> True | _ \<Rightarrow> False)"

definition check_arm ::
  "descriptor_limits \<Rightarrow> descriptor_graph \<Rightarrow> descriptor_node \<Rightarrow> parameter_handler_arm_info \<Rightarrow> unit check" where
  "check_arm lim g node arm =
     bind_p (count_edges lim (length (ef_arguments (ha_action arm)))) (\<lambda>_.
       if \<not> is_action (ha_action arm) \<or> \<not> precise_value (completion_value (ha_completion arm))
       then fail_p (InvalidNode node ''parameter handler arm requires an action and a precise resume value'')
       else
         bind_p (check_effect lim node (ha_action arm)) (\<lambda>_.
         bind_p (return_observation lim g node (completion_result_type (ha_completion arm))
             (completion_value (ha_completion arm))) (\<lambda>_.
           handler_trace lim g node (ha_trace arm))))"

definition check_handler ::
  "descriptor_limits \<Rightarrow> descriptor_graph \<Rightarrow> descriptor_node \<Rightarrow> parameter_handler_scope_info \<Rightarrow> unit check" where
  "check_handler lim g node handler =
     (case handler of ScopeHandle arms \<Rightarrow>
        bind_p (count_edges lim (length arms)) (\<lambda>_. each_p (check_arm lim g node) arms))"

definition check_argument ::
  "descriptor_limits \<Rightarrow> descriptor_graph \<Rightarrow> descriptor_node \<Rightarrow> signature_info \<Rightarrow> parameter_argument_info \<times> parameter_info \<Rightarrow>
   unit check" where
  "check_argument lim g node owner entry =
     (case entry of (argument, parameter) \<Rightarrow>
      bind_p (scalar_argument_type lim g node (pa_ty parameter)) (\<lambda>actual.
      bind_p
        (case argument of
           ArgumentBool _ \<Rightarrow> return_p PBool
         | ArgumentInput position \<Rightarrow>
             (case vec_get (sg_parameters owner) position of
                None \<Rightarrow> fail_p (InvalidNode node ''trace parameter argument has no owning callable input'')
              | Some source \<Rightarrow> scalar_argument_type lim g node (pa_ty source))
         | ArgumentInteger negative magnitude \<Rightarrow>
             if \<not> integer_argument_fits actual negative magnitude
             then fail_p (InvalidNode node ''trace integer argument is not canonical or representable'')
             else return_p actual)
        (\<lambda>expected.
          if actual \<noteq> expected
          then fail_p (InvalidNode node ''trace parameter argument does not match callback parameter type'')
          else return_p ())))"

definition check_arguments ::
  "descriptor_limits \<Rightarrow> descriptor_graph \<Rightarrow> descriptor_node \<Rightarrow> signature_info \<Rightarrow> signature_info \<Rightarrow>
   parameter_argument_info list option \<Rightarrow> unit check" where
  "check_arguments lim g node owner callback arguments =
     (case arguments of
        None \<Rightarrow> return_p ()
      | Some arguments \<Rightarrow>
          if length arguments \<noteq> length (sg_parameters callback)
          then fail_p (InvalidNode node ''trace parameter call argument arity differs from callback signature'')
          else each_p (check_argument lim g node owner) (zip arguments (sg_parameters callback)))"

definition action_row :: "descriptor_graph \<Rightarrow> signature_info \<Rightarrow> signature_info \<Rightarrow> bool \<Rightarrow> bool" where
  "action_row g owner callback template =
     (case Option.bind (sg_effects callback) (\<lambda>row. vec_get (dg_rows g) (rir_index row)) of
        None \<Rightarrow> False
      | Some row \<Rightarrow>
          (if template then (case er_tail row of None \<Rightarrow> False | Some tail \<Rightarrow> tail \<in> set (sg_generics owner))
           else er_tail row = None) \<and>
          list_all is_action (er_effects row))"

definition check_termination ::
  "descriptor_limits \<Rightarrow> descriptor_graph \<Rightarrow> descriptor_node \<Rightarrow> trace_info \<Rightarrow> parameter_call_info \<Rightarrow> signature_info \<Rightarrow>
   signature_info \<Rightarrow> unit check" where
  "check_termination lim g node trace call owner callback =
     (let check = (\<lambda>template.
        if pc_arguments call = None \<or> sg_generics callback \<noteq> [] \<or> \<not> action_row g owner callback template
        then fail_p (InvalidNode node
          ''parameter termination requires checked arguments and an action-only row with the correct generic status'')
        else return_p ())
      in case trace of
           TraceOutcome (OutcomeParameterNonReturn _) \<Rightarrow> check False
         | TraceOutcome (OutcomeParameterNonReturnTemplate _) \<Rightarrow>
             bind_p (count_edges lim (length (sg_generics owner))) (\<lambda>_. check True)
         | _ \<Rightarrow> return_p ())"

definition no_parameter :: "descriptor_node \<Rightarrow> descriptor_error" where
  "no_parameter node = InvalidNode node ''trace parameter call has no callable signature parameter''"

definition check_call ::
  "descriptor_limits \<Rightarrow> descriptor_graph \<Rightarrow> descriptor_node \<Rightarrow> trace_info \<Rightarrow> parameter_call_info \<Rightarrow> unit check" where
  "check_call lim g node trace call =
     bind_p (each_p (check_handler lim g node) (case pc_handlers call of None \<Rightarrow> [] | Some handlers \<Rightarrow> handlers)) (\<lambda>_.
       case vec_get (dg_types g) (tir_index (pc_signature call)) of
         None \<Rightarrow> fail_p (MissingReference node (NodeType (pc_signature call)))
       | Some (TypeFunction owner) \<Rightarrow>
           (case vec_get (sg_parameters owner) (pc_position call) of
              None \<Rightarrow> fail_p (no_parameter node)
            | Some parameter \<Rightarrow>
                bind_p (callback_loop lim g node [] (pa_ty parameter)) (\<lambda>callback.
                bind_p (check_arguments lim g node owner callback (pc_arguments call)) (\<lambda>_.
                bind_p (check_callable lim node (pc_callable call)) (\<lambda>_.
                  check_termination lim g node trace call owner callback))))
       | Some _ \<Rightarrow> fail_p (no_parameter node))"

section \<open>Traces\<close>

definition check_footprint :: "descriptor_graph \<Rightarrow> descriptor_node \<Rightarrow> effect_row_info_ref \<Rightarrow> unit check" where
  "check_footprint g node actions =
     (case vec_get (dg_rows g) (rir_index actions) of
        None \<Rightarrow> fail_p (MissingReference node (NodeRow actions))
      | Some row \<Rightarrow>
          if er_tail row \<noteq> None \<or> \<not> list_all is_action (er_effects row)
          then fail_p (InvalidNode node ''trace footprint must contain only concrete actions'')
          else return_p ())"

definition check_trace_head ::
  "descriptor_limits \<Rightarrow> descriptor_graph \<Rightarrow> descriptor_node \<Rightarrow> trace_info \<Rightarrow> parameter_call_info list check" where
  "check_trace_head lim g node trace =
     (case trace of
        TraceOutcome outcome \<Rightarrow>
          (case outcome of
             OutcomeReturned ty observation \<Rightarrow>
               bind_p (return_observation lim g node ty observation) (\<lambda>_. return_p [])
           | OutcomeParameterNonReturn call \<Rightarrow> return_p [call]
           | OutcomeParameterNonReturnTemplate call \<Rightarrow> return_p [call]
           | _ \<Rightarrow> return_p [])
      | TraceEvent effect \<Rightarrow>
          bind_p (check_effect lim node effect) (\<lambda>_.
            if \<not> is_action effect then fail_p (InvalidNode node ''trace event must name an action'') else return_p [])
      | TraceParameterCall call \<Rightarrow> return_p [call]
      | TraceUnknownOrder actions \<Rightarrow> bind_p (check_footprint g node actions) (\<lambda>_. return_p [])
      | TraceWidened actions calls \<Rightarrow> bind_p (check_footprint g node actions) (\<lambda>_. return_p calls)
      | _ \<Rightarrow> return_p [])"

definition validate_trace :: "descriptor_limits \<Rightarrow> descriptor_graph \<Rightarrow> nat \<times> trace_info \<Rightarrow> unit check" where
  "validate_trace lim g entry =
     (case entry of (index, trace) \<Rightarrow>
      let node = NodeTrace (TraceInfoRef (of_nat index)) in
      bind_p (check_trace_head lim g node trace) (\<lambda>calls.
      bind_p (count_edges lim (length calls)) (\<lambda>_.
        each_p (check_call lim g node trace) calls)))"

section \<open>References\<close>

text \<open>\<open>edge_count += 1\<close> panics on overflow.\<close>

definition check_reference :: "descriptor_limits \<Rightarrow> descriptor_graph \<Rightarrow> descriptor_node \<Rightarrow> descriptor_node \<Rightarrow> unit check" where
  "check_reference lim g node target v =
     (if vd_edge_count v = usize_max then panic_p v
      else
        let v = v\<lparr>vd_edge_count := Suc (vd_edge_count v)\<rparr> in
        if dl_max_edges lim < vd_edge_count v then fail_p (edge_limit lim) v
        else if node_index g target = None then fail_p (MissingReference node target) v
        else return_p () v)"

definition adjacency_row :: "descriptor_limits \<Rightarrow> descriptor_graph \<Rightarrow> nat \<Rightarrow> nat list check" where
  "adjacency_row lim g index =
     (let node = node_at g index in
      case references g True node of
        None \<Rightarrow> panic_p
      | Some targets \<Rightarrow>
          bind_p (each_p (check_reference lim g node) targets) (\<lambda>_.
            case references g False node of
              None \<Rightarrow> panic_p
            | Some targets \<Rightarrow> return_p (List.map_filter (node_index g) targets)))"

definition adjacency_rows :: "descriptor_limits \<Rightarrow> descriptor_graph \<Rightarrow> nat \<Rightarrow> nat list list check" where
  "adjacency_rows lim g count =
     fold_p (\<lambda>index rows. bind_p (adjacency_row lim g index) (\<lambda>row. return_p (rows @ [row]))) [0..<count] []"

section \<open>Expansion\<close>

record expansion =
  ex_colors :: "nat list"
  ex_heights :: "nat list"

definition max_height :: "nat list \<Rightarrow> nat list \<Rightarrow> nat" where
  "max_height heights children = saturating_add (fold (\<lambda>child. max (heights ! child)) children 0) 1"

definition open_edges :: "nat list list \<Rightarrow> (nat \<times> nat) list \<Rightarrow> nat" where
  "open_edges adjacency stack = sum_list (map (\<lambda>(node, cursor). length (adjacency ! node) - cursor) stack)"

lemma count_list_update_less:
  "i < length xs \<Longrightarrow> xs ! i = x \<Longrightarrow> y \<noteq> x \<Longrightarrow> count_list (xs[i := y]) x < count_list xs x"
proof (induction xs arbitrary: i)
  case (Cons a xs)
  then show ?case by (cases i) auto
qed simp

lemma count_list_update_le: "y \<noteq> x \<Longrightarrow> count_list (xs[i := y]) x \<le> count_list xs x"
proof (induction xs arbitrary: i)
  case (Cons a xs)
  show ?case
  proof (cases i)
    case (Suc j)
    with Cons.IH [OF Cons.prems, of j] show ?thesis by simp
  qed (use Cons.prems in simp)
qed simp

function expansion_loop ::
  "descriptor_graph \<Rightarrow> nat list list \<Rightarrow> nat \<Rightarrow> expansion \<Rightarrow> (nat \<times> nat) list \<Rightarrow> (descriptor_error + expansion) option" where
  "expansion_loop g adjacency limit st stack =
     (case stack of
        [] \<Rightarrow> Some (Inr st)
      | (node, cursor) # rest \<Rightarrow>
          if \<not> node < length adjacency then None
          else if cursor < length (adjacency ! node)
          then
            let child = adjacency ! node ! cursor; stack = (node, Suc cursor) # rest in
            if \<not> child < length (ex_colors st) then None
            else if ex_colors st ! child = 0
            then expansion_loop g adjacency limit (st\<lparr>ex_colors := (ex_colors st)[child := 1]\<rparr>) ((child, 0) # stack)
            else if ex_colors st ! child = 1 then Some (Inl (UnguardedCycle (node_at g child)))
            else expansion_loop g adjacency limit st stack
          else if \<not> list_all (\<lambda>child. child < length (ex_heights st)) (adjacency ! node) then None
          else
            let height = max_height (ex_heights st) (adjacency ! node) in
            if limit < height then Some (Inl (DescriptorLimit ''expansion depth'' limit))
            else if \<not> (node < length (ex_heights st) \<and> node < length (ex_colors st)) then None
            else
              expansion_loop g adjacency limit
                (st\<lparr>ex_heights := (ex_heights st)[node := height], ex_colors := (ex_colors st)[node := 2]\<rparr>) rest)"
  by pat_completeness auto

termination
proof (relation "measures [\<lambda>(g, adjacency, limit, st, stack). count_list (ex_colors st) 0,
      \<lambda>(g, adjacency, limit, st, stack). open_edges adjacency stack, \<lambda>(g, adjacency, limit, st, stack). length stack]",
    goal_cases)
  case (2 g adjacency limit st stack a rest node cursor child x)
  then show ?case by (simp add: count_list_update_less)
next
  case (3 g adjacency limit st stack a rest node cursor child x)
  then show ?case by (auto simp: open_edges_def)
next
  case (4 g adjacency limit st stack a rest node cursor height)
  then show ?case
    using count_list_update_le [of 2 0 "ex_colors st" node] by (auto simp: open_edges_def)
qed simp

declare expansion_loop.simps [simp del]

definition expansion_root ::
  "descriptor_graph \<Rightarrow> nat list list \<Rightarrow> nat \<Rightarrow> nat \<Rightarrow> expansion \<Rightarrow> (descriptor_error + expansion) option" where
  "expansion_root g adjacency limit root st =
     (if \<not> root < length (ex_colors st) then None
      else if ex_colors st ! root \<noteq> 0 then Some (Inr st)
      else expansion_loop g adjacency limit (st\<lparr>ex_colors := (ex_colors st)[root := 1]\<rparr>) [(root, 0)])"

fun expansion_roots ::
  "descriptor_graph \<Rightarrow> nat list list \<Rightarrow> nat \<Rightarrow> nat list \<Rightarrow> expansion \<Rightarrow> (descriptor_error + expansion) option" where
  "expansion_roots g adjacency limit [] st = Some (Inr st)"
| "expansion_roots g adjacency limit (root # roots) st =
     bind_o (expansion_root g adjacency limit root st) (expansion_roots g adjacency limit roots)"

definition validate_expansion :: "descriptor_graph \<Rightarrow> nat list list \<Rightarrow> nat \<Rightarrow> (descriptor_error + unit) option" where
  "validate_expansion g adjacency limit =
     bind_o
       (expansion_roots g adjacency limit [0..<length adjacency]
         \<lparr>ex_colors = replicate (length adjacency) 0, ex_heights = replicate (length adjacency) 0\<rparr>)
       (\<lambda>_. Some (Inr ()))"

section \<open>Validation\<close>

definition node_count_of :: "descriptor_graph \<Rightarrow> nat option" where
  "node_count_of g =
     Option.bind (checked_add (length (dg_types g)) (length (dg_rows g))) (\<lambda>n.
     Option.bind (checked_add n (length (dg_binders g))) (\<lambda>n.
       checked_add n (length (dg_traces g))))"

definition u32_max :: nat where
  "u32_max = 2 ^ 32 - 1"

definition validate_nodes :: "descriptor_limits \<Rightarrow> bool \<Rightarrow> descriptor_graph \<Rightarrow> unit check" where
  "validate_nodes lim allow_duplicate_binders g =
     bind_p (fold_p (validate_binder lim allow_duplicate_binders) (enumerate 0 (dg_binders g)) ([], [])) (\<lambda>_.
     bind_p (each_p (validate_type lim g) (enumerate 0 (dg_types g))) (\<lambda>_.
     bind_p (each_p (validate_row lim g) (enumerate 0 (dg_rows g))) (\<lambda>_.
       each_p (validate_trace lim g) (enumerate 0 (dg_traces g)))))"

definition validate_inner :: "descriptor_graph \<Rightarrow> descriptor_limits \<Rightarrow> bool \<Rightarrow> (descriptor_error + unit) option" where
  "validate_inner g lim allow_duplicate_binders =
     (case node_count_of g of
        None \<Rightarrow> Some (Inl (DescriptorLimit ''nodes'' (dl_max_nodes lim)))
      | Some count \<Rightarrow>
          if dl_max_nodes lim < count \<or> u32_max < count
          then Some (Inl (DescriptorLimit ''nodes'' (min (dl_max_nodes lim) u32_max)))
          else
            bind_o
              (bind_p (validate_nodes lim allow_duplicate_binders g) (\<lambda>_. adjacency_rows lim g count)
                \<lparr>vd_text_bytes = 0, vd_edge_count = 0\<rparr>)
              (\<lambda>(adjacency, _). validate_expansion g adjacency (dl_max_expansion_depth lim)))"

definition validate_graph :: "descriptor_graph \<Rightarrow> descriptor_limits \<Rightarrow> (descriptor_error + unit) option" where
  "validate_graph g lim = validate_inner g lim False"

definition validate_for_binder_merge :: "descriptor_graph \<Rightarrow> descriptor_limits \<Rightarrow> (descriptor_error + unit) option" where
  "validate_for_binder_merge g lim = validate_inner g lim True"

definition descriptor_graph_new :: "descriptor_graph \<Rightarrow> descriptor_limits \<Rightarrow> (descriptor_error + descriptor_graph) option" where
  "descriptor_graph_new g lim = bind_o (validate_graph g lim) (\<lambda>_. Some (Inr g))"

end
