(* ===== verification/Expansion.thy ===== *)
theory Expansion
  imports Validation
begin

text \<open>
  \<open>validate_expansion\<close> of \<open>etas_code/src/descriptor/traversal.rs\<close> accepts exactly the graphs without
  unguarded cycles whose paths respect the depth limit: the heights it computes decrease along every
  reference, and its two errors show a cycle or a path that is too long.
\<close>

definition expansion_edges :: "nat list list \<Rightarrow> (nat \<times> nat) set" where
  "expansion_edges adj = {(i, c). i < length adj \<and> c \<in> set (adj ! i)}"

definition in_range :: "nat list list \<Rightarrow> bool" where
  "in_range adj \<longleftrightarrow> expansion_edges adj \<subseteq> {..<length adj} \<times> {..<length adj}"

lemma in_rangeD: "in_range adj \<Longrightarrow> i < length adj \<Longrightarrow> c \<in> set (adj ! i) \<Longrightarrow> c < length adj"
  unfolding in_range_def expansion_edges_def by blast

definition expansion_path :: "nat list list \<Rightarrow> nat \<Rightarrow> nat list \<Rightarrow> bool" where
  "expansion_path adj i xs \<longleftrightarrow> xs \<noteq> [] \<and> hd xs = i \<and> successively (\<lambda>a b. (a, b) \<in> expansion_edges adj) xs"

text \<open>
  The stack from its top: the node above an entry is one of its children, and every child the entry has
  passed is finished or is the node above.
\<close>

fun stacked :: "nat list list \<Rightarrow> nat list \<Rightarrow> nat option \<Rightarrow> (nat \<times> nat) list \<Rightarrow> bool" where
  "stacked adj colors upper [] \<longleftrightarrow> True"
| "stacked adj colors upper ((node, cursor) # rest) \<longleftrightarrow>
     node < length adj \<and> cursor \<le> length (adj ! node) \<and>
     (\<forall>k < cursor. colors ! (adj ! node ! k) = 2 \<or> upper = Some (adj ! node ! k)) \<and>
     (\<forall>c. upper = Some c \<longrightarrow> c \<in> set (adj ! node)) \<and> stacked adj colors (Some node) rest"

definition black_ok :: "nat list list \<Rightarrow> nat \<Rightarrow> expansion \<Rightarrow> nat \<Rightarrow> bool" where
  "black_ok adj limit st i \<longleftrightarrow>
     ex_heights st ! i \<le> limit \<and> ex_heights st ! i \<le> count_list (ex_colors st) 2 \<and>
     (\<forall>c\<in>set (adj ! i). ex_colors st ! c = 2 \<and> ex_heights st ! c < ex_heights st ! i) \<and>
     (\<exists>xs. expansion_path adj i xs \<and> length xs = ex_heights st ! i)"

definition expansion_inv :: "nat list list \<Rightarrow> nat \<Rightarrow> expansion \<Rightarrow> (nat \<times> nat) list \<Rightarrow> bool" where
  "expansion_inv adj limit st stack \<longleftrightarrow>
     length (ex_colors st) = length adj \<and> length (ex_heights st) = length adj \<and>
     set (ex_colors st) \<subseteq> {0, 1, 2} \<and> distinct (map fst stack) \<and>
     (\<forall>i < length adj. ex_colors st ! i = 1 \<longleftrightarrow> i \<in> fst ` set stack) \<and>
     (\<forall>i < length adj. ex_colors st ! i = 2 \<longrightarrow> black_ok adj limit st i) \<and>
     stacked adj (ex_colors st) None stack"

lemma stacked_mono:
  assumes "stacked adj colors upper stack" "\<And>i. colors ! i = 2 \<Longrightarrow> colors' ! i = 2"
  shows "stacked adj colors' upper stack"
  using assms by (induction adj colors upper stack rule: stacked.induct) auto

lemma stacked_finish:
  assumes "stacked adj colors (Some node) stack" "\<And>i. colors ! i = 2 \<Longrightarrow> colors' ! i = 2" "colors' ! node = 2"
  shows "stacked adj colors' None stack"
proof (cases stack)
  case (Cons x rest)
  obtain below cursor where x: "x = (below, cursor)" by (cases x)
  from assms(1) have "stacked adj colors (Some below) rest" by (simp add: Cons x)
  from stacked_mono [OF this assms(2)] assms show ?thesis by (auto simp: Cons x)
qed simp

lemma stacked_in_range: "stacked adj colors upper stack \<Longrightarrow> i \<in> fst ` set stack \<Longrightarrow> i < length adj"
  by (induction adj colors upper stack rule: stacked.induct) auto

text \<open>Every node of the stack reaches the node above it.\<close>

lemma stacked_reaches:
  assumes "stacked adj colors (Some node) stack" "i \<in> fst ` set stack"
  shows "(i, node) \<in> (expansion_edges adj)\<^sup>+"
  using assms
proof (induction stack arbitrary: node)
  case (Cons x rest)
  obtain below cursor where x: "x = (below, cursor)" by (cases x)
  from Cons.prems have edge: "(below, node) \<in> expansion_edges adj" by (simp add: x expansion_edges_def)
  show ?case
  proof (cases "i = below")
    case False
    with Cons.prems have "i \<in> fst ` set rest" "stacked adj colors (Some below) rest" by (auto simp: x)
    from Cons.IH [OF this(2,1)] edge show ?thesis by (rule trancl_into_trancl)
  qed (use edge in blast)
qed simp

lemma fold_max_le: "(\<forall>x\<in>set xs. f x \<le> fold (\<lambda>x. max (f x)) xs a) \<and> a \<le> fold (\<lambda>x. max (f x)) xs (a :: nat)"
  by (induction xs arbitrary: a) (auto, (meson max.boundedE)+)

lemma fold_max_in: "fold (\<lambda>x. max (f x)) xs a = a \<or> (\<exists>x\<in>set xs. fold (\<lambda>x. max (f x)) xs (a :: nat) = f x)"
  by (induction xs arbitrary: a) (auto, metis max_def)

lemma max_height_props:
  assumes "\<And>c. c \<in> set children \<Longrightarrow> heights ! c \<le> n" "n < usize_max"
  shows "max_height heights children \<le> Suc n"
    and "c \<in> set children \<Longrightarrow> heights ! c < max_height heights children"
    and "max_height heights children = 1 \<or> (\<exists>c\<in>set children. max_height heights children = Suc (heights ! c))"
proof -
  let ?m = "fold (\<lambda>child. max (heights ! child)) children 0"
  have le: "\<forall>x\<in>set children. heights ! x \<le> ?m" using fold_max_le [of children "(!) heights" 0] by blast
  have "in": "?m = 0 \<or> (\<exists>x\<in>set children. ?m = heights ! x)" using fold_max_in [of "(!) heights" children 0] by blast
  with assms have m: "?m \<le> n" by force
  with assms(2) have eq: "max_height heights children = Suc ?m" by (simp add: max_height_def saturating_add_def)
  show "max_height heights children \<le> Suc n" using m eq by simp
  show "c \<in> set children \<Longrightarrow> heights ! c < max_height heights children" using le eq by fastforce
  show "max_height heights children = 1 \<or> (\<exists>c\<in>set children. max_height heights children = Suc (heights ! c))"
    using "in" eq by auto
qed

lemma path_Cons: "expansion_path adj c xs \<Longrightarrow> (i, c) \<in> expansion_edges adj \<Longrightarrow> expansion_path adj i (i # xs)"
  by (cases xs) (auto simp: expansion_path_def)

lemma count_list_update_other: "i < length xs \<Longrightarrow> xs ! i \<noteq> x \<Longrightarrow> y \<noteq> x \<Longrightarrow> count_list (xs[i := y]) x = count_list xs x"
proof (induction xs arbitrary: i)
  case (Cons a xs)
  then show ?case by (cases i) auto
qed simp

lemma count_list_update_Suc: "i < length xs \<Longrightarrow> xs ! i \<noteq> x \<Longrightarrow> count_list (xs[i := x]) x = Suc (count_list xs x)"
proof (induction xs arbitrary: i)
  case (Cons a xs)
  then show ?case by (cases i) auto
qed simp

text \<open>Opening a child.\<close>

lemma expansion_inv_open:
  assumes inv: "expansion_inv adj limit st ((node, cursor) # rest)" and range: "in_range adj"
    and cursor: "cursor < length (adj ! node)" and child: "child = adj ! node ! cursor" and white: "ex_colors st ! child = 0"
  shows "expansion_inv adj limit (st\<lparr>ex_colors := (ex_colors st)[child := 1]\<rparr>) ((child, 0) # (node, Suc cursor) # rest)"
proof -
  note One_nat_def [simp del]
  let ?colors = "(ex_colors st)[child := 1]"
  from inv have node: "node < length adj" and len: "length (ex_colors st) = length adj" by (simp_all add: expansion_inv_def)
  from cursor child have "child \<in> set (adj ! node)" by simp
  with in_rangeD [OF range node] have c: "child < length adj" "child \<in> set (adj ! node)" by blast+
  have black: "?colors ! i = 2 \<longleftrightarrow> ex_colors st ! i = 2" for i
    using white c(1) len by (cases "i = child") auto
  have gray: "?colors ! i = 1 \<longleftrightarrow> i = child \<or> ex_colors st ! i = 1" for i
    using c(1) len by (cases "i = child") auto
  have count: "count_list ?colors 2 = count_list (ex_colors st) 2"
    using white len c(1) by (simp add: count_list_update_other)
  have new: "child \<notin> fst ` set ((node, cursor) # rest)"
    using inv white c(1) by (auto simp: expansion_inv_def)
  have "stacked adj (ex_colors st) None ((node, cursor) # rest)" using inv by (simp add: expansion_inv_def)
  then have "stacked adj ?colors None ((node, cursor) # rest)" by (rule stacked_mono) (simp add: black)
  then have "stacked adj ?colors (Some child) ((node, Suc cursor) # rest)"
    using cursor child c(2) by (auto simp: less_Suc_eq)
  moreover have "black_ok adj limit (st\<lparr>ex_colors := ?colors\<rparr>) i" if "black_ok adj limit st i" for i
    using that by (simp add: black_ok_def black count)
  moreover have "set ?colors \<subseteq> {0, 1, 2}"
    using inv set_update_subset_insert [of "ex_colors st" child 1] by (auto simp: expansion_inv_def)
  ultimately show ?thesis
    using inv c(1) new unfolding expansion_inv_def by (simp add: black gray)
qed

text \<open>Passing a finished child.\<close>

lemma expansion_inv_pass:
  assumes "expansion_inv adj limit st ((node, cursor) # rest)" "cursor < length (adj ! node)"
    and "ex_colors st ! (adj ! node ! cursor) = 2"
  shows "expansion_inv adj limit st ((node, Suc cursor) # rest)"
  using assms by (auto simp: expansion_inv_def less_Suc_eq)

text \<open>Finishing a node.\<close>

lemma expansion_inv_top:
  assumes inv: "expansion_inv adj limit st ((node, cursor) # rest)" and all: "\<not> cursor < length (adj ! node)"
    and c: "c \<in> set (adj ! node)"
  shows "ex_colors st ! c = 2"
proof -
  from c obtain k where "k < length (adj ! node)" "c = adj ! node ! k" by (auto simp: in_set_conv_nth)
  with inv all show ?thesis by (auto simp: expansion_inv_def)
qed

lemma expansion_inv_heights:
  assumes inv: "expansion_inv adj limit st ((node, cursor) # rest)" and range: "in_range adj"
    and all: "\<not> cursor < length (adj ! node)" and c: "c \<in> set (adj ! node)"
  shows "black_ok adj limit st c" "ex_heights st ! c \<le> count_list (ex_colors st) 2"
proof -
  from inv have "node < length adj" by (simp add: expansion_inv_def)
  from in_rangeD [OF range this c] expansion_inv_top [OF inv all c] inv show "black_ok adj limit st c"
    by (simp add: expansion_inv_def)
  then show "ex_heights st ! c \<le> count_list (ex_colors st) 2" by (simp add: black_ok_def)
qed

lemma expansion_path_top:
  assumes inv: "expansion_inv adj limit st ((node, cursor) # rest)" and range: "in_range adj" "length adj < usize_max"
    and all: "\<not> cursor < length (adj ! node)"
  shows "\<exists>xs. expansion_path adj node xs \<and> length xs = max_height (ex_heights st) (adj ! node)"
proof -
  from inv have node: "node < length adj" and len: "length (ex_colors st) = length adj" by (simp_all add: expansion_inv_def)
  have "count_list (ex_colors st) 2 < usize_max" using count_le_length [of "ex_colors st" 2] len range(2) by simp
  from max_height_props(3) [OF expansion_inv_heights(2) [OF inv range(1) all] this]
  consider "max_height (ex_heights st) (adj ! node) = 1"
    | c where "c \<in> set (adj ! node)" "max_height (ex_heights st) (adj ! node) = Suc (ex_heights st ! c)" by blast
  then show ?thesis
  proof cases
    case 1
    then show ?thesis by (intro exI [of _ "[node]"]) (simp add: expansion_path_def)
  next
    case 2
    from expansion_inv_heights(1) [OF inv range(1) all 2(1)] obtain xs where
      "expansion_path adj c xs" "length xs = ex_heights st ! c" by (auto simp: black_ok_def)
    moreover have "(node, c) \<in> expansion_edges adj" using node 2(1) by (simp add: expansion_edges_def)
    ultimately show ?thesis using path_Cons 2(2) by (intro exI [of _ "node # xs"]) simp
  qed
qed

lemma expansion_inv_finish:
  assumes inv: "expansion_inv adj limit st ((node, cursor) # rest)" and range: "in_range adj" "length adj < usize_max"
    and all: "\<not> cursor < length (adj ! node)" and h: "h = max_height (ex_heights st) (adj ! node)" "h \<le> limit"
  shows "expansion_inv adj limit (st\<lparr>ex_heights := (ex_heights st)[node := h], ex_colors := (ex_colors st)[node := 2]\<rparr>) rest"
    (is "expansion_inv adj limit ?st rest")
proof -
  note One_nat_def [simp del]
  from inv have node: "node < length adj" and len: "length (ex_colors st) = length adj" "length (ex_heights st) = length adj"
    and gray: "ex_colors st ! node = 1" by (auto simp: expansion_inv_def)
  let ?n = "count_list (ex_colors st) 2"
  have n: "?n < usize_max" using count_le_length [of "ex_colors st" 2] len range(2) by simp
  note heights = expansion_inv_heights(2) [OF inv range(1) all]
  have height: "h \<le> Suc ?n" "\<And>c. c \<in> set (adj ! node) \<Longrightarrow> ex_heights st ! c < h"
    unfolding h(1)
    by (rule max_height_props(1) [OF _ n], erule heights) (rule max_height_props(2) [OF _ n], erule heights)
  have count: "count_list ((ex_colors st)[node := 2]) 2 = Suc ?n"
    using node len gray by (simp add: count_list_update_Suc)
  have colors: "ex_colors ?st ! i = (if i = node then 2 else ex_colors st ! i)" if "i < length adj" for i
    using that len by simp
  have not_self: "c \<noteq> node" if "c \<in> set (adj ! i)" "ex_colors st ! c = 2" for i c using that gray by auto
  have "black_ok adj limit ?st i" if i: "i < length adj" "ex_colors ?st ! i = 2" for i
  proof (cases "i = node")
    case True
    have "ex_colors ?st ! c = 2 \<and> ex_heights ?st ! c < h" if c: "c \<in> set (adj ! node)" for c
    proof -
      from expansion_inv_top [OF inv all c] have "ex_colors st ! c = 2" .
      with height(2) [OF c] not_self [OF c] in_rangeD [OF range(1) node c] colors show ?thesis by simp
    qed
    moreover from expansion_path_top [OF inv range all] obtain xs where "expansion_path adj node xs" "length xs = h"
      by (auto simp: h(1))
    ultimately show ?thesis using True node len count height(1) h(2) by (auto simp: black_ok_def)
  next
    case False
    with i colors have "ex_colors st ! i = 2" by simp
    with inv i(1) have ok: "black_ok adj limit st i" by (simp add: expansion_inv_def)
    have "ex_colors ?st ! c = 2 \<and> ex_heights ?st ! c < ex_heights st ! i" if c: "c \<in> set (adj ! i)" for c
    proof -
      from ok c have "ex_colors st ! c = 2" "ex_heights st ! c < ex_heights st ! i" by (auto simp: black_ok_def)
      with not_self [OF c] in_rangeD [OF range(1) i(1) c] colors show ?thesis by simp
    qed
    with ok False count show ?thesis by (auto simp: black_ok_def)
  qed
  moreover have "stacked adj (ex_colors ?st) None rest"
    using inv node len gray
    by (intro stacked_finish [of adj "ex_colors st" node rest]) (auto simp: expansion_inv_def nth_list_update)
  moreover have "set (ex_colors ?st) \<subseteq> {0, 1, 2}"
    using inv set_update_subset_insert [of "ex_colors st" node 2] by (auto simp: expansion_inv_def)
  moreover have "ex_colors ?st ! i = 1 \<longleftrightarrow> i \<in> fst ` set rest" if "i < length adj" for i
    using inv colors [OF that] that by (auto simp: expansion_inv_def)
  ultimately show ?thesis using inv len unfolding expansion_inv_def by simp
qed

text \<open>What an error of the traversal shows.\<close>

definition expansion_error :: "descriptor_graph \<Rightarrow> nat list list \<Rightarrow> nat \<Rightarrow> descriptor_error \<Rightarrow> bool" where
  "expansion_error g adj limit e \<longleftrightarrow>
     (\<exists>i. e = UnguardedCycle (node_at g i) \<and> (i, i) \<in> (expansion_edges adj)\<^sup>+) \<or>
     (\<exists>i xs. e = DescriptorLimit ''expansion depth'' limit \<and> expansion_path adj i xs \<and> limit < length xs)"

definition expansion_result :: "descriptor_graph \<Rightarrow> nat list list \<Rightarrow> nat \<Rightarrow> (expansion \<Rightarrow> bool) \<Rightarrow> (descriptor_error + expansion) option \<Rightarrow> bool" where
  "expansion_result g adj limit Q r \<longleftrightarrow>
     (case r of None \<Rightarrow> False | Some (Inl e) \<Rightarrow> expansion_error g adj limit e | Some (Inr st) \<Rightarrow> Q st)"

lemma update_pos: "0 < xs ! i \<Longrightarrow> 0 < v \<Longrightarrow> 0 < xs[c := v] ! i" for v :: nat
  by (cases "i = c"; cases "c < length xs") (simp_all add: list_update_beyond)

lemma expansion_result_mono:
  "expansion_result g adj limit Q r \<Longrightarrow> (\<And>st. Q st \<Longrightarrow> Q' st) \<Longrightarrow> expansion_result g adj limit Q' r"
  by (auto simp: expansion_result_def split: option.splits sum.splits)

lemma expansion_inv_done:
  assumes "expansion_inv adj limit st []" "i < length adj" "ex_colors st ! i \<noteq> 0"
  shows "ex_colors st ! i = 2"
proof -
  from assms(1,2) have "ex_colors st ! i \<in> {0, 1, 2}" "ex_colors st ! i \<noteq> 1"
    unfolding expansion_inv_def by (metis nth_mem subsetD, simp)
  with assms(3) show ?thesis by auto
qed

lemma expansion_cycle:
  assumes inv: "expansion_inv adj limit st ((node, cursor) # rest)" and range: "in_range adj"
    and cursor: "cursor < length (adj ! node)" and gray: "ex_colors st ! (adj ! node ! cursor) = 1"
  shows "(adj ! node ! cursor, adj ! node ! cursor) \<in> (expansion_edges adj)\<^sup>+"
proof -
  let ?child = "adj ! node ! cursor"
  from inv have node: "node < length adj" and rest: "stacked adj (ex_colors st) (Some node) rest"
    by (simp_all add: expansion_inv_def)
  have edge: "(node, ?child) \<in> expansion_edges adj" using node cursor by (simp add: expansion_edges_def)
  have "?child < length adj" using in_rangeD [OF range node] cursor by simp
  with inv gray have "?child = node \<or> ?child \<in> fst ` set rest" by (auto simp: expansion_inv_def)
  then show ?thesis
  proof
    assume "?child \<in> fst ` set rest"
    from stacked_reaches [OF rest this] edge show ?thesis by (rule trancl_into_trancl)
  qed (use edge in auto)
qed

lemma expansion_loop_correct:
  assumes "in_range adj" "length adj < usize_max" "expansion_inv adj limit st stack"
  shows "expansion_result g adj limit (\<lambda>st'. expansion_inv adj limit st' [] \<and>
    (\<forall>i < length adj. ex_colors st ! i \<noteq> 0 \<longrightarrow> ex_colors st' ! i = 2)) (expansion_loop g adj limit st stack)"
  using assms
proof (induction g adj limit st stack rule: expansion_loop.induct)
  case (1 g adj limit st stack)
  show ?case
  proof (cases stack)
    case Nil
    with "1.prems"(3) expansion_inv_done show ?thesis
      by (auto simp: expansion_result_def expansion_loop.simps [of g adj limit st "[]"])
  next
    case (Cons x rest)
    obtain node cursor where x: "x = (node, cursor)" by (cases x)
    note inv = "1.prems"(3) [unfolded Cons x]
    from inv have node: "node < length adj" and len: "length (ex_colors st) = length adj" "length (ex_heights st) = length adj"
      by (simp_all add: expansion_inv_def)
    note loop = expansion_loop.simps [of g adj limit st "(node, cursor) # rest"]
    show ?thesis
    proof (cases "cursor < length (adj ! node)")
      case True
      let ?child = "adj ! node ! cursor"
      have child: "?child < length adj" using in_rangeD [OF "1.prems"(1) node] True by simp
      consider "ex_colors st ! ?child = 0" | "ex_colors st ! ?child = 1"
        | "ex_colors st ! ?child \<noteq> 0" "ex_colors st ! ?child \<noteq> 1" by blast
      then show ?thesis
      proof cases
        case 1
        let ?st = "st\<lparr>ex_colors := (ex_colors st)[?child := 1]\<rparr>"
        have eq: "expansion_loop g adj limit st stack = expansion_loop g adj limit ?st ((?child, 0) # (node, Suc cursor) # rest)"
          using node True child len 1 by (simp add: Cons x loop Let_def)
        from "1.IH"(1) [OF Cons x [symmetric] _ True refl refl _ 1 "1.prems"(1,2)
            expansion_inv_open [OF inv "1.prems"(1) True refl 1]] node child len
        have result: "expansion_result g adj limit (\<lambda>st'. expansion_inv adj limit st' [] \<and>
            (\<forall>i < length adj. ex_colors ?st ! i \<noteq> 0 \<longrightarrow> ex_colors st' ! i = 2))
            (expansion_loop g adj limit ?st ((?child, 0) # (node, Suc cursor) # rest))" by simp
        show ?thesis unfolding eq
          by (rule expansion_result_mono [OF result]) (simp add: update_pos)
      next
        case 2
        then have "expansion_loop g adj limit st stack = Some (Inl (UnguardedCycle (node_at g ?child)))"
          using node True child len by (simp add: Cons x loop Let_def)
        with expansion_cycle [OF inv "1.prems"(1) True 2] show ?thesis
          by (auto simp: expansion_result_def expansion_error_def)
      next
        case 3
        have "ex_colors st ! ?child \<in> {0, 1, 2}" using inv child len unfolding expansion_inv_def by (metis nth_mem subsetD)
        with 3 have black: "ex_colors st ! ?child = 2" by auto
        have "expansion_loop g adj limit st stack = expansion_loop g adj limit st ((node, Suc cursor) # rest)"
          using node True child len 3 by (simp add: Cons x loop Let_def)
        with "1.IH"(2) [OF Cons x [symmetric] _ True refl refl _ 3 "1.prems"(1,2)
            expansion_inv_pass [OF inv True black]] node child len
        show ?thesis by simp
      qed
    next
      case False
      let ?h = "max_height (ex_heights st) (adj ! node)"
      have range: "list_all (\<lambda>child. child < length (ex_heights st)) (adj ! node)"
        using in_rangeD [OF "1.prems"(1) node] len by (auto simp: list_all_iff)
      show ?thesis
      proof (cases "limit < ?h")
        case True
        then have "expansion_loop g adj limit st stack = Some (Inl (DescriptorLimit ''expansion depth'' limit))"
          using node False range by (simp add: Cons x loop Let_def)
        moreover from expansion_path_top [OF inv "1.prems"(1,2) False] obtain xs where
          "expansion_path adj node xs" "length xs = ?h" by blast
        with True have "expansion_path adj node xs \<and> limit < length xs" by simp
        ultimately show ?thesis by (auto simp: expansion_result_def expansion_error_def)
      next
        case fits: False
        let ?st = "st\<lparr>ex_heights := (ex_heights st)[node := ?h], ex_colors := (ex_colors st)[node := 2]\<rparr>"
        have eq: "expansion_loop g adj limit st stack = expansion_loop g adj limit ?st rest"
          using node False range fits len by (simp add: Cons x loop Let_def)
        from "1.IH"(3) [OF Cons x [symmetric] _ False _ refl fits _ "1.prems"(1,2)
            expansion_inv_finish [OF inv "1.prems"(1,2) False refl]] node range len fits
        have result: "expansion_result g adj limit (\<lambda>st'. expansion_inv adj limit st' [] \<and>
            (\<forall>i < length adj. ex_colors ?st ! i \<noteq> 0 \<longrightarrow> ex_colors st' ! i = 2)) (expansion_loop g adj limit ?st rest)" by simp
        show ?thesis unfolding eq
          by (rule expansion_result_mono [OF result]) (simp add: update_pos)
      qed
    qed
  qed
qed

lemma expansion_roots_correct:
  assumes range: "in_range adj" "length adj < usize_max" and "set roots \<subseteq> {..<length adj}"
    and "expansion_inv adj limit st []"
  shows "expansion_result g adj limit (\<lambda>st'. expansion_inv adj limit st' [] \<and>
    (\<forall>i < length adj. i \<in> set roots \<or> ex_colors st ! i \<noteq> 0 \<longrightarrow> ex_colors st' ! i = 2)) (expansion_roots g adj limit roots st)"
  using assms(3,4)
proof (induction roots arbitrary: st)
  case Nil
  with expansion_inv_done show ?case by (auto simp: expansion_result_def)
next
  case (Cons root roots)
  note One_nat_def [simp del]
  from Cons.prems have root: "root < length adj" and len: "length (ex_colors st) = length adj"
    by (simp_all add: expansion_inv_def)
  have first: "expansion_result g adj limit (\<lambda>st'. expansion_inv adj limit st' [] \<and>
      (\<forall>i < length adj. i = root \<or> ex_colors st ! i \<noteq> 0 \<longrightarrow> ex_colors st' ! i = 2)) (expansion_root g adj limit root st)"
  proof (cases "ex_colors st ! root = 0")
    case False
    then have "ex_colors st ! i = 2" if "i < length adj" "i = root \<or> ex_colors st ! i \<noteq> 0" for i
      using expansion_inv_done [OF Cons.prems(2) that(1)] that(2) by blast
    with False root len Cons.prems(2) show ?thesis
      by (simp add: expansion_root_def expansion_result_def)
  next
    case True
    let ?st = "st\<lparr>ex_colors := (ex_colors st)[root := 1]\<rparr>"
    have black: "(ex_colors st)[root := 1] ! i = 2 \<longleftrightarrow> ex_colors st ! i = 2" for i
      using True root len by (cases "i = root") auto
    have count: "count_list ((ex_colors st)[root := 1]) 2 = count_list (ex_colors st) 2"
      using True root len by (simp add: count_list_update_other)
    have "black_ok adj limit ?st i" if "black_ok adj limit st i" for i using that by (simp add: black_ok_def black count)
    moreover have "set ((ex_colors st)[root := 1]) \<subseteq> {0, 1, 2}"
      using Cons.prems(2) set_update_subset_insert [of "ex_colors st" root 1] by (auto simp: expansion_inv_def)
    moreover have "(ex_colors st)[root := 1] ! i = 1 \<longleftrightarrow> i = root" if "i < length adj" for i
      using Cons.prems(2) that root len by (cases "i = root") (auto simp: expansion_inv_def)
    ultimately have "expansion_inv adj limit ?st [(root, 0)]"
      using Cons.prems(2) root by (simp add: expansion_inv_def black)
    from expansion_loop_correct [OF range this, of g]
    have "expansion_result g adj limit (\<lambda>st'. expansion_inv adj limit st' [] \<and>
        (\<forall>i < length adj. i = root \<or> ex_colors st ! i \<noteq> 0 \<longrightarrow> ex_colors st' ! i = 2))
        (expansion_loop g adj limit ?st [(root, 0)])"
      by (rule expansion_result_mono) (use root len in \<open>auto simp: update_pos\<close>)
    with True root len show ?thesis by (simp add: expansion_root_def)
  qed
  show ?case
  proof (cases "expansion_root g adj limit root st")
    case None
    with first show ?thesis by (simp add: expansion_result_def)
  next
    case (Some r)
    show ?thesis
    proof (cases r)
      case (Inl e)
      with first Some show ?thesis by (simp add: expansion_result_def)
    next
      case (Inr st')
      with first Some have st': "expansion_inv adj limit st' []"
        "\<And>i. i < length adj \<Longrightarrow> i = root \<or> ex_colors st ! i \<noteq> 0 \<Longrightarrow> ex_colors st' ! i = 2"
        by (auto simp: expansion_result_def)
      have "set roots \<subseteq> {..<length adj}" using Cons.prems(1) by simp
      from expansion_result_mono [OF Cons.IH [OF this st'(1)]]
      have "expansion_result g adj limit (\<lambda>s. expansion_inv adj limit s [] \<and>
          (\<forall>i < length adj. i \<in> set (root # roots) \<or> ex_colors st ! i \<noteq> 0 \<longrightarrow> ex_colors s ! i = 2))
          (expansion_roots g adj limit roots st')"
        using st'(2) by force
      with Some Inr show ?thesis by simp
    qed
  qed
qed

lemma validate_expansion_result:
  assumes "in_range adj" "length adj < usize_max"
  shows "case validate_expansion g adj limit of
      None \<Rightarrow> False
    | Some (Inr _) \<Rightarrow> \<exists>height. \<forall>i c. (i, c) \<in> expansion_edges adj \<longrightarrow> height c < (height i :: nat) \<and> height i \<le> limit
    | Some (Inl e) \<Rightarrow>
        (\<exists>i. e = UnguardedCycle (node_at g i) \<and> (i, i) \<in> (expansion_edges adj)\<^sup>+) \<or>
        (\<exists>i xs. e = DescriptorLimit ''expansion depth'' limit \<and> expansion_path adj i xs \<and> limit < length xs)"
proof -
  let ?start = "\<lparr>ex_colors = replicate (length adj) 0, ex_heights = replicate (length adj) 0\<rparr>"
  have "expansion_inv adj limit ?start []" by (auto simp: expansion_inv_def)
  from expansion_roots_correct [OF assms _ this, of "[0..<length adj]" g]
  have result: "expansion_result g adj limit (\<lambda>st. expansion_inv adj limit st [] \<and>
      (\<forall>i < length adj. ex_colors st ! i = 2)) (expansion_roots g adj limit [0..<length adj] ?start)"
    by (auto simp: atLeast0LessThan)
  show ?thesis
  proof (cases "expansion_roots g adj limit [0..<length adj] ?start")
    case None
    with result show ?thesis by (simp add: expansion_result_def)
  next
    case (Some r)
    show ?thesis
    proof (cases r)
      case (Inl e)
      with Some result show ?thesis
        by (auto simp: expansion_result_def expansion_error_def validate_expansion_def)
    next
      case (Inr st)
      with Some result have st: "expansion_inv adj limit st []" "\<forall>i < length adj. ex_colors st ! i = 2"
        by (simp_all add: expansion_result_def)
      then have "black_ok adj limit st i" if "i < length adj" for i using that by (simp add: expansion_inv_def)
      then have "ex_heights st ! c < ex_heights st ! i \<and> ex_heights st ! i \<le> limit"
        if "(i, c) \<in> expansion_edges adj" for i c
        using that by (auto simp: expansion_edges_def black_ok_def)
      with Some Inr show ?thesis
        by (auto simp: validate_expansion_def intro!: exI [of _ "\<lambda>i. ex_heights st ! i"])
    qed
  qed
qed

text \<open>
  C18: The expansion of a descriptor graph is bounded. \<open>validate_expansion\<close> always returns. If it succeeds,
  the references form no cycle: every node has a height of at most the depth limit that exceeds the
  heights of the nodes it refers to. If it reports an unguarded cycle the node lies on one, and if it
  reports the depth limit there is a longer chain of references.
\<close>

theorem validate_expansion_correct:
  assumes "in_range adj" "length adj < usize_max"
  shows "case validate_expansion g adj limit of
      None \<Rightarrow> False
    | Some (Inr _) \<Rightarrow> \<exists>height. \<forall>i c. (i, c) \<in> expansion_edges adj \<longrightarrow> height c < (height i :: nat) \<and> height i \<le> limit
    | Some (Inl e) \<Rightarrow>
        (\<exists>i. e = UnguardedCycle (node_at g i) \<and> (i, i) \<in> (expansion_edges adj)\<^sup>+) \<or>
        (\<exists>i xs. e = DescriptorLimit ''expansion depth'' limit \<and> expansion_path adj i xs \<and> limit < length xs)"
  using validate_expansion_result [OF assms] .

theorem validate_expansion_correct_witness:
  "(\<exists>height. \<forall>i c. (i, c) \<in> expansion_edges [[1], [2, 2], []] \<longrightarrow> height c < (height i :: nat) \<and> height i \<le> 3) \<and>
   (\<exists>i. (i, i) \<in> (expansion_edges [[1], [0]])\<^sup>+)"
proof -
  have ranges: "in_range [[1], [2, 2], []]" "in_range [[1], [0]]"
    by (auto simp: in_range_def expansion_edges_def nth_Cons' split: if_splits)
  have "validate_expansion sample_descriptors [[1], [2, 2], []] 3 = Some (Inr ())"
    "validate_expansion sample_descriptors [[1], [0]] 3 = Some (Inl (UnguardedCycle (node_at sample_descriptors 0)))"
    by (simp_all add: validate_expansion_def expansion_root_def expansion_loop.simps bind_o_def max_height_def upt_rec
        saturating_add_def usize_max_def)
  with validate_expansion_correct [OF ranges(1), of sample_descriptors 3]
    validate_expansion_correct [OF ranges(2), of sample_descriptors 3]
  show ?thesis by (auto simp: usize_max_def)
qed

end
