(* ===== verification/Validated.thy ===== *)
theory Validated
  imports Expansion
begin

text \<open>
  What \<open>DescriptorGraph::new\<close> guarantees of the graphs it accepts: every reference is in range, there are
  at most \<open>max_edges\<close> of them, structural references form no cycle, and types, binders and traces are well
  formed. Validation itself neither panics nor loops.
\<close>

section \<open>The edge count stays within its limit\<close>

definition edges_ok :: "descriptor_limits \<Rightarrow> validator \<Rightarrow> bool" where
  "edges_ok lim v \<longleftrightarrow> vd_edge_count v \<le> dl_max_edges lim"

lemma keeps_count [keeps_intros]: "keeps (edges_ok lim) (count_edges lim n)"
  by (auto simp: keeps_def count_edges_def edges_ok_def holds_def fail_p_def return_p_def Let_def)

lemma keeps_room [keeps_intros]: "keeps (edges_ok lim) (room_for lim n)"
  by (auto simp: keeps_def room_for_def holds_def fail_p_def return_p_def)

lemma keeps_text [keeps_intros]: "keeps (edges_ok lim) (check_text lim value)"
  by (auto simp: keeps_def check_text_def edges_ok_def holds_def fail_p_def return_p_def split: option.split)

lemma keeps_name [keeps_intros]: "keeps (edges_ok lim) (check_name lim node value)"
  unfolding check_name_def by (intro keeps_intros)

lemma keeps_names [keeps_intros]: "keeps (edges_ok lim) (check_names lim node values)"
  unfolding check_names_def by (intro keeps_intros)

lemma keeps_identity [keeps_intros]: "keeps (edges_ok lim) (check_identity lim key)"
  unfolding check_identity_def by (intro keeps_intros)

lemma keeps_kind [keeps_intros]: "keeps (edges_ok lim) (check_kind lim node key kind)"
  unfolding check_kind_def by (intro keeps_intros)

lemma keeps_implementation [keeps_intros]: "keeps (edges_ok lim) (check_implementation lim key)"
  unfolding check_implementation_def by (intro keeps_intros)

lemma keeps_callable [keeps_intros]: "keeps (edges_ok lim) (check_callable lim node callable)"
  unfolding check_callable_def by (cases callable) (auto intro!: keeps_intros simp: Let_def)

lemma keeps_owner [keeps_intros]: "keeps (edges_ok lim) (check_owner lim owner)"
  unfolding check_owner_def by (cases owner) (auto intro!: keeps_intros)

lemma keeps_binder_kind [keeps_intros]: "keeps (edges_ok lim) (binder_kind g node parameter kind)"
  unfolding binder_kind_def by (intro keeps_intros)

lemma keeps_effect_argument [keeps_intros]: "keeps (edges_ok lim) (check_effect_argument lim node argument)"
  unfolding check_effect_argument_def by (cases argument) (auto intro!: keeps_intros)

lemma keeps_effect [keeps_intros]: "keeps (edges_ok lim) (check_effect lim node effect)"
  unfolding check_effect_def by (cases "ef_target effect") (auto intro!: keeps_intros)

lemma keeps_observation_loop: "keeps (edges_ok lim) (observation_loop lim g node observation visited current)"
proof (induction lim g node observation visited current rule: observation_loop.induct)
  case (1 lim g node observation visited current)
  then show ?case
    by (subst observation_loop.simps)
      (auto simp: observation_mismatch_def intro!: keeps_intros
        split: option.split type_info.split primitive_info.split return_observation_info.split)
qed

lemma keeps_return_observation [keeps_intros]: "keeps (edges_ok lim) (return_observation lim g node ty observation)"
  unfolding return_observation_def by (rule keeps_observation_loop)

lemma keeps_scalar_loop: "keeps (edges_ok lim) (scalar_loop lim g node seen ty)"
proof (induction lim g node seen ty rule: scalar_loop.induct)
  case (1 lim g node seen ty)
  then show ?case
    by (subst scalar_loop.simps) (auto intro!: keeps_intros split: option.split type_info.split)
qed

lemma keeps_scalar [keeps_intros]: "keeps (edges_ok lim) (scalar_argument_type lim g node ty)"
  unfolding scalar_argument_type_def by (rule keeps_scalar_loop)

lemma keeps_callback [keeps_intros]: "keeps (edges_ok lim) (callback_loop lim g node visited ty)"
proof (induction lim g node visited ty rule: callback_loop.induct)
  case (1 lim g node visited ty)
  then show ?case
    by (subst callback_loop.simps)
      (auto intro!: keeps_intros split: option.split type_info.split builtin_type_info.split list.split)
qed

lemma keeps_handler_loop: "keeps (edges_ok lim) (handler_loop lim g node visited pending)"
proof (induction lim g node visited pending rule: handler_loop.induct)
  case (1 lim g node visited pending)
  then show ?case
    by (subst handler_loop.simps) (auto intro!: keeps_intros split: list.split option.split trace_info.split)
qed

lemma keeps_handler_trace [keeps_intros]: "keeps (edges_ok lim) (handler_trace lim g node root)"
  unfolding handler_trace_def by (rule keeps_handler_loop)

lemma keeps_arm [keeps_intros]: "keeps (edges_ok lim) (check_arm lim g node arm)"
  unfolding check_arm_def by (intro keeps_intros)

lemma keeps_handler [keeps_intros]: "keeps (edges_ok lim) (check_handler lim g node handler)"
  unfolding check_handler_def by (cases handler) (auto intro!: keeps_intros)

lemma keeps_argument [keeps_intros]: "keeps (edges_ok lim) (check_argument lim g node owner entry)"
  unfolding check_argument_def
  by (auto intro!: keeps_intros split: prod.split parameter_argument_info.split)

lemma keeps_arguments [keeps_intros]: "keeps (edges_ok lim) (check_arguments lim g node owner callback arguments)"
  unfolding check_arguments_def by (intro keeps_intros)

lemma keeps_termination [keeps_intros]: "keeps (edges_ok lim) (check_termination lim g node trace call owner callback)"
  unfolding check_termination_def Let_def
  by (auto intro!: keeps_intros split: trace_info.split callable_outcome_info.split)

lemma keeps_footprint [keeps_intros]: "keeps (edges_ok lim) (check_footprint g node actions)"
  unfolding check_footprint_def by (intro keeps_intros)

lemma keeps_trace_head [keeps_intros]: "keeps (edges_ok lim) (check_trace_head lim g node trace)"
  unfolding check_trace_head_def
  by (auto intro!: keeps_intros split: trace_info.split callable_outcome_info.split)

lemma keeps_call [keeps_intros]: "keeps (edges_ok lim) (check_call lim g node trace call)"
  unfolding check_call_def
  by (auto intro!: keeps_intros split: option.split type_info.split)

lemma keeps_parameters [keeps_intros]: "keeps (edges_ok lim) (check_parameters g node key parameters)"
proof -
  have "keeps (edges_ok lim) (bind_p (binder_kind g node parameter ParameterType) (\<lambda>_.
      case vec_get (dg_binders g) (gpr_index parameter) of None \<Rightarrow> panic_p | Some binder \<Rightarrow> f binder))"
    if "\<And>binder. keeps (edges_ok lim) (f binder)" for parameter and f :: "_ \<Rightarrow> 'a check"
    using that
    by (cases "vec_get (dg_binders g) (gpr_index parameter)")
      (auto simp: keeps_def binder_kind_def)
  note step = this
  show ?thesis
    unfolding check_parameters_def by (rule keeps_bind, rule keeps_fold, rule step) (intro keeps_intros)+
qed

lemma keeps_declared [keeps_intros]: "keeps (edges_ok lim) (check_declared lim g node nominal key parameters)"
  unfolding check_declared_def by (intro keeps_intros)

lemma keeps_variants [keeps_intros]: "keeps (edges_ok lim) (check_variants lim node variants)"
  unfolding check_variants_def by (auto intro!: keeps_intros split: variant_payload_info.split)

lemma keeps_applied [keeps_intros]: "keeps (edges_ok lim) (check_applied g node constructor arguments)"
  unfolding check_applied_def by (intro keeps_intros)

lemma keeps_signature [keeps_intros]: "keeps (edges_ok lim) (check_signature lim node signature)"
  unfolding check_signature_def by (intro keeps_intros)

section \<open>Positions of the nodes\<close>

abbreviation graph_size :: "descriptor_graph \<Rightarrow> nat" where
  "graph_size g \<equiv> length (dg_types g) + length (dg_rows g) + length (dg_binders g) + length (dg_traces g)"

lemma unat_index: "n \<le> u32_max \<Longrightarrow> unat (of_nat n :: u32) = n"
  by (simp add: u32_max_def unat_of_nat)

lemma node_count: "node_count_of g = Some count \<Longrightarrow> count = graph_size g"
  by (auto simp: node_count_of_def checked_add_def Option.bind_eq_Some_conv split: if_splits)

lemma node_index_at:
  assumes "graph_size g \<le> u32_max" "i < graph_size g"
  shows "node_index g (node_at g i) = Some i"
  using assms by (auto simp: node_index_def node_at_def unat_index Let_def simp del: of_nat_diff)

lemma node_at_index:
  assumes "node_index g node = Some i"
  shows "node_at g i = node" "i < graph_size g"
proof -
  show "i < graph_size g" using assms by (auto simp: node_index_def split: descriptor_node.splits if_splits)
  show "node_at g i = node" using assms
    by (auto simp: node_index_def node_at_def Let_def split: descriptor_node.splits if_splits)
qed

lemma nodes_at:
  assumes "graph_size g \<le> u32_max"
  shows "map (node_at g) [0..<graph_size g] = descriptor_nodes g"
proof (rule nth_equalityI)
  show "length (map (node_at g) [0..<graph_size g]) = length (descriptor_nodes g)"
    by (simp add: descriptor_nodes_def)
qed (auto simp: descriptor_nodes_def node_at_def nth_append Let_def)

section \<open>Every reference is counted and in range\<close>

definition structural_references :: "descriptor_graph \<Rightarrow> descriptor_node \<Rightarrow> descriptor_node list" where
  "structural_references g node = (case references g False node of None \<Rightarrow> [] | Some targets \<Rightarrow> targets)"

lemma type_references_structural: "set (type_references False ty) \<subseteq> set (type_references True ty)"
  by (cases ty) (auto simp: type_references_def)

lemma structural_subset: "set (structural_references g node) \<subseteq> set (node_references g node)"
proof (cases node)
  case (NodeType r)
  then show ?thesis
    using type_references_structural
    by (cases "vec_get (dg_types g) (tir_index r)")
      (auto simp: structural_references_def node_references_def references_def)
qed (auto simp: structural_references_def node_references_def references_def)

lemma references_defined:
  assumes "node_index g node \<noteq> None"
  shows "references g True node = Some (node_references g node)"
    "references g False node = Some (structural_references g node)"
  using assms
  by (auto simp: node_index_def references_def node_references_def structural_references_def vec_get_def
      split: descriptor_node.splits if_splits)

lemma check_references_holds:
  assumes "dl_max_edges lim < usize_max" "edges_ok lim v"
  shows "holds (each_p (check_reference lim g node) targets) v (\<lambda>_ v'. edges_ok lim v' \<and>
    vd_edge_count v' = vd_edge_count v + length targets \<and> (\<forall>target\<in>set targets. node_index g target \<noteq> None))"
proof -
  have "holds (fold_p (\<lambda>target _. check_reference lim g node target) targets ()) v (\<lambda>_ v'. edges_ok lim v' \<and>
    vd_edge_count v' = vd_edge_count v + length targets \<and> (\<forall>target\<in>set targets. node_index g target \<noteq> None))"
    using assms(2)
  proof (induction targets arbitrary: v)
    case (Cons target targets)
    have "holds (check_reference lim g node target) v (\<lambda>_ v'. edges_ok lim v' \<and>
        vd_edge_count v' = Suc (vd_edge_count v) \<and> node_index g target \<noteq> None)"
      using Cons.prems assms(1)
      by (auto simp: check_reference_def edges_ok_def holds_def fail_p_def return_p_def Let_def)
    then show ?case by (auto elim!: holds_mono intro: holds_mono [OF Cons.IH])
  qed simp
  then show ?thesis by (simp add: each_p_def)
qed

definition expansion_row :: "descriptor_graph \<Rightarrow> descriptor_node \<Rightarrow> nat list" where
  "expansion_row g node = List.map_filter (node_index g) (structural_references g node)"

lemma adjacency_row_holds:
  assumes "dl_max_edges lim < usize_max" "edges_ok lim v" "node_index g (node_at g i) \<noteq> None"
  shows "holds (adjacency_row lim g i) v (\<lambda>row v'. edges_ok lim v' \<and> row = expansion_row g (node_at g i) \<and>
    vd_edge_count v' = vd_edge_count v + length (node_references g (node_at g i)) \<and>
    (\<forall>target\<in>set (node_references g (node_at g i)). node_index g target \<noteq> None))"
  using check_references_holds [OF assms(1,2), of g "node_at g i" "node_references g (node_at g i)"]
  by (auto simp: adjacency_row_def references_defined [OF assms(3)] expansion_row_def Let_def elim!: holds_mono)

lemma adjacency_rows_holds:
  assumes "dl_max_edges lim < usize_max" "edges_ok lim v" "\<And>i. i \<in> set is \<Longrightarrow> node_index g (node_at g i) \<noteq> None"
  shows "holds (fold_p (\<lambda>index rows. bind_p (adjacency_row lim g index) (\<lambda>row. return_p (rows @ [row]))) is rows) v
    (\<lambda>rows' v'. edges_ok lim v' \<and> rows' = rows @ map (\<lambda>i. expansion_row g (node_at g i)) is \<and>
      vd_edge_count v' = vd_edge_count v + sum_list (map (\<lambda>i. length (node_references g (node_at g i))) is) \<and>
      (\<forall>i\<in>set is. \<forall>target\<in>set (node_references g (node_at g i)). node_index g target \<noteq> None))"
  using assms(2,3)
proof (induction "is" arbitrary: v rows)
  case (Cons i "is")
  have later: "\<And>j. j \<in> set is \<Longrightarrow> node_index g (node_at g j) \<noteq> None" using Cons.prems(2) by simp
  have "node_index g (node_at g i) \<noteq> None" using Cons.prems by simp
  from adjacency_row_holds [OF assms(1) Cons.prems(1) this] show ?case
    by (auto elim!: holds_mono intro!: holds_mono [OF Cons.IH [OF _ later]])
qed simp

section \<open>Well-formed nodes\<close>

definition parameters_ok :: "descriptor_graph \<Rightarrow> definition_key \<Rightarrow> generic_parameter_ref list \<Rightarrow> bool" where
  "parameters_ok g key parameters \<longleftrightarrow>
     distinct parameters \<and>
     list_all (\<lambda>parameter.
         case vec_get (dg_binders g) (gpr_index parameter) of
           None \<Rightarrow> False
         | Some binder \<Rightarrow> gp_kind binder = ParameterType \<and> gp_owner binder = OwnerDeclaration key)
       parameters"

definition variants_ok :: "variant_info list \<Rightarrow> bool" where
  "variants_ok variants \<longleftrightarrow>
     distinct (map vi_name variants) \<and>
     list_all (\<lambda>variant. case vi_payload variant of PayloadNamed named \<Rightarrow> distinct (map fi_name named) | _ \<Rightarrow> True) variants"

definition type_ok :: "descriptor_graph \<Rightarrow> type_info \<Rightarrow> bool" where
  "type_ok g ty \<longleftrightarrow>
     (case ty of
        TypeExistential bounds \<Rightarrow> bounds \<noteq> [] \<and> list_all (\<lambda>bound. dk_kind (sp_definition bound) = KindSpec) bounds
      | TypeNominal key parameters representation \<Rightarrow>
          (dk_kind key = KindType \<or> dk_kind key = KindAgent \<and> parameters = []) \<and> parameters_ok g key parameters
      | TypeAlias key parameters target \<Rightarrow> dk_kind key = KindType \<and> parameters_ok g key parameters
      | TypeEnum key parameters variants \<Rightarrow>
          dk_kind key = KindType \<and> parameters_ok g key parameters \<and> variants_ok variants
      | TypeBuiltin constructor arguments \<Rightarrow> builtin_arity constructor = length arguments
      | TypeParameter parameter \<Rightarrow>
          (case vec_get (dg_binders g) (gpr_index parameter) of
             None \<Rightarrow> False | Some binder \<Rightarrow> gp_kind binder = ParameterType)
      | TypeRecord named \<Rightarrow> distinct (map fi_name named)
      | TypeFunction signature \<Rightarrow>
          distinct (sg_generics signature) \<and> distinct (List.map_filter pa_name (sg_parameters signature))
      | TypeApplied constructor arguments \<Rightarrow>
          (case vec_get (dg_types g) (tir_index constructor) of
             None \<Rightarrow> False
           | Some declared \<Rightarrow> \<exists>parameters. declared_parameters declared = Some parameters \<and> length parameters = length arguments)
      | _ \<Rightarrow> True)"

definition footprint_ok :: "descriptor_graph \<Rightarrow> effect_row_info_ref \<Rightarrow> bool" where
  "footprint_ok g actions \<longleftrightarrow>
     (case vec_get (dg_rows g) (rir_index actions) of
        None \<Rightarrow> False | Some row \<Rightarrow> er_tail row = None \<and> list_all is_action (er_effects row))"

definition call_ok :: "descriptor_graph \<Rightarrow> parameter_call_info \<Rightarrow> bool" where
  "call_ok g call \<longleftrightarrow>
     (case vec_get (dg_types g) (tir_index (pc_signature call)) of
        Some (TypeFunction owner) \<Rightarrow> unat (pc_position call) < length (sg_parameters owner)
      | _ \<Rightarrow> False)"

definition trace_calls :: "trace_info \<Rightarrow> parameter_call_info list" where
  "trace_calls trace =
     (case trace of
        TraceOutcome (OutcomeParameterNonReturn call) \<Rightarrow> [call]
      | TraceOutcome (OutcomeParameterNonReturnTemplate call) \<Rightarrow> [call]
      | TraceParameterCall call \<Rightarrow> [call]
      | TraceWidened actions calls \<Rightarrow> calls
      | _ \<Rightarrow> [])"

definition trace_ok :: "descriptor_graph \<Rightarrow> trace_info \<Rightarrow> bool" where
  "trace_ok g trace \<longleftrightarrow>
     list_all (call_ok g) (trace_calls trace) \<and>
     (case trace of
        TraceEvent effect \<Rightarrow> is_action effect
      | TraceUnknownOrder actions \<Rightarrow> footprint_ok g actions
      | TraceWidened actions calls \<Rightarrow> footprint_ok g actions
      | _ \<Rightarrow> True)"

lemma check_names_holds:
  assumes "edges_ok lim v"
  shows "holds (check_names lim node names) v (\<lambda>_ v'. edges_ok lim v' \<and> distinct names)"
proof -
  have "holds (fold_p (\<lambda>value seen. bind_p (check_name lim node value) (\<lambda>_.
      if value \<in> set seen then fail_p (DuplicateName node value) else return_p (value # seen))) names seen) v
    (\<lambda>_ v'. edges_ok lim v' \<and> distinct names \<and> set names \<inter> set seen = {})" for seen
    using assms
  proof (induction names arbitrary: v seen)
    case (Cons name rest)
    show ?case
      by (auto intro!: holds_mono [OF keepsD [OF keeps_name Cons.prems]] holds_mono [OF Cons.IH])
  qed simp
  from this [of "[]"] show ?thesis by (auto simp: check_names_def elim!: holds_mono)
qed

lemma check_applied_holds:
  "edges_ok lim v \<Longrightarrow> holds (check_applied g node constructor arguments) v
     (\<lambda>_ v'. edges_ok lim v' \<and> type_ok g (TypeApplied constructor arguments))"
  by (auto simp: check_applied_def type_ok_def split: option.split)

lemma check_signature_holds:
  "edges_ok lim v \<Longrightarrow> holds (check_signature lim node signature) v
     (\<lambda>_ v'. edges_ok lim v' \<and> type_ok g (TypeFunction signature))"
  by (auto simp: check_signature_def type_ok_def intro: holds_mono [OF check_names_holds])

lemma check_kind_holds:
  assumes "edges_ok lim v"
  shows "holds (check_kind lim node key kind) v (\<lambda>_ v'. edges_ok lim v' \<and> dk_kind key = kind)"
  using assms by (auto simp: check_kind_def intro!: holds_mono [OF keepsD [OF keeps_identity]])

lemma parameters_ok_Cons:
  "vec_get (dg_binders g) (gpr_index parameter) = Some binder \<Longrightarrow>
   parameters_ok g key (parameter # rest) \<longleftrightarrow>
   parameter \<notin> set rest \<and> gp_kind binder = ParameterType \<and> gp_owner binder = OwnerDeclaration key \<and> parameters_ok g key rest"
  by (auto simp: parameters_ok_def)

lemma check_parameters_holds:
  assumes "edges_ok lim v"
  shows "holds (check_parameters g node key parameters) v (\<lambda>_ v'. edges_ok lim v' \<and> parameters_ok g key parameters)"
proof -
  have "holds (fold_p (\<lambda>parameter seen.
      bind_p (binder_kind g node parameter ParameterType) (\<lambda>_.
        case vec_get (dg_binders g) (gpr_index parameter) of
          None \<Rightarrow> panic_p
        | Some binder \<Rightarrow>
            if gp_owner binder \<noteq> OwnerDeclaration key \<or> parameter \<in> set seen
            then fail_p (InvalidNode node ''nominal/alias generic binder has a different owner or is duplicated'')
            else return_p (parameter # seen))) parameters seen) v
    (\<lambda>_ v'. edges_ok lim v' \<and> parameters_ok g key parameters \<and> set parameters \<inter> set seen = {})" for seen
    using assms
  proof (induction parameters arbitrary: v seen)
    case (Cons parameter rest)
    have kind: "holds (binder_kind g node parameter ParameterType) v (\<lambda>_ v'. v' = v \<and>
        (\<exists>binder. vec_get (dg_binders g) (gpr_index parameter) = Some binder \<and> gp_kind binder = ParameterType))"
      by (auto simp: binder_kind_def split: option.split)
    show ?case
      using Cons.prems
      by (auto simp: parameters_ok_Cons disjoint_iff intro!: holds_mono [OF kind] holds_mono [OF Cons.IH])
  qed (simp add: parameters_ok_def)
  from this [of "[]"] show ?thesis by (auto simp: check_parameters_def elim!: holds_mono)
qed

lemma check_declared_holds:
  assumes "edges_ok lim v"
  shows "holds (check_declared lim g node nominal key parameters) v (\<lambda>_ v'. edges_ok lim v' \<and>
     (dk_kind key = KindType \<or> nominal \<and> dk_kind key = KindAgent \<and> parameters = []) \<and> parameters_ok g key parameters)"
  using assms
  by (auto simp: check_declared_def intro!: holds_mono [OF check_kind_holds] holds_mono [OF keepsD [OF keeps_identity]]
      holds_mono [OF check_parameters_holds])

lemma check_variants_holds:
  assumes "edges_ok lim v"
  shows "holds (check_variants lim node variants) v (\<lambda>_ v'. edges_ok lim v' \<and> variants_ok variants)"
proof -
  let ?named = "\<lambda>variant. case vi_payload variant of PayloadNamed named \<Rightarrow> distinct (map fi_name named) | _ \<Rightarrow> True"
  have "holds (each_p (\<lambda>variant. case vi_payload variant of PayloadNamed named \<Rightarrow> check_names lim node (map fi_name named) | _ \<Rightarrow> return_p ())
      variants) v (\<lambda>_ v'. edges_ok lim v' \<and> (\<forall>variant\<in>set variants. ?named variant))" if "edges_ok lim v" for v
    using that by (intro holds_each) (auto intro: check_names_holds split: variant_payload_info.split)
  then show ?thesis unfolding check_variants_def holds_bind variants_ok_def
    by (auto simp: list_all_iff intro!: holds_mono [OF check_names_holds [OF assms]] elim!: holds_mono)
qed

lemma check_specs_holds:
  assumes "edges_ok lim v"
  shows "holds (each_p (\<lambda>bound. check_kind lim node (sp_definition bound) KindSpec) bounds) v
     (\<lambda>_ v'. edges_ok lim v' \<and> (\<forall>bound\<in>set bounds. dk_kind (sp_definition bound) = KindSpec))"
  using assms by (intro holds_each check_kind_holds)

lemma validate_type_holds:
  assumes "edges_ok lim v"
  shows "holds (validate_type lim g (i, ty)) v (\<lambda>_ v'. edges_ok lim v' \<and> type_ok g ty)"
proof (cases ty)
  case (TypeRecord named)
  with check_names_holds [OF assms] show ?thesis by (simp add: validate_type_def type_ok_def Let_def)
next
  case (TypeApplied constructor arguments)
  with check_applied_holds [OF assms] show ?thesis by (simp add: validate_type_def Let_def)
next
  case (TypeFunction signature)
  with check_signature_holds [OF assms] show ?thesis by (simp add: validate_type_def Let_def)
next
  case (TypeParameter parameter)
  with assms show ?thesis by (auto simp: validate_type_def type_ok_def binder_kind_def Let_def split: option.split)
next
  case (TypeEnum key parameters variants)
  then show ?thesis
    by (auto simp: validate_type_def type_ok_def Let_def intro!: holds_mono [OF check_declared_holds [OF assms]]
        holds_mono [OF check_variants_holds])
next
  case (TypeNominal key parameters representation)
  then show ?thesis
    by (auto simp: validate_type_def type_ok_def Let_def intro!: holds_mono [OF check_declared_holds [OF assms]])
next
  case (TypeAlias key parameters target)
  then show ?thesis
    by (auto simp: validate_type_def type_ok_def Let_def intro!: holds_mono [OF check_declared_holds [OF assms]])
next
  case (TypeExistential bounds)
  with check_specs_holds [OF assms] show ?thesis
    by (auto simp: validate_type_def type_ok_def Let_def list_all_iff elim!: holds_mono)
qed (use assms in \<open>auto simp: validate_type_def type_ok_def Let_def intro: keepsD keeps_intros\<close>)

lemma check_footprint_holds:
  "edges_ok lim v \<Longrightarrow> holds (check_footprint g node actions) v (\<lambda>_ v'. edges_ok lim v' \<and> footprint_ok g actions)"
  by (auto simp: check_footprint_def footprint_ok_def split: option.split)

lemma check_trace_head_holds:
  assumes "edges_ok lim v"
  shows "holds (check_trace_head lim g node trace) v (\<lambda>calls v'. edges_ok lim v' \<and> calls = trace_calls trace \<and>
     (trace_ok g trace \<longleftrightarrow> list_all (call_ok g) calls))"
proof (cases trace)
  case (TraceOutcome outcome)
  with assms show ?thesis
    by (cases outcome) (auto simp: check_trace_head_def trace_calls_def trace_ok_def
        intro!: holds_mono [OF keepsD [OF keeps_return_observation]])
next
  case (TraceEvent effect)
  with assms show ?thesis
    by (auto simp: check_trace_head_def trace_calls_def trace_ok_def intro!: holds_mono [OF keepsD [OF keeps_effect]])
qed (use assms in \<open>auto simp: check_trace_head_def trace_calls_def trace_ok_def
    intro!: holds_mono [OF check_footprint_holds]\<close>)

lemma check_call_holds:
  assumes "edges_ok lim v"
  shows "holds (check_call lim g node trace call) v (\<lambda>_ v'. edges_ok lim v' \<and> call_ok g call)"
proof (cases "call_ok g call")
  case True
  with keepsD [OF keeps_call assms] show ?thesis by simp
next
  case False
  have "keeps (edges_ok lim) (each_p (check_handler lim g node) handlers)" for handlers by (intro keeps_intros)
  note handlers = keepsD [OF this assms]
  from False show ?thesis
    unfolding check_call_def
    by (auto simp: call_ok_def vec_get_def intro!: holds_mono [OF handlers] split: option.splits type_info.splits if_splits)
qed

lemma validate_trace_holds:
  assumes "edges_ok lim v"
  shows "holds (validate_trace lim g (i, trace)) v (\<lambda>_ v'. edges_ok lim v' \<and> trace_ok g trace)"
proof -
  have calls: "holds (each_p (check_call lim g node trace) calls) v (\<lambda>_ v'. edges_ok lim v' \<and> (\<forall>call\<in>set calls. call_ok g call))"
    if "edges_ok lim v" for v calls node
    using check_call_holds that by (rule holds_each)
  show ?thesis
    unfolding validate_trace_def Let_def
    by (auto simp: list_all_iff intro!: holds_mono [OF check_trace_head_holds [OF assms]]
        holds_mono [OF keepsD [OF keeps_count]] holds_mono [OF calls])
qed

lemma validate_row_keeps: "keeps (edges_ok lim) (validate_row lim g entry)"
  unfolding validate_row_def Let_def by (intro keeps_intros)

section \<open>Binders\<close>

abbreviation binder_identity :: "generic_parameter_info \<Rightarrow> generic_owner \<times> u32" where
  "binder_identity binder \<equiv> (gp_owner binder, gp_position binder)"

definition binder_ok :: "generic_parameter_info \<Rightarrow> bool" where
  "binder_ok binder \<longleftrightarrow>
     (gp_kind binder = ParameterEffectRow \<longrightarrow> gp_bounds binder = []) \<and>
     list_all (\<lambda>bound. dk_kind (sp_definition bound) = KindSpec) (gp_bounds binder)"

lemma validate_binder_holds:
  assumes "edges_ok lim v"
  shows "holds (validate_binder lim dup (i, binder) sets) v (\<lambda>sets' v'. edges_ok lim v' \<and> binder_ok binder \<and>
     fst sets' = binder_identity binder # fst sets \<and> (dup \<or> binder_identity binder \<notin> set (fst sets)))"
  by (auto simp: validate_binder_def binder_ok_def list_all_iff Let_def split: prod.split
      intro!: holds_mono [OF keepsD [OF keeps_name assms]] holds_mono [OF keepsD [OF keeps_owner]]
      holds_mono [OF check_specs_holds])

lemma validate_binders_holds:
  assumes "edges_ok lim v"
  shows "holds (fold_p (validate_binder lim dup) (enumerate n binders) sets) v (\<lambda>_ v'. edges_ok lim v' \<and>
     list_all binder_ok binders \<and>
     (dup \<or> distinct (map binder_identity binders) \<and> binder_identity ` set binders \<inter> set (fst sets) = {}))"
  using assms
proof (induction binders arbitrary: n v sets)
  case (Cons b bs)
  show ?case
    by (auto intro!: holds_mono [OF validate_binder_holds [OF Cons.prems]] holds_mono [OF Cons.IH])
qed simp

section \<open>The whole graph\<close>

definition nodes_ok :: "descriptor_graph \<Rightarrow> bool" where
  "nodes_ok g \<longleftrightarrow>
     list_all binder_ok (dg_binders g) \<and> list_all (type_ok g) (dg_types g) \<and> list_all (trace_ok g) (dg_traces g)"

lemma validate_nodes_holds:
  assumes "edges_ok lim v"
  shows "holds (validate_nodes lim dup g) v (\<lambda>_ v'. edges_ok lim v' \<and> nodes_ok g \<and>
     (dup \<or> distinct (map binder_identity (dg_binders g))))"
proof -
  have entries: "(\<forall>entry\<in>set (enumerate 0 xs). P (snd entry)) \<longleftrightarrow> list_all P xs" for P and xs :: "'a list"
  proof -
    have "list_all P xs \<longleftrightarrow> list_all P (map snd (enumerate 0 xs))" by simp
    then show ?thesis by (simp only: list_all_iff set_map ball_simps)
  qed
  have types: "holds (each_p (validate_type lim g) (enumerate 0 xs)) v (\<lambda>_ v'. edges_ok lim v' \<and> list_all (type_ok g) xs)"
    if "edges_ok lim v" for v xs
    using holds_each [of "enumerate 0 xs" "edges_ok lim" "validate_type lim g" "\<lambda>entry. type_ok g (snd entry)", OF _ that]
      validate_type_holds by (auto simp: entries)
  have traces: "holds (each_p (validate_trace lim g) (enumerate 0 xs)) v (\<lambda>_ v'. edges_ok lim v' \<and> list_all (trace_ok g) xs)"
    if "edges_ok lim v" for v xs
    using holds_each [of "enumerate 0 xs" "edges_ok lim" "validate_trace lim g" "\<lambda>entry. trace_ok g (snd entry)", OF _ that]
      validate_trace_holds by (auto simp: entries)
  have rows: "holds (each_p (validate_row lim g) xs) v (\<lambda>_ v'. edges_ok lim v')" if "edges_ok lim v" for v xs
    using that by (intro keepsD [of "edges_ok lim"] keeps_each validate_row_keeps)
  show ?thesis
    unfolding validate_nodes_def nodes_ok_def
    by (auto intro!: holds_mono [OF validate_binders_holds [OF assms]] holds_mono [OF types] holds_mono [OF rows]
        holds_mono [OF traces])
qed

definition expansion_bounded :: "descriptor_graph \<Rightarrow> nat \<Rightarrow> bool" where
  "expansion_bounded g limit \<longleftrightarrow>
     (\<exists>height. \<forall>node\<in>set (descriptor_nodes g). \<forall>child\<in>set (structural_references g node).
        height child < (height node :: nat) \<and> height node \<le> limit)"

definition validated :: "descriptor_graph \<Rightarrow> descriptor_limits \<Rightarrow> bool" where
  "validated g lim \<longleftrightarrow>
     graph_closed g \<and> graph_reference_count g \<le> dl_max_edges lim \<and> nodes_ok g \<and>
     expansion_bounded g (dl_max_expansion_depth lim)"

lemma validated_expansion:
  assumes size: "graph_size g \<le> u32_max" and closed: "graph_closed g"
  defines "adj \<equiv> map (\<lambda>i. expansion_row g (node_at g i)) [0..<graph_size g]"
  shows "case validate_expansion g adj limit of None \<Rightarrow> False | Some (Inl _) \<Rightarrow> True | Some (Inr _) \<Rightarrow> expansion_bounded g limit"
proof -
  have edges: "expansion_edges adj = {(i, c). i < graph_size g \<and> c \<in> set (expansion_row g (node_at g i))}"
    by (auto simp: expansion_edges_def adj_def)
  have "in_range adj"
    unfolding in_range_def edges by (auto simp: adj_def expansion_row_def List.map_filter_def dest: node_at_index(2))
  moreover have "length adj < usize_max" using size by (simp add: adj_def u32_max_def usize_max_def)
  ultimately have result: "case validate_expansion g adj limit of None \<Rightarrow> False
    | Some (Inr _) \<Rightarrow> \<exists>height. \<forall>i c. (i, c) \<in> expansion_edges adj \<longrightarrow> height c < (height i :: nat) \<and> height i \<le> limit
    | Some (Inl e) \<Rightarrow>
        (\<exists>i. e = UnguardedCycle (node_at g i) \<and> (i, i) \<in> (expansion_edges adj)\<^sup>+) \<or>
        (\<exists>i xs. e = DescriptorLimit ''expansion depth'' limit \<and> expansion_path adj i xs \<and> limit < length xs)"
    by (rule validate_expansion_result)
  have bounded: "expansion_bounded g limit"
    if "\<forall>i c. (i, c) \<in> expansion_edges adj \<longrightarrow> height c < (height i :: nat) \<and> height i \<le> limit" for height
    unfolding expansion_bounded_def
  proof (intro exI [of _ "\<lambda>node. height (the (node_index g node))"] ballI)
    fix node child
    assume node: "node \<in> set (descriptor_nodes g)" and child: "child \<in> set (structural_references g node)"
    from node have "node \<in> set (map (node_at g) [0..<graph_size g])" unfolding nodes_at [OF size] .
    then obtain i where i: "i < graph_size g" "node = node_at g i" by auto
    from child structural_subset have "child \<in> set (node_references g node)" by blast
    with closed node have "node_index g child \<noteq> None" unfolding graph_closed_def list_all_iff by blast
    then obtain c where c: "node_index g child = Some c" by blast
    with child have "c \<in> set (expansion_row g node)"
      unfolding expansion_row_def List.map_filter_def by (force intro!: image_eqI [of _ _ child])
    with i have "(i, c) \<in> expansion_edges adj" unfolding edges by simp
    moreover have "node_index g node = Some i" using i size by (simp add: node_index_at)
    ultimately
    show "height (the (node_index g child)) < height (the (node_index g node)) \<and> height (the (node_index g node)) \<le> limit"
      using that c by simp
  qed
  show ?thesis
  proof (cases "validate_expansion g adj limit")
    case (Some r)
    with result bounded show ?thesis by (cases r) (simp, simp, blast)
  qed (use result in simp)
qed

lemma validate_inner_result:
  assumes "dl_max_edges lim < usize_max"
  shows "case validate_inner g lim dup of None \<Rightarrow> False | Some (Inl _) \<Rightarrow> True
    | Some (Inr _) \<Rightarrow> validated g lim \<and> (dup \<or> distinct (map binder_identity (dg_binders g)))"
proof (cases "\<exists>count. node_count_of g = Some count \<and> count \<le> dl_max_nodes lim \<and> count \<le> u32_max")
  case False
  then show ?thesis by (cases "node_count_of g") (auto simp: validate_inner_def not_le)
next
  case True
  then have count: "node_count_of g = Some (graph_size g)" "graph_size g \<le> dl_max_nodes lim" and size: "graph_size g \<le> u32_max"
    using node_count by blast+
  let ?adj = "map (\<lambda>i. expansion_row g (node_at g i)) [0..<graph_size g]" and ?start = "\<lparr>vd_text_bytes = 0, vd_edge_count = 0\<rparr>"
  have start: "edges_ok lim ?start" by (simp add: edges_ok_def)
  have nodes: "map (\<lambda>i. length (node_references g (node_at g i))) [0..<graph_size g] =
      map (\<lambda>node. length (node_references g node)) (descriptor_nodes g)"
    "(\<lambda>i. node_at g i) ` set [0..<graph_size g] = set (descriptor_nodes g)"
    unfolding nodes_at [OF size, symmetric] by simp_all
  have rows: "holds (adjacency_rows lim g (graph_size g)) v (\<lambda>rows v'. rows = ?adj \<and> graph_closed g \<and>
      graph_reference_count g \<le> dl_max_edges lim)" if "edges_ok lim v" for v
    unfolding adjacency_rows_def
  proof (rule holds_mono [OF adjacency_rows_holds [OF assms that]], goal_cases)
    case (2 rows v')
    then show ?case unfolding graph_closed_def graph_reference_count_def nodes(1) [symmetric] list_all_iff nodes(2) [symmetric]
      by (auto simp: edges_ok_def)
  qed (use size in \<open>simp add: node_index_at\<close>)
  have "holds (bind_p (validate_nodes lim dup g) (\<lambda>_. adjacency_rows lim g (graph_size g))) ?start
    (\<lambda>rows v'. rows = ?adj \<and> graph_closed g \<and> graph_reference_count g \<le> dl_max_edges lim \<and> nodes_ok g \<and>
      (dup \<or> distinct (map binder_identity (dg_binders g))))"
    unfolding holds_bind by (rule holds_mono [OF validate_nodes_holds [OF start]]) (auto intro: holds_mono [OF rows])
  with validated_expansion [OF size, of "dl_max_expansion_depth lim"] count size show ?thesis
    by (auto simp: validate_inner_def holds_def validated_def bind_o_def split: option.splits sum.splits)
qed

lemma descriptor_graph_new_Inr: "descriptor_graph_new g lim = Some (Inr g') \<longleftrightarrow> g' = g \<and> validate_graph g lim = Some (Inr ())"
  by (auto simp: descriptor_graph_new_def bind_o_def split: option.splits sum.splits)

lemma accepted_validated:
  assumes "dl_max_edges lim < usize_max" "descriptor_graph_new input lim = Some (Inr g)"
  shows "validated g lim" "distinct (map binder_identity (dg_binders g))" "g = input"
  using validate_inner_result [OF assms(1), of g False] assms(2)
  by (auto simp: descriptor_graph_new_Inr validate_graph_def)

text \<open>
  C3: An accepted graph is well formed. When \<open>DescriptorGraph::new\<close> returns a graph, it is the input;
  every reference of every node is to a node of the graph, there are at most \<open>max_edges\<close> references, and
  structural references decrease a height of at most \<open>max_expansion_depth\<close>, so expanding them ends. No
  two generic binders share an owner and a position; the parameters that a nominal type, an alias or an enum
  declares are distinct type parameters that it owns, and its key is a type (or, for a nominal type without
  parameters, an agent); the names of the fields, variants and parameters of a type are distinct; built-in and
  applied types have as many arguments as their constructor declares; the bounds of binders and existentials are specs;
  events and footprints name concrete actions only, and each parameter
  call selects a parameter of a function signature. The limit \<open>max_edges\<close> is assumed to be less than \<open>usize::MAX\<close>,
  where the edge counter would overflow before it exceeds the limit.
\<close>

theorem accepted_graph_wf:
  assumes "dl_max_edges lim < usize_max" "descriptor_graph_new input lim = Some (Inr g)"
  shows "g = input \<and> graph_closed g \<and> graph_reference_count g \<le> dl_max_edges lim \<and>
    expansion_bounded g (dl_max_expansion_depth lim) \<and> distinct (map (\<lambda>b. (gp_owner b, gp_position b)) (dg_binders g)) \<and>
    list_all binder_ok (dg_binders g) \<and> list_all (type_ok g) (dg_types g) \<and> list_all (trace_ok g) (dg_traces g)"
  using accepted_validated [OF assms] by (auto simp: validated_def nodes_ok_def)

text \<open>
  C20: Validation returns. Whatever the vectors contain, \<open>validate\<close>, \<open>validate_for_binder_merge\<close> and
  \<open>DescriptorGraph::new\<close> end without a panic, with the graph or an error: no index is out of bounds, the
  edge count does not overflow, and no walk over references revisits a node forever. The limit \<open>max_edges\<close> is
  assumed to be less than \<open>usize::MAX\<close>; at \<open>usize::MAX\<close> the count of edges is not bounded before its addition.
\<close>

theorem validation_returns:
  assumes "dl_max_edges lim < usize_max"
  shows "validate_graph g lim \<noteq> None \<and> validate_for_binder_merge g lim \<noteq> None \<and> descriptor_graph_new g lim \<noteq> None"
  using validate_inner_result [OF assms, of g False] validate_inner_result [OF assms, of g True]
  by (auto simp: validate_graph_def validate_for_binder_merge_def descriptor_graph_new_def bind_o_def
      split: option.splits sum.splits)

section \<open>Integer arguments\<close>

definition integer_value :: "bool \<times> 128 word \<Rightarrow> int" where
  "integer_value = (\<lambda>(negative, magnitude). if negative then - uint magnitude else uint magnitude)"

definition integer_range :: "bool \<Rightarrow> nat \<Rightarrow> int set" where
  "integer_range is_signed bits = (if is_signed then {- (2 ^ (bits - 1))..<2 ^ (bits - 1)} else {0..<2 ^ bits})"

lemma integer_fits:
  assumes "integer_width primitive = Some (is_signed, bits)"
  shows "integer_argument_fits primitive negative magnitude \<longleftrightarrow>
    \<not> (negative \<and> magnitude = 0) \<and> integer_value (negative, magnitude) \<in> integer_range is_signed bits"
proof -
  obtain u where u: "uint magnitude = u" "0 \<le> u" "u < 2 ^ 128" using uint_lt2p [of magnitude] by simp
  moreover have "magnitude = 0 \<longleftrightarrow> u = 0" using u(1) by (auto simp: uint_0_iff)
  ultimately show ?thesis using assms
    by (cases primitive) (auto simp: integer_argument_fits_def integer_width_def integer_value_def integer_range_def
        word_le_def word_less_def Let_def)
qed

text \<open>
  C21: Integer arguments are canonical. For an integer type of a given signedness and width, the pairs of a
  sign and a magnitude that \<open>integer_argument_fits\<close> accepts correspond one to one to the values of the
  type: every value of the type has exactly one accepted pair, and no accepted pair is out of range.
\<close>

theorem integer_argument_fits_canonical:
  assumes "integer_width primitive = Some (is_signed, bits)"
  shows "bij_betw integer_value {(negative, magnitude). integer_argument_fits primitive negative magnitude} (integer_range is_signed bits)"
proof (rule bij_betw_imageI)
  show "inj_on integer_value {(negative, magnitude). integer_argument_fits primitive negative magnitude}"
  proof (rule inj_onI, clarify)
    fix n m n' m'
    assume "integer_argument_fits primitive n m" "integer_argument_fits primitive n' m'"
      and same: "integer_value (n, m) = integer_value (n', m')"
    then have "n \<longrightarrow> uint m \<noteq> 0" "n' \<longrightarrow> uint m' \<noteq> 0" using integer_fits [OF assms] uint_0_iff by blast+
    then have "n \<longleftrightarrow> integer_value (n, m) < 0" "n' \<longleftrightarrow> integer_value (n', m') < 0"
      by (auto simp: integer_value_def order.strict_iff_order)
    with same have "n = n' \<and> uint m = uint m'" by (auto simp: integer_value_def split: if_splits)
    then show "n = n' \<and> m = m'" by (simp add: word_uint_eq_iff)
  qed
  have width: "bits \<le> 128" using assms by (cases primitive) (auto simp: integer_width_def)
  show "integer_value ` {(negative, magnitude). integer_argument_fits primitive negative magnitude} = integer_range is_signed bits"
  proof (intro equalityI subsetI)
    fix i assume i: "i \<in> integer_range is_signed bits"
    have "(2 :: int) ^ (bits - 1) < 2 ^ 128" using width by (intro power_strict_increasing) auto
    moreover have "(2 :: int) ^ bits \<le> 2 ^ 128" using width by (rule power_increasing) simp
    ultimately have "\<bar>i\<bar> < 2 ^ 128" using i unfolding integer_range_def by (auto split: if_splits)
    then have m: "uint (word_of_int \<bar>i\<bar> :: 128 word) = \<bar>i\<bar>" by (simp add: uint_word_of_int)
    then have v: "integer_value (i < 0, word_of_int \<bar>i\<bar>) = i" unfolding integer_value_def prod.case m by simp
    moreover have "integer_argument_fits primitive (i < 0) (word_of_int \<bar>i\<bar>)"
      unfolding integer_fits [OF assms] v using i m by auto
    ultimately show "i \<in> integer_value ` {(negative, magnitude). integer_argument_fits primitive negative magnitude}"
      by (metis (mono_tags, lifting) case_prodI image_eqI mem_Collect_eq)
  qed (auto simp: integer_fits [OF assms])
qed

section \<open>Samples\<close>

lemmas validation_runs =
  descriptor_graph_new_def validate_graph_def validate_inner_def node_count_of_def checked_add_def validate_nodes_def
  bind_p_def each_p_def return_p_def fail_p_def validate_type_def validate_trace_def check_trace_head_def validate_row_def
  check_effect_def check_kind_def check_identity_def check_name_def check_text_def bad_segment_def count_edges_def
  adjacency_rows_def adjacency_row_def check_reference_def references_def type_references_def trace_references_def
  effect_references_def option_list_def node_at_def node_index_def vec_get_def List.map_filter_def validate_expansion_def
  expansion_root_def expansion_loop.simps max_height_def saturating_add_def usize_max_def u32_max_def
  descriptor_limits_default_def is_action_def builtin_arity_def Let_def enumerate_eq_zip upt_rec

lemma sample_accepted: "descriptor_graph_new sample_descriptors descriptor_limits_default = Some (Inr sample_descriptors)"
  by (simp add: validation_runs sample_descriptors_def cong: bind_o_weak)

theorem accepted_graph_wf_witness:
  "graph_closed sample_descriptors \<and> expansion_bounded sample_descriptors 256 \<and> list_all (type_ok sample_descriptors) (dg_types sample_descriptors)"
  using accepted_graph_wf [OF _ sample_accepted] by (simp add: descriptor_limits_default_def usize_max_def)

theorem validation_returns_witness: "validate_graph sample_descriptors descriptor_limits_default \<noteq> None"
  using validation_returns [of descriptor_limits_default sample_descriptors]
  by (simp add: descriptor_limits_default_def usize_max_def)

theorem integer_argument_fits_canonical_witness:
  "bij_betw integer_value {(negative, magnitude). integer_argument_fits PI8 negative magnitude} {-128..<128}"
  using integer_argument_fits_canonical [of PI8 True 8] by (simp add: integer_width_def integer_range_def)

end
