(* ===== verification/Renaming.thy ===== *)
theory Renaming
  imports Fingerprints
begin

text \<open>
  Fingerprints do not depend on where a graph keeps its nodes. A renaming maps the references of each arena;
  it acts on every kind of descriptor by replacing the references in it and nothing else. The bytes that a node
  writes are those of the renamed node, and its references are renamed one by one.
\<close>

section \<open>Renaming descriptors\<close>

record renaming =
  rn_type :: "type_info_ref \<Rightarrow> type_info_ref"
  rn_row :: "effect_row_info_ref \<Rightarrow> effect_row_info_ref"
  rn_binder :: "generic_parameter_ref \<Rightarrow> generic_parameter_ref"
  rn_trace :: "trace_info_ref \<Rightarrow> trace_info_ref"

fun rename_node :: "renaming \<Rightarrow> descriptor_node \<Rightarrow> descriptor_node" where
  "rename_node \<rho> (NodeType r) = NodeType (rn_type \<rho> r)"
| "rename_node \<rho> (NodeRow r) = NodeRow (rn_row \<rho> r)"
| "rename_node \<rho> (NodeBinder r) = NodeBinder (rn_binder \<rho> r)"
| "rename_node \<rho> (NodeTrace r) = NodeTrace (rn_trace \<rho> r)"

definition rename_field :: "renaming \<Rightarrow> field_info \<Rightarrow> field_info" where
  "rename_field \<rho> field = field\<lparr>fi_ty := rn_type \<rho> (fi_ty field)\<rparr>"

fun rename_payload :: "renaming \<Rightarrow> variant_payload_info \<Rightarrow> variant_payload_info" where
  "rename_payload \<rho> PayloadNone = PayloadNone"
| "rename_payload \<rho> (PayloadPositional types) = PayloadPositional (map (rn_type \<rho>) types)"
| "rename_payload \<rho> (PayloadNamed members) = PayloadNamed (map (rename_field \<rho>) members)"

definition rename_variant :: "renaming \<Rightarrow> variant_info \<Rightarrow> variant_info" where
  "rename_variant \<rho> variant = variant\<lparr>vi_payload := rename_payload \<rho> (vi_payload variant)\<rparr>"

definition rename_spec :: "renaming \<Rightarrow> spec_info \<Rightarrow> spec_info" where
  "rename_spec \<rho> bound = bound\<lparr>sp_arguments := map (rn_type \<rho>) (sp_arguments bound)\<rparr>"

definition rename_parameter :: "renaming \<Rightarrow> parameter_info \<Rightarrow> parameter_info" where
  "rename_parameter \<rho> parameter = parameter\<lparr>pa_ty := rn_type \<rho> (pa_ty parameter)\<rparr>"

definition rename_signature :: "renaming \<Rightarrow> signature_info \<Rightarrow> signature_info" where
  "rename_signature \<rho> signature =
     \<lparr>sg_generics = map (rn_binder \<rho>) (sg_generics signature),
      sg_parameters = map (rename_parameter \<rho>) (sg_parameters signature),
      sg_output = rn_type \<rho> (sg_output signature),
      sg_declared_output = map_option (rn_type \<rho>) (sg_declared_output signature),
      sg_effects = map_option (rn_row \<rho>) (sg_effects signature)\<rparr>"

fun rename_type :: "renaming \<Rightarrow> type_info \<Rightarrow> type_info" where
  "rename_type \<rho> (TypeExistential bounds) = TypeExistential (map (rename_spec \<rho>) bounds)"
| "rename_type \<rho> (TypePrimitive primitive) = TypePrimitive primitive"
| "rename_type \<rho> (TypeBuiltin constructor arguments) = TypeBuiltin constructor (map (rn_type \<rho>) arguments)"
| "rename_type \<rho> (TypeParameter parameter) = TypeParameter (rn_binder \<rho> parameter)"
| "rename_type \<rho> (TypeTuple elements) = TypeTuple (map (rn_type \<rho>) elements)"
| "rename_type \<rho> (TypeRecord members) = TypeRecord (map (rename_field \<rho>) members)"
| "rename_type \<rho> (TypeNominal key parameters representation) =
     TypeNominal key (map (rn_binder \<rho>) parameters) (map_option (rn_type \<rho>) representation)"
| "rename_type \<rho> (TypeAlias key parameters target) = TypeAlias key (map (rn_binder \<rho>) parameters) (rn_type \<rho> target)"
| "rename_type \<rho> (TypeEnum key parameters variants) =
     TypeEnum key (map (rn_binder \<rho>) parameters) (map (rename_variant \<rho>) variants)"
| "rename_type \<rho> (TypeApplied constructor arguments) = TypeApplied (rn_type \<rho> constructor) (map (rn_type \<rho>) arguments)"
| "rename_type \<rho> (TypeFunction signature) = TypeFunction (rename_signature \<rho> signature)"
| "rename_type \<rho> (TypeHandler handled produced result) =
     TypeHandler (rn_row \<rho> handled) (map_option (rn_row \<rho>) produced) (map_option (rn_type \<rho>) result)"
| "rename_type \<rho> (TypeTask output effects) = TypeTask (rn_type \<rho> output) (rn_row \<rho> effects)"

definition rename_binder :: "renaming \<Rightarrow> generic_parameter_info \<Rightarrow> generic_parameter_info" where
  "rename_binder \<rho> binder = binder\<lparr>gp_bounds := map (rename_spec \<rho>) (gp_bounds binder)\<rparr>"

fun rename_argument :: "renaming \<Rightarrow> static_effect_arg_info \<Rightarrow> static_effect_arg_info" where
  "rename_argument \<rho> (ArgType ty) = ArgType (rn_type \<rho> ty)"
| "rename_argument \<rho> argument = argument"

definition rename_effect :: "renaming \<Rightarrow> effect_info \<Rightarrow> effect_info" where
  "rename_effect \<rho> effect = effect\<lparr>ef_arguments := map (rename_argument \<rho>) (ef_arguments effect)\<rparr>"

definition rename_row :: "renaming \<Rightarrow> effect_row_info \<Rightarrow> effect_row_info" where
  "rename_row \<rho> row =
     \<lparr>er_effects = map (rename_effect \<rho>) (er_effects row), er_tail = map_option (rn_binder \<rho>) (er_tail row)\<rparr>"

fun rename_completion :: "renaming \<Rightarrow> parameter_handler_completion_info \<Rightarrow> parameter_handler_completion_info" where
  "rename_completion \<rho> (CompletionResume ty observed) = CompletionResume (rn_type \<rho> ty) observed"
| "rename_completion \<rho> (CompletionFinish ty observed) = CompletionFinish (rn_type \<rho> ty) observed"

definition rename_arm :: "renaming \<Rightarrow> parameter_handler_arm_info \<Rightarrow> parameter_handler_arm_info" where
  "rename_arm \<rho> arm =
     \<lparr>ha_action = rename_effect \<rho> (ha_action arm), ha_trace = rn_trace \<rho> (ha_trace arm),
      ha_completion = rename_completion \<rho> (ha_completion arm)\<rparr>"

fun rename_handler :: "renaming \<Rightarrow> parameter_handler_scope_info \<Rightarrow> parameter_handler_scope_info" where
  "rename_handler \<rho> (ScopeHandle arms) = ScopeHandle (map (rename_arm \<rho>) arms)"

definition rename_call :: "renaming \<Rightarrow> parameter_call_info \<Rightarrow> parameter_call_info" where
  "rename_call \<rho> call =
     call\<lparr>pc_signature := rn_type \<rho> (pc_signature call),
          pc_handlers := map_option (map (rename_handler \<rho>)) (pc_handlers call)\<rparr>"

fun rename_outcome :: "renaming \<Rightarrow> callable_outcome_info \<Rightarrow> callable_outcome_info" where
  "rename_outcome \<rho> (OutcomeReturned ty observation) = OutcomeReturned (rn_type \<rho> ty) observation"
| "rename_outcome \<rho> (OutcomeRaised ty) = OutcomeRaised (rn_type \<rho> ty)"
| "rename_outcome \<rho> OutcomeNonReturn = OutcomeNonReturn"
| "rename_outcome \<rho> (OutcomeParameterNonReturn call) = OutcomeParameterNonReturn (rename_call \<rho> call)"
| "rename_outcome \<rho> (OutcomeParameterNonReturnTemplate call) = OutcomeParameterNonReturnTemplate (rename_call \<rho> call)"

fun rename_trace :: "renaming \<Rightarrow> trace_info \<Rightarrow> trace_info" where
  "rename_trace \<rho> TraceEmpty = TraceEmpty"
| "rename_trace \<rho> (TraceEvent effect) = TraceEvent (rename_effect \<rho> effect)"
| "rename_trace \<rho> (TraceOutcome outcome) = TraceOutcome (rename_outcome \<rho> outcome)"
| "rename_trace \<rho> (TraceParameterCall call) = TraceParameterCall (rename_call \<rho> call)"
| "rename_trace \<rho> (TraceSeq parts) = TraceSeq (map (rn_trace \<rho>) parts)"
| "rename_trace \<rho> (TraceChoice parts) = TraceChoice (map (rn_trace \<rho>) parts)"
| "rename_trace \<rho> (TraceRepeat inner) = TraceRepeat (rn_trace \<rho> inner)"
| "rename_trace \<rho> (TraceUnknownOrder actions) = TraceUnknownOrder (rn_row \<rho> actions)"
| "rename_trace \<rho> (TraceWidened actions calls) = TraceWidened (rn_row \<rho> actions) (map (rename_call \<rho>) calls)"

section \<open>The bytes of a renamed node\<close>

lemma enc_len_map [simp]: "enc_len (map f xs) = enc_len xs"
  by (simp add: enc_len_def)

lemma fold_map_same: "(\<And>x e. f (g x) e = f x e) \<Longrightarrow> fold f (map g xs) e = fold f xs e"
  by (induction xs arbitrary: e) simp_all

lemma encode_argument_rename: "encode_argument h (rename_argument \<rho> argument) e = encode_argument h argument e"
  by (cases argument) (simp_all add: encode_argument_def)

lemma encode_effect_rename: "encode_effect h (rename_effect \<rho> effect) e = encode_effect h effect e"
  by (simp add: encode_effect_def rename_effect_def Let_def fold_map_same encode_argument_rename)

lemma encode_spec_rename: "encode_spec h (rename_spec \<rho> bound) e = encode_spec h bound e"
  by (simp add: encode_spec_def rename_spec_def)

lemma encode_variant_rename: "encode_variant (rename_variant \<rho> variant) e = encode_variant variant e"
  by (cases "vi_payload variant")
    (simp_all add: encode_variant_def rename_variant_def Let_def fold_map_same rename_field_def)

lemma encode_signature_rename: "encode_signature (rename_signature \<rho> signature) e = encode_signature signature e"
  by (simp add: encode_signature_def rename_signature_def rename_parameter_def Let_def fold_map_same)

lemma encode_type_rename: "encode_type h (rename_type \<rho> ty) e = encode_type h ty e"
  by (cases ty)
    (simp_all add: encode_type_def fold_map_same encode_spec_rename encode_variant_rename encode_signature_rename rename_field_def)

lemma encode_row_rename: "encode_row h (rename_row \<rho> row) e = encode_row h row e"
  by (simp add: encode_row_def rename_row_def fold_map_same encode_effect_rename)

lemma encode_binder_rename: "encode_binder h (rename_binder \<rho> binder) e = encode_binder h binder e"
  by (simp add: encode_binder_def rename_binder_def Let_def fold_map_same encode_spec_rename)

lemma encode_arm_rename: "encode_arm h (rename_arm \<rho> arm) e = encode_arm h arm e"
  by (cases "ha_completion arm") (simp_all add: encode_arm_def rename_arm_def encode_effect_rename)

lemma encode_handler_rename: "encode_handler h (rename_handler \<rho> handler) e = encode_handler h handler e"
  by (cases handler) (simp add: encode_handler_def fold_map_same encode_arm_rename)

lemma encode_call_rename: "encode_parameter_call h (rename_call \<rho> call) e = encode_parameter_call h call e"
  by (cases "pc_handlers call")
    (simp_all add: encode_parameter_call_def rename_call_def Let_def fold_map_same encode_handler_rename)

lemma encode_outcome_rename: "encode_outcome h (rename_outcome \<rho> outcome) e = encode_outcome h outcome e"
  by (cases outcome) (simp_all add: encode_outcome_def encode_call_rename)

lemma encode_trace_rename: "encode_trace h (rename_trace \<rho> trace) e = encode_trace h trace e"
  by (cases trace) (simp_all add: encode_trace_def encode_effect_rename encode_outcome_rename encode_call_rename fold_map_same)

section \<open>The references of a renamed node\<close>

lemma option_list_rename:
  "option_list NodeType (map_option (rn_type \<rho>) t) = map (rename_node \<rho>) (option_list NodeType t)"
  "option_list NodeRow (map_option (rn_row \<rho>) r) = map (rename_node \<rho>) (option_list NodeRow r)"
  "option_list NodeBinder (map_option (rn_binder \<rho>) p) = map (rename_node \<rho>) (option_list NodeBinder p)"
  by (auto simp: option_list_def split: option.split)

lemma concat_map_rename:
  "(\<And>x. f (g x) = map (rename_node \<rho>) (f x)) \<Longrightarrow> concat (map f (map g xs)) = map (rename_node \<rho>) (concat (map f xs))"
  by (induction xs) simp_all

lemma spec_references_rename: "spec_references (map (rename_spec \<rho>) bounds) = map (rename_node \<rho>) (spec_references bounds)"
  unfolding spec_references_def by (rule concat_map_rename) (simp add: rename_spec_def)

lemma effect_references_rename: "effect_references (rename_effect \<rho> effect) = map (rename_node \<rho>) (effect_references effect)"
proof -
  have "(case rename_argument \<rho> arg of ArgType ty \<Rightarrow> [NodeType ty] | _ \<Rightarrow> []) =
      map (rename_node \<rho>) (case arg of ArgType ty \<Rightarrow> [NodeType ty] | _ \<Rightarrow> [])" for arg
    by (cases arg) simp_all
  from concat_map_rename [of "\<lambda>arg. case arg of ArgType ty \<Rightarrow> [NodeType ty] | _ \<Rightarrow> []" "rename_argument \<rho>" \<rho>, OF this]
  show ?thesis by (simp add: effect_references_def rename_effect_def)
qed

lemma payload_references_rename:
  "payload_references (vi_payload (rename_variant \<rho> variant)) = map (rename_node \<rho>) (payload_references (vi_payload variant))"
  by (cases "vi_payload variant") (simp_all add: payload_references_def rename_variant_def rename_field_def)

lemma type_references_rename:
  "type_references True (rename_type \<rho> ty) = map (rename_node \<rho>) (type_references True ty)"
proof (cases ty)
  case (TypeEnum key parameters variants)
  with concat_map_rename [of "\<lambda>variant. payload_references (vi_payload variant)" "rename_variant \<rho>" \<rho> variants,
      OF payload_references_rename]
  show ?thesis by (simp add: type_references_def)
qed (simp_all add: type_references_def spec_references_rename rename_signature_def rename_parameter_def rename_field_def
    option_list_rename)

lemma call_references_rename:
  "parameter_call_references (rename_call \<rho> call) = map (rename_node \<rho>) (parameter_call_references call)"
proof -
  have arms: "concat (map arm_references (map (rename_arm \<rho>) arms)) = map (rename_node \<rho>) (concat (map arm_references arms))" for arms
  proof (rule concat_map_rename)
    fix arm show "arm_references (rename_arm \<rho> arm) = map (rename_node \<rho>) (arm_references arm)"
      by (cases "ha_completion arm") (simp_all add: arm_references_def rename_arm_def effect_references_rename)
  qed
  let ?f = "\<lambda>handler. case handler of ScopeHandle arms \<Rightarrow> concat (map arm_references arms)"
  have "?f (rename_handler \<rho> handler) = map (rename_node \<rho>) (?f handler)" for handler
    using arms by (cases handler) simp
  from concat_map_rename [of ?f "rename_handler \<rho>" \<rho>, OF this] show ?thesis
    by (cases "pc_handlers call") (simp_all add: parameter_call_references_def rename_call_def)
qed

lemma trace_references_rename: "trace_references (rename_trace \<rho> trace) = map (rename_node \<rho>) (trace_references trace)"
proof (cases trace)
  case (TraceOutcome outcome)
  then show ?thesis by (cases outcome) (simp_all add: trace_references_def call_references_rename)
next
  case (TraceWidened actions calls)
  with concat_map_rename [of parameter_call_references "rename_call \<rho>" \<rho> calls, OF call_references_rename]
  show ?thesis by (simp add: trace_references_def)
qed (simp_all add: trace_references_def call_references_rename effect_references_rename)

lemma row_references_rename:
  "option_list NodeBinder (er_tail (rename_row \<rho> row)) @ concat (map effect_references (er_effects (rename_row \<rho> row))) =
   map (rename_node \<rho>) (option_list NodeBinder (er_tail row) @ concat (map effect_references (er_effects row)))"
  using concat_map_rename [of effect_references "rename_effect \<rho>" \<rho> "er_effects row", OF effect_references_rename]
  by (simp add: rename_row_def option_list_rename)

section \<open>Graphs that hold the same descriptors\<close>

text \<open>
  \<open>same_descriptors g g' \<rho> R\<close>: the nodes \<open>R\<close> of \<open>g\<close>, closed under references, lie in \<open>g'\<close> where \<open>\<rho>\<close> says, with the
  references in them renamed; \<open>\<rho>\<close> keeps them apart.
\<close>

definition node_renamed :: "descriptor_graph \<Rightarrow> descriptor_graph \<Rightarrow> renaming \<Rightarrow> descriptor_node \<Rightarrow> bool" where
  "node_renamed g g' \<rho> node \<longleftrightarrow>
     (case node of
        NodeType r \<Rightarrow> graph_type_info g' (rn_type \<rho> r) = map_option (rename_type \<rho>) (graph_type_info g r)
      | NodeRow r \<Rightarrow> graph_effect_row g' (rn_row \<rho> r) = map_option (rename_row \<rho>) (graph_effect_row g r)
      | NodeBinder r \<Rightarrow> graph_binder g' (rn_binder \<rho> r) = map_option (rename_binder \<rho>) (graph_binder g r)
      | NodeTrace r \<Rightarrow> graph_trace g' (rn_trace \<rho> r) = map_option (rename_trace \<rho>) (graph_trace g r))"

definition same_descriptors ::
  "descriptor_graph \<Rightarrow> descriptor_graph \<Rightarrow> renaming \<Rightarrow> descriptor_node list \<Rightarrow> bool" where
  "same_descriptors g g' \<rho> R \<longleftrightarrow>
     inj_on (rename_node \<rho>) (set R) \<and>
     (\<forall>node\<in>set R. set (node_references g node) \<subseteq> set R \<and> node_renamed g g' \<rho> node)"

lemmas graph_reads = graph_type_info_def graph_effect_row_def graph_binder_def graph_trace_def

lemma encode_node_rename:
  assumes "node_renamed g g' \<rho> node"
  shows "encode_node h g' (rename_node \<rho> node) = encode_node h g node"
  using assms
  by (cases node)
    (simp_all add: node_renamed_def encode_node_def graph_reads fun_eq_iff option.map_comp o_def encode_type_rename
      encode_row_rename encode_binder_rename encode_trace_rename)

lemma references_rename:
  assumes "node_renamed g g' \<rho> node"
  shows "references g' True (rename_node \<rho> node) = map_option (map (rename_node \<rho>)) (references g True node)"
  using assms spec_references_rename row_references_rename
  by (cases node)
    (simp_all add: node_renamed_def references_def graph_reads option.map_comp o_def type_references_rename
      trace_references_rename rename_binder_def)

lemma node_index_rename:
  assumes "node_renamed g g' \<rho> node"
  shows "node_index g' (rename_node \<rho> node) = None \<longleftrightarrow> node_index g node = None"
  using assms by (cases node) (auto simp: node_renamed_def node_index_def graph_reads vec_get_def split: if_splits)

definition rename_visited ::
  "renaming \<Rightarrow> (descriptor_node \<times> u64) list \<Rightarrow> (descriptor_node \<times> u64) list" where
  "rename_visited \<rho> visited = map (\<lambda>(node, label). (rename_node \<rho> node, label)) visited"

lemma rename_visited_simps [simp]:
  "rename_visited \<rho> [] = []" "rename_visited \<rho> ((node, label) # visited) = (rename_node \<rho> node, label) # rename_visited \<rho> visited"
  "length (rename_visited \<rho> visited) = length visited"
  by (simp_all add: rename_visited_def)

lemma map_of_rename:
  "inj_on (rename_node \<rho>) A \<Longrightarrow> node \<in> A \<Longrightarrow> fst ` set visited \<subseteq> A \<Longrightarrow>
   map_of (rename_visited \<rho> visited) (rename_node \<rho> node) = map_of visited node"
  by (induction visited) (auto dest: inj_onD)

lemma fingerprint_loop_rename:
  assumes "same_descriptors g g' \<rho> R" "set work \<subseteq> set R" "fst ` set visited \<subseteq> set R"
  shows "fingerprint_loop h g' (map (rename_node \<rho>) work) (rename_visited \<rho> visited) e budget =
    fingerprint_loop h g work visited e budget"
  using assms
proof (induction h g work visited e budget rule: fingerprint_loop.induct)
  case (1 h g work visited e budget)
  show ?case
  proof (cases work)
    case Nil
    then show ?thesis by (simp add: fingerprint_loop.simps)
  next
    case (Cons node work')
    note step = fingerprint_loop.simps [of h g "node # work'"]
      fingerprint_loop.simps [of h g' "rename_node \<rho> node # map (rename_node \<rho>) work'"]
    from 1(3,4) Cons have node: "node \<in> set R" by auto
    from 1(3) node have refs: "references g' True (rename_node \<rho> node) = map_option (map (rename_node \<rho>)) (references g True node)"
      and enc: "encode_node h g' (rename_node \<rho> node) = encode_node h g node"
      and closed: "set (node_references g node) \<subseteq> set R"
      by (simp_all add: same_descriptors_def references_rename encode_node_rename)
    have lookup: "map_of (rename_visited \<rho> visited) (rename_node \<rho> node) = map_of visited node"
      using 1(3,5) node by (intro map_of_rename) (auto simp: same_descriptors_def)
    show ?thesis
    proof (cases "budget_visit budget")
      case (Inl err)
      with Cons show ?thesis by (simp add: step)
    next
      case visit: (Inr budget')
      show ?thesis
      proof (cases "map_of visited node")
        case (Some label)
        from 1(2) [OF Cons visit Some] 1(3-5) Cons
        have "fingerprint_loop h g' (map (rename_node \<rho>) work') (rename_visited \<rho> visited) (enc_number label (enc_tag 0 e)) budget' =
            fingerprint_loop h g work' visited (enc_number label (enc_tag 0 e)) budget'" by auto
        with Cons visit Some lookup show ?thesis by (simp add: step)
      next
        case None
        define label where "label = (of_nat (length visited) :: u64)"
        show ?thesis
        proof (cases "encode_node h g node (enc_number label (enc_tag 1 e))"; cases "references g True node")
          fix e' children
          assume e': "encode_node h g node (enc_number label (enc_tag 1 e)) = Some e'"
            and children: "references g True node = Some children"
          have "set (children @ work') \<subseteq> set R" "fst ` set ((node, label) # visited) \<subseteq> set R"
            using closed children 1(4,5) Cons node by (auto simp: node_references_def)
          from 1(1) [OF Cons visit None label_def refl _ e' children 1(3) this]
          have "fingerprint_loop h g' (map (rename_node \<rho>) children @ map (rename_node \<rho>) work') ((rename_node \<rho> node, label) # rename_visited \<rho> visited)
              (enc_len children e') budget' =
            fingerprint_loop h g (children @ work') ((node, label) # visited) (enc_len children e') budget'"
            by simp
          then show ?thesis
            using Cons visit None lookup e' children refs enc by (simp add: step label_def Let_def)
        qed (use Cons visit None lookup refs enc in \<open>simp_all add: step label_def Let_def split: option.split\<close>)
      qed
    qed
  qed
qed

text \<open>
  C14: The fingerprint of a descriptor is canonical: it depends on what the node reaches and not on where
  the nodes lie in the graph. Take nodes of a graph, closed under references, and a renaming of references that
  keeps them apart; let another graph hold, at the new places, the same descriptors with the references in them
  renamed and nothing else changed. Then a node that exists has the same fingerprint in both graphs, whatever
  the hash, the positions and the other nodes: no position enters the bytes.
\<close>

theorem node_fingerprint_canonical:
  assumes "same_descriptors g g' \<rho> R" "root \<in> set R" "node_index g root \<noteq> None"
  shows "node_fingerprint h g' (rename_node \<rho> root) domain = node_fingerprint h g root domain"
proof -
  have "fingerprint_loop h g' [rename_node \<rho> root] [] e budget = fingerprint_loop h g [root] [] e budget" for e budget
    using fingerprint_loop_rename [OF assms(1), of "[root]" "[]"] assms(2) by simp
  moreover have "node_index g' (rename_node \<rho> root) \<noteq> None"
    using assms node_index_rename [of g g' \<rho> root] by (auto simp: same_descriptors_def)
  ultimately show ?thesis using assms(3) by (auto simp: node_fingerprint_def node_fingerprint_with_budget_def)
qed

section \<open>Samples\<close>

text \<open>The graph of \<open>sample_descriptors\<close> laid out in another order beside another type.\<close>

definition sample_descriptors_moved :: descriptor_graph where
  "sample_descriptors_moved =
     \<lparr>dg_types = [TypePrimitive PUnit, TypePrimitive PBool, TypeBuiltin BList [TypeInfoRef 0]], dg_rows = [],
      dg_binders = [], dg_traces = []\<rparr>"

definition sample_move :: renaming where
  "sample_move =
     \<lparr>rn_type = (\<lambda>r. if r = TypeInfoRef 0 then TypeInfoRef 2 else TypeInfoRef 0), rn_row = id, rn_binder = id, rn_trace = id\<rparr>"

theorem node_fingerprint_canonical_witness:
  "node_fingerprint sample_hash sample_descriptors_moved (NodeType (TypeInfoRef 2)) ''etas.code.type-descriptor.v1'' =
   node_fingerprint sample_hash sample_descriptors (NodeType (TypeInfoRef 0)) ''etas.code.type-descriptor.v1''"
proof -
  have "same_descriptors sample_descriptors sample_descriptors_moved sample_move [NodeType (TypeInfoRef 0), NodeType (TypeInfoRef 1)]"
    by (simp add: same_descriptors_def node_renamed_def graph_reads node_references_def references_def sample_descriptors_def
        sample_descriptors_moved_def vec_get_def type_references_def sample_move_def)
  from node_fingerprint_canonical [OF this, of "NodeType (TypeInfoRef 0)" sample_hash "''etas.code.type-descriptor.v1''"]
  show ?thesis by (simp add: sample_move_def node_index_def sample_descriptors_def)
qed

end
