(* ===== verification/Spec2Isabelle.thy ===== *)
theory Spec2Isabelle
  imports Traversal Topo Scc Storage UseList Fixpoint Product PipelineRuns TraceContract Validated Renaming
begin

text \<open>
  Verification of the generic algorithms, code identities, descriptors and trace contracts of etas-core.

  \<^bold>\<open>The program.\<close> The workspace under \<open>src/crates\<close> is the portable core of a language for agents. The crate
  \<open>etas_utils\<close> holds algorithms that know nothing of the language: graphs, fixpoints, automata and a pass
  manager. The crate \<open>etas_code\<close> names definitions and revisions by canonical fingerprints, describes types,
  effect rows and traces as nodes of a descriptor graph, validates such graphs, fingerprints their nodes,
  and proves that the trace of a candidate stays within a frozen contract. A graph enters through
  \<open>DescriptorGraph::new\<close>, which validates it; the fingerprints and the trace proofs read accepted graphs;
  the pass manager supplies the execution control that can interrupt a trace proof. The other crates
  (host, caches, package metadata, library tables) build on these.

  \<^bold>\<open>Conventions.\<close> A Rust panic, and a loop that does not end, is the outer \<open>None\<close>; an error is \<open>Inl\<close>. Identifiers
  are \<open>32 word\<close>; a \<open>usize\<close> is a natural number with the checks and saturation at \<open>usize_max\<close> written out;
  strings are lists of bytes. Closures, passes, observers, hash functions and the execution control are
  arguments. The hash is never assumed to be injective, except where a property says so for the inputs that
  occur. \<open>Prelude\<close> has the shared vocabulary, \<open>Effects\<close> the computations that thread a context and may fail,
  with the total-correctness predicate \<open>holds\<close> and the invariants \<open>keeps\<close>.

  \<^bold>\<open>Graphs\<close> (\<open>etas_utils/src/graph\<close>). \<open>GraphView\<close> is the interface of the algorithms, with reachability and the
  locale \<open>view_provider\<close>. \<open>Traversal\<close> models \<open>dfs\<close>, \<open>bfs\<close> and \<open>reverse_postorder\<close>, \<open>Topo\<close> the topological sort
  and the extraction of cycles, \<open>Scc\<close> the iterative algorithm of Tarjan: each ends on a finite reachable
  part and returns what it promises. \<open>Slots\<close> and \<open>Chains\<close> are the vectors of slots and the lists threaded
  through them; \<open>Storage\<close> models the mutable multigraph and its observers, \<open>UseList\<close> the lists of uses. Their
  operations keep an invariant, do not panic, and refine an abstract multigraph and one list per operand:
  this covers structures of at most \<open>2 ^ 32\<close> slots, and writes through \<open>node_mut\<close>, \<open>edge_mut\<close>, \<open>user_mut\<close> and
  \<open>operand_mut\<close> that change values only. The public fields for endpoints and operands can be written as well;
  \<open>endpoint_change_panics\<close> and \<open>operand_change_loops\<close> show what that breaks.
  \<open>Storage\<close> interprets \<open>view_provider\<close>, so the algorithms run on stored graphs.

  \<^bold>\<open>Fixpoints\<close> (\<open>etas_utils/src/fixpoint\<close>). \<open>LatticeOps\<close> has the lattice traits as locales with their two
  implementations, \<open>Fixpoint\<close> the worklist and the solvers: convergence within a stated number of steps to
  the least fixpoint, and the exact outcome on every input.

  \<^bold>\<open>Automata\<close> (\<open>etas_utils/src/automaton\<close>). \<open>Automaton\<close> models symbolic automata and the monitor, \<open>Product\<close> the
  bounded synchronous product over ordered maps (\<open>OrdMap\<close>): steps, limits, errors and classification.

  \<^bold>\<open>Pass manager\<close> (\<open>etas_utils/src/pipeline\<close>). \<open>Artifacts\<close> has artifacts, preservation and the cache of
  analyses, \<open>PassManager\<close> descriptors, configuration and the run of passes and pipelines; \<open>PipelineRuns\<close>
  shows when a pass is called, what is available afterwards, and that statistics match the records.

  \<^bold>\<open>Identities\<close> (\<open>etas_code/src/identity\<close>). \<open>Canonical\<close> models the encoder and shows its codes are prefix-free,
  \<open>Identity\<close> keys, headers, revisions and their wire forms: round trips, and that keys identify their inputs.

  \<^bold>\<open>Descriptors\<close> (\<open>etas_code/src/descriptor\<close>). \<open>Descriptors\<close> has the data of \<open>types.rs\<close>, \<open>callable.rs\<close>, \<open>behavior.rs\<close>
  and \<open>graph.rs\<close>; \<open>Fingerprints\<close> models \<open>traversal.rs\<close> and \<open>fingerprint.rs\<close> and shows that fingerprints exist; \<open>Renaming\<close>
  renames the references in descriptors and shows that fingerprints do not depend on the numbering of nodes. \<open>Validation\<close> models \<open>validation.rs\<close> and \<open>validate_expansion\<close>; \<open>Expansion\<close> shows that the
  latter decides boundedness of expansion, \<open>Validated\<close> that accepted graphs are well formed and that
  validation returns.

  \<^bold>\<open>Trace contracts\<close> (\<open>etas_code/src/contract\<close>). \<open>TraceLabels\<close> models \<open>labels.rs\<close>, \<open>TraceBudget\<close> the budget of
  \<open>mod.rs\<close>, \<open>TraceNfa\<close> the automata of \<open>nfa.rs\<close>, \<open>TraceInclusion\<close> the search of \<open>inclusion.rs\<close>. \<open>TraceRuns\<close> gives the
  words of automata, \<open>TraceLanguage\<close> the words of trace descriptors, \<open>TraceExits\<close> the exits of parameter calls,
  and \<open>TraceContract\<close> the properties of the public checks. A footprint that is an alternative of a choice makes
  the automaton accept more than the trace describes; \<open>footprint_in_choice_admits_more\<close> and
  \<open>footprint_in_choice_covers_more\<close> show the wrong answers this gives on accepted graphs, and the soundness
  properties exclude the shape by \<open>choices_plain\<close>. The theory at hand puts
  validation, fingerprints and trace proofs together.

  \<^bold>\<open>Loops and bounds.\<close> The solvers, the walk of a fingerprint, the construction, closure, pruning and search of
  automata, and the walks of validation are total functions: a limit, a budget or a growing set of visited
  references decreases. Recursive traversals take their depth, and breadth-first search and Tarjan's
  algorithm their number of iterations, as an argument; their properties hold from a stated value on
  (the number of reachable nodes, or of nodes and edges). Walks of linked lists take one step more than the list has
  slots, which suffices under the invariant.

  \<^bold>\<open>Not modelled.\<close> In \<open>etas_code\<close>: \<open>identity/origins.rs\<close>; projection, definitions, annotations and specs of
  descriptors; residual plans; snapshots, reports and syntax records. In \<open>etas_utils\<close>: \<open>pattern\<close> (dispatch over
  trait objects) and \<open>profile\<close> (measurement and output). \<open>etas_core\<close> and \<open>etas_memory_derive\<close> are containers and
  generated size accounting that the modelled code does not depend on. \<open>etas_cache\<close>, \<open>etas_host\<close> and
  \<open>etas_package_metadata\<close> are file, network and process I/O and a message codec; \<open>etas_std\<close> and \<open>etas_builtin\<close> are
  mostly tables. Serde derives, display texts and size accounting are left out everywhere; the wire forms of
  identities are modelled because their deserializers validate.
\<close>

section \<open>Accepted descriptors and trace proofs\<close>

lemma accepted_descriptors_ok:
  assumes "dl_max_edges lim < usize_max" "descriptor_graph_new input lim = Some (Inr g)"
  shows "descriptors_ok g"
  using accepted_validated(1) [OF assms] assms(1) by (simp add: validated_def descriptors_ok_def)

text \<open>
  C9: Validation makes the proofs sound. For two graphs that \<open>DescriptorGraph::new\<close> accepted, with a limit \<open>max_edges\<close>
  less than \<open>usize::MAX\<close>, the inclusion check returns. If it answers \<open>Included\<close>, and no choice of several alternatives in
  the frozen graph has one that starts with a footprint (\<open>choices_plain\<close>: a trace of unknown order or a widened
  one; \<open>DescriptorGraph::new\<close> does not refuse such choices), then every word of the candidate trace is covered by a word of the frozen one; and every node of the
  candidate has a fingerprint.
\<close>

theorem accepted_graphs_checked:
  assumes "dl_max_edges lim < usize_max"
    and "descriptor_graph_new c lim = Some (Inr candidate)" "descriptor_graph_new f lim = Some (Inr frozen)"
  shows "check_trace_inclusion h candidate candidate_root frozen frozen_root limits \<noteq> None \<and>
    (check_trace_inclusion h candidate candidate_root frozen frozen_root limits = Some (Inr Included) \<longrightarrow> choices_plain frozen \<longrightarrow>
       (\<forall>w. trace_lang h candidate candidate_root w \<longrightarrow>
          (\<exists>w'. trace_lang h frozen frozen_root w' \<and> list_all2 covers w' w))) \<and>
    (\<forall>node. node_index candidate node \<noteq> None \<longrightarrow> (\<exists>p. node_fingerprint h candidate node domain = Some (Inr p)))"
proof -
  note ok = accepted_descriptors_ok [OF assms(1,2)] accepted_descriptors_ok [OF assms(1,3)]
  have "check_trace_inclusion h candidate candidate_root frozen frozen_root limits \<noteq> None"
    unfolding check_trace_inclusion_def prove_not_None by (rule holds_not_None [OF inclusion_holds [OF ok]])
  moreover from ok(1) have "\<exists>p. node_fingerprint h candidate node domain = Some (Inr p)"
    if "node_index candidate node \<noteq> None" for node
    using node_fingerprint_outcome [of candidate h node domain] that by (simp add: descriptors_ok_def)
  ultimately show ?thesis using trace_inclusion_words [OF ok] by blast
qed

lemma samples_accepted:
  "descriptor_graph_new sample_candidate descriptor_limits_default = Some (Inr sample_candidate)"
  "descriptor_graph_new sample_frozen descriptor_limits_default = Some (Inr sample_frozen)"
  "descriptor_graph_new sample_choice descriptor_limits_default = Some (Inr sample_choice)"
  by (simp_all add: validation_runs check_footprint_def sample_candidate_def sample_frozen_def sample_choice_def sample_effect_def sample_key_def
      cong: bind_o_weak)

text \<open>The graph on which \<open>footprint_in_choice_covers_more\<close> relies is accepted too.\<close>

lemma sample_exits_accepted: "descriptor_graph_new sample_exits descriptor_limits_default = Some (Inr sample_exits)"
  by (simp add: validation_runs check_footprint_def sample_exits_def sample_effect_def sample_key_def sample_call_def sample_flow_def
     check_call_def callback_loop.simps check_arguments_def check_callable_def check_termination_def action_row_def 
     check_signature_def check_names_def parameter_call_references_def
      cong: bind_o_weak)

theorem accepted_graphs_checked_witness:
  "\<exists>w. trace_lang sample_hash sample_frozen (TraceInfoRef 0) w \<and> list_all2 covers w [sample_action ''a'', sample_action ''b'']"
proof -
  have "dl_max_edges descriptor_limits_default < usize_max" by (simp add: descriptor_limits_default_def usize_max_def)
  from accepted_graphs_checked [OF this samples_accepted(1,2), of sample_hash "TraceInfoRef 0" "TraceInfoRef 0" sample_proof_limits]
  show ?thesis using sample_included sample_graphs_plain(2) sample_candidate_words by blast
qed

end
